(* ===== verification/Prelude.thy ===== *)
theory Prelude
  imports Main "HOL-Library.Word"
begin

text \<open>
  Shared vocabulary of the development: machine integers, the outcome of a kernel
  operation (a value, a call of \<open>panic\<close>, C undefined behaviour, or no return), its sequencing
  operator with the rules the component proofs use, and the generic lemmas on words.
\<close>

unbundle bit_operations_syntax

section \<open>Machine integers\<close>

text \<open>The typedefs of \<open>src/types.h\<close>; pointers of the 32-bit kernel are \<open>u32\<close> values.\<close>

type_synonym u8 = "8 word"
type_synonym u16 = "16 word"
type_synonym u32 = "32 word"
type_synonym addr = "32 word"

section \<open>Outcomes\<close>

text \<open>
  \<open>Ret x\<close>: the operation returned. \<open>Panic msg\<close>: it called \<open>panic(msg)\<close>, which never
  returns. \<open>Fault\<close>: it did something C leaves undefined (it followed a null pointer or
  indexed an array out of its bounds), so nothing is known of the rest of the run. \<open>Hang\<close>: it
  is in a loop that never ends.
\<close>

datatype 'a outcome = Ret 'a | Panic string | Fault | Hang

fun bnd :: "'a outcome \<Rightarrow> ('a \<Rightarrow> 'b outcome) \<Rightarrow> 'b outcome" where
  "bnd (Ret x) f = f x"
| "bnd (Panic m) f = Panic m"
| "bnd Fault f = Fault"
| "bnd Hang f = Hang"

fun returns :: "'a outcome \<Rightarrow> bool" where
  "returns (Ret x) = True"
| "returns (Panic m) = False"
| "returns Fault = False"
| "returns Hang = False"

named_theorems ret_iff \<open>when a sequenced operation returns\<close>

lemma bnd_Ret_iff [ret_iff]: "bnd m f = Ret y \<longleftrightarrow> (\<exists>x. m = Ret x \<and> f x = Ret y)"
  by (cases m) auto

lemma if_Ret_iff [ret_iff]:
  "(if b then m else n) = Ret y \<longleftrightarrow> (b \<and> m = Ret y) \<or> (\<not> b \<and> n = Ret y)"
  by simp

lemma returns_iff: "returns m \<longleftrightarrow> (\<exists>x. m = Ret x)"
  by (cases m) auto

lemma bnd_assoc: "bnd (bnd m f) g = bnd m (\<lambda>x. bnd (f x) g)"
  by (cases m) auto

lemma bnd_cong [fundef_cong]:
  "m = m' \<Longrightarrow> (\<And>x. m' = Ret x \<Longrightarrow> f x = f' x) \<Longrightarrow> bnd m f = bnd m' f'"
  by (cases m') auto

text \<open>
  \<open>post m Q\<close>: if the operation returns, its result satisfies \<open>Q\<close>. \<open>okay m Q\<close>: it does
  return, and its result satisfies \<open>Q\<close>.
\<close>

fun post :: "'a outcome \<Rightarrow> ('a \<Rightarrow> bool) \<Rightarrow> bool" where
  "post (Ret x) Q = Q x"
| "post (Panic m) Q = True"
| "post Fault Q = True"
| "post Hang Q = True"

fun okay :: "'a outcome \<Rightarrow> ('a \<Rightarrow> bool) \<Rightarrow> bool" where
  "okay (Ret x) Q = Q x"
| "okay (Panic m) Q = False"
| "okay Fault Q = False"
| "okay Hang Q = False"

lemma post_bnd: "post (bnd m f) Q \<longleftrightarrow> post m (\<lambda>x. post (f x) Q)"
  by (cases m) auto

lemma okay_bnd: "okay (bnd m f) Q \<longleftrightarrow> okay m (\<lambda>x. okay (f x) Q)"
  by (cases m) auto

lemma okay_iff: "okay m Q \<longleftrightarrow> (\<exists>x. m = Ret x \<and> Q x)"
  by (cases m) auto

lemma post_iff: "post m Q \<longleftrightarrow> (\<forall>x. m = Ret x \<longrightarrow> Q x)"
  by (cases m) auto

lemma okay_mono: "okay m P \<Longrightarrow> (\<And>x. P x \<Longrightarrow> Q x) \<Longrightarrow> okay m Q"
  by (cases m) auto

lemma post_mono: "post m P \<Longrightarrow> (\<And>x. P x \<Longrightarrow> Q x) \<Longrightarrow> post m Q"
  by (cases m) auto

text \<open>A \<open>for\<close> loop over the elements of a list, a turn being an operation on the state.\<close>

primrec for_each :: "('a \<Rightarrow> 's \<Rightarrow> 's outcome) \<Rightarrow> 'a list \<Rightarrow> 's \<Rightarrow> 's outcome" where
  "for_each f [] s = Ret s"
| "for_each f (x # xs) s = bnd (f x s) (for_each f xs)"

lemma for_each_append: "for_each f (xs @ ys) s = bnd (for_each f xs s) (for_each f ys)"
proof (induction xs arbitrary: s)
  case (Cons x xs)
  then show ?case by (cases "f x s") simp_all
qed simp

lemma for_each_okay:
  assumes "P s" "\<And>x s. x \<in> set xs \<Longrightarrow> P s \<Longrightarrow> okay (f x s) P"
  shows "okay (for_each f xs s) P"
  using assms
proof (induction xs arbitrary: s)
  case (Cons x xs)
  then have "okay (f x s) P" by simp
  with Cons show ?case by (cases "f x s") simp_all
qed simp

text \<open>The first index of a search loop, or none.\<close>

definition first_index :: "('a \<Rightarrow> bool) \<Rightarrow> 'a list \<Rightarrow> nat option" where
  "first_index P xs = (case filter (\<lambda>i. P (xs ! i)) [0..<length xs] of [] \<Rightarrow> None | i # _ \<Rightarrow> Some i)"

section \<open>Words\<close>

lemma unat_lt_32 [simp]: "unat (a :: u32) < 4294967296"
  using unsigned_less [of a] by simp

lemma unat_add_small:
  "unat (a :: u32) + unat b < 4294967296 \<Longrightarrow> unat (a + b) = unat a + unat b"
  using unat_add_lem [of a b] by simp

lemma unat_of_nat_32 [simp]: "n < 4294967296 \<Longrightarrow> unat (of_nat n :: u32) = n"
  by (simp add: unat_of_nat take_bit_eq_mod)

lemma of_nat_unat_eq: "unat (a :: u32) = n \<Longrightarrow> a = of_nat n"
  by auto

lemma unat_sub_le: "b \<le> (a :: u32) \<Longrightarrow> unat (a - b) = unat a - unat b"
  by (simp add: unat_sub)

lemma and_not_mask_eq_minus: "(a :: 'a :: len word) AND NOT (mask n) = a - take_bit n a"
proof -
  have "a = take_bit n a OR (a AND NOT (mask n))"
    by (rule bit_word_eqI) (auto simp: bit_simps)
  also have "\<dots> = take_bit n a + (a AND NOT (mask n))"
    by (rule disjunctive_add_eq_or [symmetric]) (rule bit_word_eqI, auto simp: bit_simps)
  finally show ?thesis by (simp add: algebra_simps)
qed

lemma unat_take_bit: "unat (take_bit n (a :: 'a :: len word)) = unat a mod 2 ^ n"
  by (metis unsigned_take_bit_eq take_bit_eq_mod)

lemma unat_and_not_mask:
  "unat ((a :: 'a :: len word) AND NOT (mask n)) = unat a - unat a mod 2 ^ n"
proof -
  have "take_bit n a \<le> a"
    unfolding word_le_nat_alt by (simp add: unat_take_bit)
  then show ?thesis
    by (simp add: and_not_mask_eq_minus unat_sub unat_take_bit)
qed

end
