(* ===== verification/Locks.thy ===== *)
theory Locks
  imports Prelude
begin

text \<open>
  \<^verbatim>\<open>spinlock.c\<close> and \<^verbatim>\<open>sleeplock.c\<close>. Spin locks are modelled on a machine with several
  CPUs: each has its nesting depth of \<^verbatim>\<open>pushcli\<close> and its interrupt flag, and a CPU that wants a
  lock another one holds spins. The runs of the CPUs are interleaved by a step relation, over which
  mutual exclusion is proved. Sleep locks are modelled as one process sees them; a lock that is
  held puts the caller to sleep. Names and call stacks, kept for debugging, are left out.
\<close>

section \<open>Spin locks\<close>

record cpu =
  ncli :: int
  intena :: bool
  FL_IF :: bool

record spinlock =
  sp_locked :: bool
  sp_cpu :: "nat option"

record smp =
  cpus :: "nat \<Rightarrow> cpu"
  spins :: "nat \<Rightarrow> spinlock"

definition initlock :: "nat \<Rightarrow> smp \<Rightarrow> smp" where
  "initlock lk s = s\<lparr>spins := (spins s)(lk := \<lparr>sp_locked = False, sp_cpu = None\<rparr>)\<rparr>"

definition set_cpu :: "nat \<Rightarrow> cpu \<Rightarrow> smp \<Rightarrow> smp" where
  "set_cpu c x s = s\<lparr>cpus := (cpus s)(c := x)\<rparr>"

definition pushcli :: "nat \<Rightarrow> smp \<Rightarrow> smp" where
  "pushcli c s =
     (let x = cpus s c; eflags = FL_IF x;
          x = x\<lparr>FL_IF := False\<rparr>;
          x = (if ncli x = 0 then x\<lparr>intena := eflags\<rparr> else x)
      in set_cpu c (x\<lparr>ncli := ncli x + 1\<rparr>) s)"

definition popcli :: "nat \<Rightarrow> smp \<Rightarrow> smp outcome" where
  "popcli c s =
     (let x = cpus s c in
      if FL_IF x then Panic ''popcli - interruptible''
      else
        let x = x\<lparr>ncli := ncli x - 1\<rparr> in
        if ncli x < 0 then Panic ''popcli''
        else Ret (set_cpu c (if ncli x = 0 \<and> intena x then x\<lparr>FL_IF := True\<rparr> else x) s))"

definition holding :: "nat \<Rightarrow> nat \<Rightarrow> smp \<Rightarrow> (bool \<times> smp) outcome" where
  "holding c lk s =
     (let s = pushcli c s;
          r = sp_locked (spins s lk) \<and> sp_cpu (spins s lk) = Some c
      in bnd (popcli c s) (\<lambda>s. Ret (r, s)))"

text \<open>
  \<open>acquire\<close> up to its loop, one atomic exchange of the loop with what follows its success, and the
  whole of it as the CPU runs it alone: a lock that is taken is never released, and the loop goes on.
\<close>

definition acquire_enter :: "nat \<Rightarrow> nat \<Rightarrow> smp \<Rightarrow> smp outcome" where
  "acquire_enter c lk s =
     bnd (holding c lk (pushcli c s)) (\<lambda>(h, s). if h then Panic ''acquire'' else Ret s)"

definition acquire_xchg :: "nat \<Rightarrow> nat \<Rightarrow> smp \<Rightarrow> bool \<times> smp" where
  "acquire_xchg c lk s =
     (let old = sp_locked (spins s lk);
          s = s\<lparr>spins := (spins s)(lk := (spins s lk)\<lparr>sp_locked := True\<rparr>)\<rparr>
      in if old then (False, s)
         else (True, s\<lparr>spins := (spins s)(lk := (spins s lk)\<lparr>sp_cpu := Some c\<rparr>)\<rparr>))"

definition acquire :: "nat \<Rightarrow> nat \<Rightarrow> smp \<Rightarrow> smp outcome" where
  "acquire c lk s =
     bnd (acquire_enter c lk s) (\<lambda>s. case acquire_xchg c lk s of (got, s) \<Rightarrow> if got then Ret s else Hang)"

definition release :: "nat \<Rightarrow> nat \<Rightarrow> smp \<Rightarrow> smp outcome" where
  "release c lk s =
     bnd (holding c lk s) (\<lambda>(h, s).
     if \<not> h then Panic ''release''
     else popcli c (s\<lparr>spins := (spins s)(lk := \<lparr>sp_locked = False, sp_cpu = None\<rparr>)\<rparr>))"

text \<open>The walk of \<open>getcallerpcs\<close> up the chain of saved frame pointers, over the words of the stack.\<close>

fun callerpcs :: "nat \<Rightarrow> (addr \<Rightarrow> u32) \<Rightarrow> addr \<Rightarrow> u32 list" where
  "callerpcs 0 stack ebp = []"
| "callerpcs (Suc n) stack ebp =
     (if ebp = 0 \<or> ebp < 0x80000000 \<or> ebp = 0xffffffff then replicate (Suc n) 0
      else stack (ebp + 4) # callerpcs n stack (stack ebp))"

definition getcallerpcs :: "(addr \<Rightarrow> u32) \<Rightarrow> addr \<Rightarrow> u32 list" where
  "getcallerpcs stack v = callerpcs 10 stack (v - 8)"

lemma length_getcallerpcs: "length (getcallerpcs stack v) = 10"
proof -
  have "length (callerpcs n stack e) = n" for n e by (induction n arbitrary: e) simp_all
  then show ?thesis by (simp add: getcallerpcs_def)
qed

section \<open>CPUs that run side by side\<close>

text \<open>
  A CPU runs kernel code, or spins in \<open>acquire\<close>. The history variable \<open>crit\<close> has, for every CPU,
  the locks its calls of \<open>acquire\<close> returned with and its calls of \<open>release\<close> have not given up.
\<close>

record smp_run =
  smp :: smp
  spinning :: "nat \<Rightarrow> nat option"
  crit :: "nat \<Rightarrow> nat set"

inductive smp_step :: "smp_run \<Rightarrow> smp_run \<Rightarrow> bool" where
  enter: "spinning r c = None \<Longrightarrow> acquire_enter c lk (smp r) = Ret s \<Longrightarrow>
    smp_step r (r\<lparr>smp := s, spinning := (spinning r)(c := Some lk)\<rparr>)"
| spin: "spinning r c = Some lk \<Longrightarrow> acquire_xchg c lk (smp r) = (False, s) \<Longrightarrow>
    smp_step r (r\<lparr>smp := s\<rparr>)"
| enters: "spinning r c = Some lk \<Longrightarrow> acquire_xchg c lk (smp r) = (True, s) \<Longrightarrow>
    smp_step r (r\<lparr>smp := s, spinning := (spinning r)(c := None), crit := (crit r)(c := insert lk (crit r c))\<rparr>)"
| leaves: "spinning r c = None \<Longrightarrow> release c lk (smp r) = Ret s \<Longrightarrow>
    smp_step r (r\<lparr>smp := s, crit := (crit r)(c := crit r c - {lk})\<rparr>)"

definition smp_start :: "(nat \<Rightarrow> bool) \<Rightarrow> smp_run" where
  "smp_start f = \<lparr>smp = \<lparr>cpus = (\<lambda>c. \<lparr>ncli = 0, intena = False, FL_IF = f c\<rparr>),
      spins = (\<lambda>_. \<lparr>sp_locked = False, sp_cpu = None\<rparr>)\<rparr>,
     spinning = (\<lambda>_. None), crit = (\<lambda>_. {})\<rparr>"

text \<open>
  A lock is taken when, and by whom, the history says; the depth of \<open>pushcli\<close> counts the locks held
  and the one waited for; interrupts are off at any depth but zero.
\<close>

definition smp_inv :: "smp_run \<Rightarrow> bool" where
  "smp_inv r \<longleftrightarrow>
     (\<forall>lk. sp_locked (spins (smp r) lk) \<longleftrightarrow> sp_cpu (spins (smp r) lk) \<noteq> None) \<and>
     (\<forall>c lk. lk \<in> crit r c \<longleftrightarrow> sp_cpu (spins (smp r) lk) = Some c) \<and>
     (\<forall>c. finite (crit r c) \<and>
          ncli (cpus (smp r) c) = int (card (crit r c)) + (if spinning r c = None then 0 else 1) \<and>
          (ncli (cpus (smp r) c) \<noteq> 0 \<longrightarrow> \<not> FL_IF (cpus (smp r) c)))"

lemma holding_eq:
  assumes "0 \<le> ncli (cpus s c)" "ncli (cpus s c) \<noteq> 0 \<Longrightarrow> \<not> FL_IF (cpus s c)"
  shows "\<exists>s'. holding c lk s = Ret (sp_locked (spins s lk) \<and> sp_cpu (spins s lk) = Some c, s') \<and> spins s' = spins s \<and>
    (\<forall>d. ncli (cpus s' d) = ncli (cpus s d) \<and> FL_IF (cpus s' d) = FL_IF (cpus s d)) \<and>
    (\<forall>d. ncli (cpus s d) \<noteq> 0 \<longrightarrow> intena (cpus s' d) = intena (cpus s d))"
  using assms by (auto simp: holding_def pushcli_def popcli_def set_cpu_def Let_def)

lemma smp_inv_start: "smp_inv (smp_start f)"
  by (simp add: smp_inv_def smp_start_def)

lemma smp_inv_enter:
  assumes inv: "smp_inv r" and "spinning r c = None" "acquire_enter c lk (smp r) = Ret s"
  shows "smp_inv (r\<lparr>smp := s, spinning := (spinning r)(c := Some lk)\<rparr>)"
proof -
  let ?s = "pushcli c (smp r)"
  have n: "0 \<le> ncli (cpus ?s c)" "\<not> FL_IF (cpus ?s c)"
    using inv by (simp_all add: smp_inv_def pushcli_def set_cpu_def Let_def)
  obtain s' where s': "holding c lk ?s = Ret (sp_locked (spins ?s lk) \<and> sp_cpu (spins ?s lk) = Some c, s')" "spins s' = spins ?s"
    "\<And>d. ncli (cpus s' d) = ncli (cpus ?s d)" "\<And>d. FL_IF (cpus s' d) = FL_IF (cpus ?s d)"
    using holding_eq [of ?s c lk] n by blast
  have "s' = s" using assms(3) s'(1) by (simp add: acquire_enter_def split: if_splits)
  moreover have "spins ?s = spins (smp r)"
    "\<And>d. ncli (cpus ?s d) = ncli (cpus (smp r) d) + (if d = c then 1 else 0)"
    "\<And>d. FL_IF (cpus ?s d) = (d \<noteq> c \<and> FL_IF (cpus (smp r) d))"
    by (simp_all add: pushcli_def set_cpu_def Let_def)
  ultimately show ?thesis using inv assms(2) s'(2-4) by (simp add: smp_inv_def)
qed

lemma smp_inv_leaves:
  assumes inv: "smp_inv r" and "spinning r c = None" "release c lk (smp r) = Ret s"
  shows "smp_inv (r\<lparr>smp := s, crit := (crit r)(c := crit r c - {lk})\<rparr>)"
proof -
  have n: "0 \<le> ncli (cpus (smp r) c)" "ncli (cpus (smp r) c) \<noteq> 0 \<Longrightarrow> \<not> FL_IF (cpus (smp r) c)"
    using inv by (simp_all add: smp_inv_def)
  obtain s' where s': "holding c lk (smp r) =
      Ret (sp_locked (spins (smp r) lk) \<and> sp_cpu (spins (smp r) lk) = Some c, s')" "spins s' = spins (smp r)"
    "\<And>d. ncli (cpus s' d) = ncli (cpus (smp r) d)" "\<And>d. FL_IF (cpus s' d) = FL_IF (cpus (smp r) d)"
    using holding_eq [of "smp r" c lk] n by blast
  have h: "sp_cpu (spins (smp r) lk) = Some c"
    and p: "popcli c (s'\<lparr>spins := (spins s')(lk := \<lparr>sp_locked = False, sp_cpu = None\<rparr>)\<rparr>) = Ret s"
    using assms(3) s'(1) by (auto simp: release_def split: if_splits)
  from h inv have m: "lk \<in> crit r c" "finite (crit r c)" by (simp_all add: smp_inv_def)
  then have "card (crit r c - {lk}) = card (crit r c) - 1" "0 < card (crit r c)"
    by (auto simp: card_gt_0_iff)
  then have k: "int (card (crit r c - {lk})) = int (card (crit r c)) - 1" by simp
  have other: "lk \<notin> crit r d" if "d \<noteq> c" for d using h inv that by (auto simp: smp_inv_def)
  have 1: "spins s = (spins (smp r))(lk := \<lparr>sp_locked = False, sp_cpu = None\<rparr>)"
    using p s'(2) by (auto simp: popcli_def Let_def set_cpu_def split: if_splits)
  have 2: "ncli (cpus s d) = ncli (cpus (smp r) d) - (if d = c then 1 else 0)" for d
    using p s'(3) by (auto simp: popcli_def Let_def set_cpu_def split: if_splits)
  have 3: "FL_IF (cpus s d) \<Longrightarrow> ncli (cpus s d) = 0 \<or> d \<noteq> c \<and> FL_IF (cpus (smp r) d)" for d
    using p s'(3,4) n by (auto simp: popcli_def Let_def set_cpu_def split: if_splits)
  have i: "sp_locked (spins (smp r) l) \<longleftrightarrow> sp_cpu (spins (smp r) l) \<noteq> None" "l \<in> crit r d \<longleftrightarrow> sp_cpu (spins (smp r) l) = Some d"
    "finite (crit r d)" "ncli (cpus (smp r) d) = int (card (crit r d)) + (if spinning r d = None then 0 else 1)"
    "ncli (cpus (smp r) d) \<noteq> 0 \<Longrightarrow> \<not> FL_IF (cpus (smp r) d)" for l d
    using inv unfolding smp_inv_def by blast+
  show ?thesis
    unfolding smp_inv_def
  proof (intro conjI allI impI)
    fix d
    show "ncli (cpus (smp (r\<lparr>smp := s, crit := (crit r)(c := crit r c - {lk})\<rparr>)) d) =
        int (card (crit (r\<lparr>smp := s, crit := (crit r)(c := crit r c - {lk})\<rparr>) d)) +
        (if spinning (r\<lparr>smp := s, crit := (crit r)(c := crit r c - {lk})\<rparr>) d = None then 0 else 1)"
      using i(4) [of d] assms(2) by (simp add: 2 k)
    assume "ncli (cpus (smp (r\<lparr>smp := s, crit := (crit r)(c := crit r c - {lk})\<rparr>)) d) \<noteq> 0"
    then show "\<not> FL_IF (cpus (smp (r\<lparr>smp := s, crit := (crit r)(c := crit r c - {lk})\<rparr>)) d)"
      using i(5) [of d] 3 [of d] by (auto simp: 2)
  qed (use i(1-3) other in \<open>auto simp: 1\<close>)
qed

lemma smp_inv_enters:
  assumes inv: "smp_inv r" and sp: "spinning r c = Some lk" and x: "acquire_xchg c lk (smp r) = (True, s)"
  shows "smp_inv (r\<lparr>smp := s, spinning := (spinning r)(c := None), crit := (crit r)(c := insert lk (crit r c))\<rparr>)"
proof -
  have f: "\<not> sp_locked (spins (smp r) lk)"
    and s: "s = (smp r)\<lparr>spins := (spins (smp r))(lk := (spins (smp r) lk)\<lparr>sp_locked := True, sp_cpu := Some c\<rparr>)\<rparr>"
    using x by (auto simp: acquire_xchg_def Let_def split: if_splits)
  have "lk \<notin> crit r d" for d using inv f by (simp add: smp_inv_def)
  then have "card (insert lk (crit r c)) = Suc (card (crit r c))" "\<And>d. lk \<notin> crit r d"
    using inv by (auto simp: smp_inv_def)
  then show ?thesis using inv sp by (simp add: smp_inv_def s)
qed

lemma smp_inv_step: "smp_step r r' \<Longrightarrow> smp_inv r \<Longrightarrow> smp_inv r'"
proof (induction rule: smp_step.induct)
  case (spin r c lk s)
  then have "s = (smp r)\<lparr>spins := (spins (smp r))(lk := (spins (smp r) lk)\<lparr>sp_locked := True\<rparr>)\<rparr>"
    "sp_locked (spins (smp r) lk)"
    by (auto simp: acquire_xchg_def Let_def split: if_splits)
  moreover from this have "(spins (smp r) lk)\<lparr>sp_locked := True\<rparr> = spins (smp r) lk" by (cases "spins (smp r) lk") simp
  ultimately have "s = smp r" by (simp only: fun_upd_triv) simp
  with spin show ?case by simp
qed (simp_all add: smp_inv_enter smp_inv_leaves smp_inv_enters)

lemma smp_reachable_inv: "smp_step\<^sup>*\<^sup>* (smp_start f) r \<Longrightarrow> smp_inv r"
  by (induction rule: rtranclp_induct) (auto simp: smp_inv_start intro: smp_inv_step)

section \<open>Sleep locks\<close>

record sleeplock =
  sl_locked :: bool
  sl_pid :: int

definition initsleeplock :: sleeplock where
  "initsleeplock = \<lparr>sl_locked = False, sl_pid = 0\<rparr>"

text \<open>The caller, process \<open>pid\<close>, sleeps while the lock is held.\<close>

definition acquiresleep :: "int \<Rightarrow> sleeplock \<Rightarrow> sleeplock outcome" where
  "acquiresleep pid lk = (if sl_locked lk then Hang else Ret \<lparr>sl_locked = True, sl_pid = pid\<rparr>)"

definition releasesleep :: "sleeplock \<Rightarrow> sleeplock" where
  "releasesleep lk = lk\<lparr>sl_locked := False, sl_pid := 0\<rparr>"

definition holdingsleep :: "int \<Rightarrow> sleeplock \<Rightarrow> bool" where
  "holdingsleep pid lk \<longleftrightarrow> sl_locked lk \<and> sl_pid lk = pid"

section \<open>Properties\<close>

text \<open>
  (C17) Mutual exclusion: in every interleaving of CPUs that call \<open>acquire\<close> and \<open>release\<close>, no two of
  them are past \<open>acquire\<close> for the same lock, and a CPU between \<open>acquire\<close> and \<open>release\<close> of any lock
  has its interrupts off, so that no interrupt handler can deadlock on that lock.
\<close>

theorem spinlock_mutual_exclusion:
  assumes "smp_step\<^sup>*\<^sup>* (smp_start f) r"
  shows "(\<forall>c d. c \<noteq> d \<longrightarrow> crit r c \<inter> crit r d = {}) \<and>
    (\<forall>c. crit r c \<noteq> {} \<longrightarrow> \<not> FL_IF (cpus (smp r) c))"
proof -
  have inv: "smp_inv r" by (rule smp_reachable_inv [OF assms])
  have "crit r c \<inter> crit r d = {}" if "c \<noteq> d" for c d using inv that by (auto simp: smp_inv_def)
  moreover have "\<not> FL_IF (cpus (smp r) c)" if "crit r c \<noteq> {}" for c
  proof -
    have "card (crit r c) \<noteq> 0" using inv that by (simp add: smp_inv_def)
    moreover have "ncli (cpus (smp r) c) = int (card (crit r c)) + (if spinning r c = None then 0 else 1)"
      "ncli (cpus (smp r) c) \<noteq> 0 \<longrightarrow> \<not> FL_IF (cpus (smp r) c)"
      using inv unfolding smp_inv_def by blast+
    ultimately show ?thesis by auto
  qed
  ultimately show ?thesis by blast
qed

theorem spinlock_mutual_exclusion_witness:
  "\<exists>r. smp_step\<^sup>*\<^sup>* (smp_start (\<lambda>_. True)) r \<and> crit r 0 = {7} \<and> crit r 0 \<inter> crit r 1 = {} \<and> \<not> FL_IF (cpus (smp r) 0)"
proof -
  let ?r0 = "smp_start (\<lambda>_. True)"
  note D = acquire_enter_def holding_def pushcli_def popcli_def set_cpu_def acquire_xchg_def Let_def smp_start_def
  obtain s1 where 1: "acquire_enter 0 7 (smp ?r0) = Ret s1" and f: "\<not> sp_locked (spins s1 7)" by (simp add: D)
  let ?r1 = "?r0\<lparr>smp := s1, spinning := (spinning ?r0)(0 := Some 7)\<rparr>"
  have "smp_step ?r0 ?r1" by (rule smp_step.enter [OF _ 1]) (simp add: smp_start_def)
  moreover obtain s2 where 2: "acquire_xchg 0 7 (smp ?r1) = (True, s2)" using f by (simp add: acquire_xchg_def Let_def)
  let ?r2 = "?r1\<lparr>smp := s2, spinning := (spinning ?r1)(0 := None), crit := (crit ?r1)(0 := insert 7 (crit ?r1 0))\<rparr>"
  have "smp_step ?r1 ?r2" by (rule smp_step.enters [OF _ 2]) simp
  ultimately have "smp_step\<^sup>*\<^sup>* ?r0 ?r2" by (meson converse_rtranclp_into_rtranclp rtranclp.rtrancl_refl)
  moreover have "crit ?r2 0 = {7}" by (simp add: smp_start_def)
  moreover note spinlock_mutual_exclusion [OF \<open>smp_step\<^sup>*\<^sup>* ?r0 ?r2\<close>]
  ultimately show ?thesis by (intro exI [of _ ?r2]) (metis insert_not_empty zero_neq_one)
qed

end
