(* ===== verification/Mmu.thy ===== *)
theory Mmu
  imports Prelude
begin

text \<open>
  The address arithmetic of \<open>src/mmu.h\<close> and \<open>src/memlayout.h\<close>: the layout constants, the
  page-table entry flags, the split of a virtual address into directory index, table index
  and offset, page rounding, and the kernel's direct map \<open>V2P\<close>/\<open>P2V\<close>. Every macro is a
  function on 32-bit words, so the wrap-around of the C expressions is kept.
\<close>

section \<open>Constants\<close>

abbreviation (input) EXTMEM :: u32 where "EXTMEM \<equiv> 0x100000"
abbreviation (input) PHYSTOP :: u32 where "PHYSTOP \<equiv> 0xE000000"
abbreviation (input) DEVSPACE :: u32 where "DEVSPACE \<equiv> 0xFE000000"
abbreviation (input) KERNBASE :: u32 where "KERNBASE \<equiv> 0x80000000"
abbreviation (input) KERNLINK :: u32 where "KERNLINK \<equiv> 0x80100000"

abbreviation (input) NPDENTRIES :: nat where "NPDENTRIES \<equiv> 1024"
abbreviation (input) NPTENTRIES :: u32 where "NPTENTRIES \<equiv> 1024"
abbreviation (input) PGSIZE :: u32 where "PGSIZE \<equiv> 4096"
abbreviation (input) PTXSHIFT :: nat where "PTXSHIFT \<equiv> 12"
abbreviation (input) PDXSHIFT :: nat where "PDXSHIFT \<equiv> 22"

abbreviation (input) PTE_P :: u32 where "PTE_P \<equiv> 0x001"
abbreviation (input) PTE_W :: u32 where "PTE_W \<equiv> 0x002"
abbreviation (input) PTE_U :: u32 where "PTE_U \<equiv> 0x004"
abbreviation (input) PTE_A :: u32 where "PTE_A \<equiv> 0x020"
abbreviation (input) PTE_PS :: u32 where "PTE_PS \<equiv> 0x080"
abbreviation (input) PTE_PG :: u32 where "PTE_PG \<equiv> 0x200"
abbreviation (input) PTE_COW :: u32 where "PTE_COW \<equiv> 0x400"

abbreviation (input) FEC_PR :: u32 where "FEC_PR \<equiv> 0x1"
abbreviation (input) FEC_WR :: u32 where "FEC_WR \<equiv> 0x2"
abbreviation (input) FEC_U :: u32 where "FEC_U \<equiv> 0x4"

text \<open>The per-process limits of \<open>src/types.h\<close> and the size of the frame table.\<close>

abbreviation (input) MAX_PSYC_PAGES :: nat where "MAX_PSYC_PAGES \<equiv> 16"
abbreviation (input) MAX_TOTAL_PAGES :: nat where "MAX_TOTAL_PAGES \<equiv> 32"
abbreviation (input) MAXPAGES :: nat where "MAXPAGES \<equiv> 57344"

section \<open>Address macros\<close>

definition V2P :: "addr \<Rightarrow> u32" where
  "V2P a = a - KERNBASE"

definition P2V :: "u32 \<Rightarrow> addr" where
  "P2V a = a + KERNBASE"

definition PDX :: "addr \<Rightarrow> u32" where
  "PDX va = drop_bit PDXSHIFT va AND 0x3FF"

definition PTX :: "addr \<Rightarrow> u32" where
  "PTX va = drop_bit PTXSHIFT va AND 0x3FF"

definition PGADDR :: "u32 \<Rightarrow> u32 \<Rightarrow> u32 \<Rightarrow> addr" where
  "PGADDR d t off = push_bit PDXSHIFT d OR push_bit PTXSHIFT t OR off"

definition PGROUNDUP :: "u32 \<Rightarrow> u32" where
  "PGROUNDUP sz = (sz + PGSIZE - 1) AND NOT (PGSIZE - 1)"

definition PGROUNDDOWN :: "u32 \<Rightarrow> u32" where
  "PGROUNDDOWN a = a AND NOT (PGSIZE - 1)"

definition PTE_ADDR :: "u32 \<Rightarrow> u32" where
  "PTE_ADDR pte = pte AND NOT 0xFFF"

definition PTE_FLAGS :: "u32 \<Rightarrow> u32" where
  "PTE_FLAGS pte = pte AND 0xFFF"

definition page_aligned :: "u32 \<Rightarrow> bool" where
  "page_aligned a \<longleftrightarrow> a mod PGSIZE = 0"

text \<open>The test \<open>e & flag\<close> of the C conditions.\<close>

definition has :: "u32 \<Rightarrow> u32 \<Rightarrow> bool" where
  "has e f \<longleftrightarrow> e AND f \<noteq> 0"

section \<open>Lemmas\<close>

lemma mask_10_eq: "(0x3FF :: u32) = mask 10"
  by (simp add: mask_eq_exp_minus_1)

lemma mask_12_eq: "(0xFFF :: u32) = mask 12"
  by (simp add: mask_eq_exp_minus_1)

lemma P2V_V2P [simp]: "P2V (V2P a) = a"
  by (simp add: P2V_def V2P_def)

lemma V2P_P2V [simp]: "V2P (P2V a) = a"
  by (simp add: P2V_def V2P_def)

lemma unat_PDX: "unat (PDX va) = unat va div 4194304"
proof -
  have "unat (PDX va) = unat va div 4194304 mod 1024"
    by (simp add: PDX_def mask_10_eq take_bit_eq_mask [symmetric] unat_take_bit
        unat_drop_bit_eq drop_bit_eq_div unat_div_distrib)
  moreover have "unat va div 4194304 < 1024"
    using unat_lt_32 [of va] by linarith
  ultimately show ?thesis by simp
qed

lemma unat_PTX: "unat (PTX va) = unat va div 4096 mod 1024"
  by (simp add: PTX_def mask_10_eq take_bit_eq_mask [symmetric] unat_take_bit
      unat_drop_bit_eq drop_bit_eq_div unat_div_distrib)

lemma PDX_lt [simp]: "unat (PDX va) < 1024"
  using unat_lt_32 [of va] by (simp add: unat_PDX less_mult_imp_div_less)

lemma PTX_lt [simp]: "unat (PTX va) < 1024"
  by (simp add: unat_PTX)

lemma unat_PGROUNDDOWN: "unat (PGROUNDDOWN a) = unat a - unat a mod 4096"
  using unat_and_not_mask [of a 12] by (simp add: PGROUNDDOWN_def mask_12_eq)

lemma PGROUNDUP_eq: "PGROUNDUP sz = PGROUNDDOWN (sz + 4095)"
  by (simp add: PGROUNDUP_def PGROUNDDOWN_def add.commute)

lemma page_aligned_iff: "page_aligned a \<longleftrightarrow> unat a mod 4096 = 0"
  by (simp add: page_aligned_def unat_eq_0 [symmetric] unat_mod_distrib)

lemma page_aligned_take_bit: "page_aligned a \<longleftrightarrow> take_bit 12 a = 0"
  by (simp add: page_aligned_def take_bit_eq_mod)

lemma page_aligned_PGROUNDDOWN [simp]: "page_aligned (PGROUNDDOWN a)"
  by (simp add: page_aligned_iff unat_PGROUNDDOWN minus_mod_eq_mult_div)

lemma page_aligned_PGROUNDUP [simp]: "page_aligned (PGROUNDUP a)"
  by (simp add: PGROUNDUP_eq)

lemma PGROUNDDOWN_le: "PGROUNDDOWN a \<le> a"
  by (simp add: word_le_nat_alt unat_PGROUNDDOWN)

lemma PGROUNDDOWN_aligned [simp]: "page_aligned a \<Longrightarrow> PGROUNDDOWN a = a"
  by (simp add: word_unat_eq_iff unat_PGROUNDDOWN page_aligned_iff)

lemma page_aligned_PTE_ADDR [simp]: "page_aligned (PTE_ADDR e)"
proof -
  have "take_bit 12 (PTE_ADDR e) = 0"
    by (rule bit_word_eqI)
      (auto simp: PTE_ADDR_def mask_12_eq bit_take_bit_iff bit_and_iff bit_not_iff bit_mask_iff)
  then show ?thesis by (simp add: page_aligned_take_bit)
qed

lemma PTE_ADDR_OR:
  "page_aligned pa \<Longrightarrow> f AND NOT 0xFFF = 0 \<Longrightarrow> PTE_ADDR (pa OR f) = pa"
proof (rule bit_word_eqI)
  fix n assume a: "page_aligned pa" and f: "f AND NOT 0xFFF = 0" and n: "n < LENGTH(32)"
  from a have "bit (take_bit 12 pa) n = False" by (simp add: page_aligned_take_bit)
  moreover from f have "bit (f AND NOT 0xFFF) n = False" by simp
  ultimately show "bit (PTE_ADDR (pa OR f)) n = bit pa n"
    using n by (auto simp: PTE_ADDR_def mask_12_eq bit_and_iff bit_or_iff bit_not_iff bit_mask_iff bit_take_bit_iff)
qed

lemma PTE_FLAGS_OR:
  "page_aligned pa \<Longrightarrow> f AND NOT 0xFFF = 0 \<Longrightarrow> PTE_FLAGS (pa OR f) = f"
proof (rule bit_word_eqI)
  fix n assume a: "page_aligned pa" and f: "f AND NOT 0xFFF = 0" and n: "n < LENGTH(32)"
  from a have "bit (take_bit 12 pa) n = False" by (simp add: page_aligned_take_bit)
  moreover from f have "bit (f AND NOT 0xFFF) n = False" by simp
  ultimately show "bit (PTE_FLAGS (pa OR f)) n = bit f n"
    using n by (auto simp: PTE_FLAGS_def mask_12_eq bit_and_iff bit_or_iff bit_not_iff bit_mask_iff bit_take_bit_iff)
qed

lemma PTE_ADDR_FLAGS: "PTE_ADDR e OR PTE_FLAGS e = e"
  by (rule bit_word_eqI)
    (auto simp: PTE_ADDR_def PTE_FLAGS_def mask_12_eq bit_or_iff bit_and_iff bit_not_iff bit_mask_iff)

lemma page_aligned_dvd: "page_aligned a \<longleftrightarrow> 4096 dvd uint a"
  by (metis page_aligned_iff mod_eq_0_iff_dvd uint_nat int_dvd_int_iff of_nat_numeral)

lemma page_aligned_add [simp]: "page_aligned a \<Longrightarrow> page_aligned b \<Longrightarrow> page_aligned (a + b)"
  by (simp add: page_aligned_dvd uint_word_ariths dvd_mod)

lemma page_aligned_sub [simp]: "page_aligned a \<Longrightarrow> page_aligned b \<Longrightarrow> page_aligned (a - b)"
  by (simp add: page_aligned_dvd uint_word_ariths dvd_mod)

lemma page_aligned_consts [simp]:
  "page_aligned 0" "page_aligned 4096" "page_aligned KERNBASE" "page_aligned DEVSPACE"
  "page_aligned KERNLINK" "page_aligned PHYSTOP"
  by (simp_all add: page_aligned_def)

lemma page_aligned_P2V [simp]: "page_aligned (P2V a) = page_aligned a"
proof
  assume "page_aligned (P2V a)"
  then have "page_aligned (P2V a - KERNBASE)" by simp
  then show "page_aligned a" by (simp add: P2V_def)
qed (simp add: P2V_def)

lemma page_aligned_V2P [simp]: "page_aligned (V2P a) = page_aligned a"
  using page_aligned_P2V [of "V2P a"] by simp

lemma unat_push_bit_32: "unat (push_bit n (a :: u32)) = unat a * 2 ^ n mod 4294967296"
  unfolding unsigned_push_bit_eq by (simp add: take_bit_eq_mod push_bit_eq_mult)

lemma nat_split_22_12:
  "(x :: nat) div 4194304 * 4194304 + x div 4096 mod 1024 * 4096 + x mod 4096 = x"
proof -
  have "x div 4194304 = x div 4096 div 1024" by (simp flip: div_mult2_eq)
  then show ?thesis
    using div_mult_mod_eq [of x 4096] div_mult_mod_eq [of "x div 4096" 1024] by linarith
qed

lemma nat_join_22_12:
  assumes "(t :: nat) < 1024" "off < 4096"
  shows "(d * 4194304 + t * 4096 + off) div 4096 = d * 1024 + t"
    and "(d * 4194304 + t * 4096 + off) div 4194304 = d"
proof -
  have "d * 4194304 + t * 4096 + off = off + 4096 * (d * 1024 + t)" by simp
  also have "\<dots> div 4096 = d * 1024 + t" using assms(2) by (subst div_mult_self2) auto
  finally show *: "(d * 4194304 + t * 4096 + off) div 4096 = d * 1024 + t" .
  have "(d * 4194304 + t * 4096 + off) div 4194304 = (d * 4194304 + t * 4096 + off) div 4096 div 1024"
    by (simp flip: div_mult2_eq)
  also have "\<dots> = d" using assms(1) by (simp add: *)
  finally show "(d * 4194304 + t * 4096 + off) div 4194304 = d" .
qed

lemma PGADDR_sum:
  assumes t: "t < 1024" and off: "off < 4096"
  shows "PGADDR d t off = push_bit 22 d + push_bit 12 t + off"
proof -
  have t10: "take_bit 10 t = t" and o12: "take_bit 12 off = off"
    using t off by (simp_all add: take_bit_eq_mask less_mask_eq)
  have bt: "n < 10" if "bit t n" for n
    using that t10 by (metis bit_take_bit_iff)
  have bo: "n < 12" if "bit off n" for n
    using that o12 by (metis bit_take_bit_iff)
  have 1: "push_bit 22 d AND push_bit 12 t = 0"
    by (rule bit_word_eqI) (auto simp: bit_and_iff bit_push_bit_iff dest: bt)
  have 2: "(push_bit 22 d OR push_bit 12 t) AND off = 0"
    by (rule bit_word_eqI) (auto simp: bit_and_iff bit_or_iff bit_push_bit_iff dest: bo)
  have "PGADDR d t off = (push_bit 22 d OR push_bit 12 t) OR off"
    by (simp only: PGADDR_def or.assoc)
  also have "\<dots> = push_bit 22 d + push_bit 12 t + off"
    unfolding disjunctive_add_eq_or [OF 2, symmetric] unfolding disjunctive_add_eq_or [OF 1, symmetric] ..
  finally show ?thesis .
qed

lemma unat_PGADDR:
  assumes d: "d < 1024" and t: "t < 1024" and off: "off < 4096"
  shows "unat (PGADDR d t off) = unat d * 4194304 + unat t * 4096 + unat off"
proof -
  from assms have lt: "unat d < 1024" "unat t < 1024" "unat off < 4096"
    by (simp_all add: word_less_nat_alt)
  then have "unat (push_bit 22 d) = unat d * 4194304" "unat (push_bit 12 t) = unat t * 4096"
    by (simp_all add: unat_push_bit_32)
  with lt show ?thesis
    unfolding PGADDR_sum [OF t off] by (simp add: unat_word_ariths)
qed

lemma PDX_PGADDR: "d < 1024 \<Longrightarrow> t < 1024 \<Longrightarrow> off < 4096 \<Longrightarrow> PDX (PGADDR d t off) = d"
  by (simp add: word_unat_eq_iff unat_PDX unat_PGADDR nat_join_22_12 word_less_nat_alt)

lemma PTX_PGADDR: "d < 1024 \<Longrightarrow> t < 1024 \<Longrightarrow> off < 4096 \<Longrightarrow> PTX (PGADDR d t off) = t"
  by (simp add: word_unat_eq_iff unat_PTX unat_PGADDR nat_join_22_12 word_less_nat_alt)

lemma PGADDR_split: "PGADDR (PDX va) (PTX va) (va AND 0xFFF) = va"
proof -
  have o: "unat (va AND 0xFFF) = unat va mod 4096"
    by (simp add: mask_12_eq take_bit_eq_mask [symmetric] unat_take_bit)
  have lt: "PDX va < 1024" "PTX va < 1024" "va AND 0xFFF < 4096"
    using PDX_lt [of va] PTX_lt [of va] by (simp_all add: word_less_nat_alt o)
  have "unat (PGADDR (PDX va) (PTX va) (va AND 0xFFF)) = unat va"
    unfolding unat_PGADDR [OF lt] o unat_PDX unat_PTX by (rule nat_split_22_12)
  then show ?thesis by (simp add: word_unat_eq_iff)
qed

text \<open>
  Reading an entry after one of its flags was set or cleared. The masks appear as the simplifier
  normalises them: \<open>NOT f\<close> for a numeral \<open>f\<close> is \<open>- (f + 1)\<close>.
\<close>

lemma has_or: "has (e OR f) g \<longleftrightarrow> has e g \<or> has f g"
  unfolding has_def bit.conj_disj_distrib2 or_eq_0_iff by blast

lemma not_has_0 [simp]: "\<not> has 0 f"
  by (simp add: has_def)

lemma has_mask [simp]:
  "has (e AND - 3) 1 = has e 1" "\<not> has (e AND - 3) 2" "has (e AND - 3) 4 = has e 4"
  "has (e AND - 3) 32 = has e 32" "has (e AND - 3) 512 = has e 512" "has (e AND - 3) 1024 = has e 1024"
  "has (e AND - 1025) 1 = has e 1" "has (e AND - 1025) 2 = has e 2" "has (e AND - 1025) 4 = has e 4"
  "has (e AND - 1025) 32 = has e 32" "has (e AND - 1025) 512 = has e 512" "\<not> has (e AND - 1025) 1024"
  "has (e AND - 33) 1 = has e 1" "has (e AND - 33) 2 = has e 2" "has (e AND - 33) 4 = has e 4"
  "\<not> has (e AND - 33) 32" "has (e AND - 33) 512 = has e 512" "has (e AND - 33) 1024 = has e 1024"
  "\<not> has (e AND - 2) 1" "has (e AND - 2) 2 = has e 2" "has (e AND - 2) 4 = has e 4"
  "has (e AND - 2) 512 = has e 512" "has (e AND - 2) 1024 = has e 1024" "\<not> has (e AND - 513) 512"
  "has (e AND - 513) 1 = has e 1" "has (e AND - 513) 2 = has e 2" "has (e AND - 513) 4 = has e 4"
  "has (e AND - 513) 1024 = has e 1024"
  "has (e AND 4095) 1 = has e 1" "has (e AND 4095) 2 = has e 2" "has (e AND 4095) 4 = has e 4"
  "has (e AND 4095) 32 = has e 32" "has (e AND 4095) 512 = has e 512" "has (e AND 4095) 1024 = has e 1024"
  by (simp_all add: has_def and.assoc)

lemma has_numeral [simp]:
  "has 1 1" "\<not> has 1 2" "\<not> has 1 4" "\<not> has 1 512" "\<not> has 1 1024"
  "\<not> has 2 1" "has 2 2" "\<not> has 2 4" "\<not> has 2 512" "\<not> has 2 1024"
  "\<not> has 4 1" "\<not> has 4 2" "has 4 4" "\<not> has 4 512" "\<not> has 4 1024"
  "\<not> has 512 1" "\<not> has 512 2" "\<not> has 512 4" "has 512 512" "\<not> has 512 1024"
  "\<not> has 1024 1" "\<not> has 1024 2" "\<not> has 1024 4" "\<not> has 1024 512" "has 1024 1024"
  by (simp_all add: has_def)

lemma PTE_ADDR_mask [simp]:
  "PTE_ADDR (e AND - 3) = PTE_ADDR e" "PTE_ADDR (e AND - 1025) = PTE_ADDR e" "PTE_ADDR (e AND - 33) = PTE_ADDR e"
  "PTE_ADDR (e AND - 2) = PTE_ADDR e" "PTE_ADDR (e AND - 513) = PTE_ADDR e" "PTE_ADDR (e AND - 5) = PTE_ADDR e"
  "PTE_ADDR (e OR 1) = PTE_ADDR e" "PTE_ADDR (e OR 2) = PTE_ADDR e" "PTE_ADDR (e OR 4) = PTE_ADDR e"
  "PTE_ADDR (e OR 512) = PTE_ADDR e" "PTE_ADDR (e OR 1024) = PTE_ADDR e"
  by (simp_all add: PTE_ADDR_def and.assoc bit.conj_disj_distrib2)

lemma has_PTE_FLAGS [simp]:
  "has (PTE_FLAGS e) 1 = has e 1" "has (PTE_FLAGS e) 2 = has e 2" "has (PTE_FLAGS e) 4 = has e 4"
  "has (PTE_FLAGS e) 512 = has e 512" "has (PTE_FLAGS e) 1024 = has e 1024"
  by (simp_all add: PTE_FLAGS_def)

lemma PTE_FLAGS_small: "PTE_FLAGS e AND NOT 0xFFF = 0"
  by (simp add: PTE_FLAGS_def and.assoc)

lemma not_has_aligned:
  assumes a: "page_aligned a" and f: "f AND NOT 0xFFF = 0"
  shows "\<not> has a f"
proof -
  have "a AND f = 0"
  proof (rule bit_word_eqI)
    fix n assume n: "n < LENGTH(32)"
    from a have "bit (take_bit 12 a) n = False" by (simp add: page_aligned_take_bit)
    moreover from f have "bit (f AND NOT 0xFFF) n = False" by simp
    ultimately show "bit (a AND f) n = bit 0 n"
      using n by (auto simp: bit_take_bit_iff bit_and_iff bit_not_iff mask_12_eq bit_mask_iff)
  qed
  then show ?thesis by (simp add: has_def)
qed

end
