(* ===== verification/Strings.thy ===== *)
theory Strings
  imports Mmu
begin

text \<open>
  The kernel's byte memory with its 32-bit accesses, and \<open>src/string.c\<close>: \<open>memset\<close>,
  \<open>memcmp\<close>, \<open>memmove\<close> on that memory, the string functions on byte sequences. The loops
  are the source's loops, and each is shown equal to a closed form that the other theories
  use (\<open>memset_eq\<close>, \<open>memmove_eq\<close>, \<open>strncmp_eq_0_iff\<close>, \<open>strncpy_copy_eq\<close>, \<open>strlen_eq\<close>).
\<close>

unbundle bit_operations_syntax

section \<open>Byte memory\<close>

type_synonym bmem = "addr \<Rightarrow> u8"

text \<open>A 32-bit load and store of the little-endian x86.\<close>

definition load32 :: "bmem \<Rightarrow> addr \<Rightarrow> u32" where
  "load32 m a = ucast (m a) OR push_bit 8 (ucast (m (a + 1)))
     OR push_bit 16 (ucast (m (a + 2))) OR push_bit 24 (ucast (m (a + 3)))"

definition store32 :: "bmem \<Rightarrow> addr \<Rightarrow> u32 \<Rightarrow> bmem" where
  "store32 m a v = m(a := ucast v, a + 1 := ucast (drop_bit 8 v),
     a + 2 := ucast (drop_bit 16 v), a + 3 := ucast (drop_bit 24 v))"

lemma bytes_join:
  "ucast (ucast v :: u8) OR push_bit 8 (ucast (ucast (drop_bit 8 v) :: u8))
     OR push_bit 16 (ucast (ucast (drop_bit 16 v) :: u8))
     OR push_bit 24 (ucast (ucast (drop_bit 24 (v :: u32)) :: u8)) = v" (is "?l = v")
proof (rule bit_word_eqI)
  fix n assume n: "n < LENGTH(32)"
  consider "n < 8" | "8 \<le> n" "n < 16" | "16 \<le> n" "n < 24" | "24 \<le> n" by linarith
  then show "bit ?l n = bit v n"
    using n by cases (auto simp: bit_or_iff bit_push_bit_iff bit_ucast_iff bit_drop_bit_eq)
qed

lemma add_neq [simp]: "a + 1 \<noteq> (a :: u32)" "a + 2 \<noteq> a" "a + 3 \<noteq> a"
  "a + 2 \<noteq> a + 1" "a + 3 \<noteq> a + 1" "a + 3 \<noteq> a + 2"
  "a \<noteq> a + 1" "a \<noteq> a + 2" "a \<noteq> a + 3"
  "a + 1 \<noteq> a + 2" "a + 1 \<noteq> a + 3" "a + 2 \<noteq> a + 3"
  by simp_all

lemma load32_store32_same [simp]: "load32 (store32 m a v) a = v"
  using bytes_join [of v] by (simp add: load32_def store32_def)

definition word_aligned :: "addr \<Rightarrow> bool" where
  "word_aligned a \<longleftrightarrow> a mod 4 = 0"

lemma word_aligned_iff: "word_aligned a \<longleftrightarrow> unat a mod 4 = 0"
  by (simp add: word_aligned_def unat_eq_0 [symmetric] unat_mod_distrib)

lemma word_aligned_dvd: "word_aligned a \<longleftrightarrow> 4 dvd uint a"
  by (metis word_aligned_iff mod_eq_0_iff_dvd uint_nat int_dvd_int_iff of_nat_numeral)

lemma page_aligned_word_aligned: "page_aligned a \<Longrightarrow> word_aligned a"
  by (auto simp: page_aligned_dvd word_aligned_dvd elim: dvd_trans [rotated])

lemma word_aligned_add [simp]: "word_aligned a \<Longrightarrow> word_aligned b \<Longrightarrow> word_aligned (a + b)"
  by (simp add: word_aligned_dvd uint_word_ariths dvd_mod)

lemma word_aligned_mult4 [simp]: "word_aligned (4 * b)"
  by (simp add: word_aligned_dvd uint_word_ariths dvd_mod)

lemma word_aligned_consts [simp]: "word_aligned 0" "word_aligned 4" "word_aligned 8"
  by (simp_all add: word_aligned_def)

lemma word_aligned_unat_add:
  assumes "word_aligned a" "i < 4"
  shows "unat (a + of_nat i) = unat a + i"
proof -
  have "unat a + i < 4294967296"
    using assms unat_lt_32 [of a] unfolding word_aligned_iff by presburger
  then show ?thesis using assms(2) by (subst unat_add_small) simp_all
qed

text \<open>Two aligned words either coincide or have no byte in common.\<close>

lemma word_aligned_bytes_disjoint:
  assumes "word_aligned a" "word_aligned b" "a \<noteq> b" "i < 4" "j < 4"
  shows "a + of_nat i \<noteq> b + of_nat j"
proof
  assume eq: "a + of_nat i = b + of_nat j"
  have a: "unat (a + of_nat i) = unat a + i"
    by (rule word_aligned_unat_add [OF assms(1,4)])
  have b: "unat (b + of_nat j) = unat b + j"
    by (rule word_aligned_unat_add [OF assms(2,5)])
  from eq a b have "unat a + i = unat b + j" by simp
  with assms(1,2,4,5) have "unat a = unat b" unfolding word_aligned_iff by presburger
  with assms(3) show False by (simp add: word_unat_eq_iff)
qed

lemma load32_store32_other [simp]:
  assumes "word_aligned a" "word_aligned b" "a \<noteq> b"
  shows "load32 (store32 m a v) b = load32 m b"
proof -
  have "store32 m a v (b + of_nat j) = m (b + of_nat j)" if "j < 4" for j
    using word_aligned_bytes_disjoint [OF assms, of 0 j] word_aligned_bytes_disjoint [OF assms, of 1 j]
      word_aligned_bytes_disjoint [OF assms, of 2 j] word_aligned_bytes_disjoint [OF assms, of 3 j] that
    by (auto simp: store32_def)
  from this [of 0] this [of 1] this [of 2] this [of 3] show ?thesis
    by (simp add: load32_def)
qed

section \<open>memset, memcmp, memmove\<close>

text \<open>The string instructions of \<open>src/x86.h\<close> (\<open>cld; rep stosb\<close> and \<open>cld; rep stosl\<close>).\<close>

primrec stosb :: "bmem \<Rightarrow> addr \<Rightarrow> u8 \<Rightarrow> nat \<Rightarrow> bmem" where
  "stosb m a c 0 = m"
| "stosb m a c (Suc n) = stosb (m(a := c)) (a + 1) c n"

primrec stosl :: "bmem \<Rightarrow> addr \<Rightarrow> u32 \<Rightarrow> nat \<Rightarrow> bmem" where
  "stosl m a w 0 = m"
| "stosl m a w (Suc n) = stosl (store32 m a w) (a + 4) w n"

definition memset :: "bmem \<Rightarrow> addr \<Rightarrow> u32 \<Rightarrow> u32 \<Rightarrow> bmem" where
  "memset m dst c n =
     (if dst mod 4 = 0 \<and> n mod 4 = 0 then
        let c' = c AND 0xFF
        in stosl m dst (push_bit 24 c' OR push_bit 16 c' OR push_bit 8 c' OR c') (unat (n div 4))
      else stosb m dst (ucast c) (unat n))"

primrec memcmp :: "bmem \<Rightarrow> addr \<Rightarrow> addr \<Rightarrow> nat \<Rightarrow> int" where
  "memcmp m s1 s2 0 = 0"
| "memcmp m s1 s2 (Suc n) =
     (if m s1 \<noteq> m s2 then uint (m s1) - uint (m s2) else memcmp m (s1 + 1) (s2 + 1) n)"

text \<open>The two loops of \<open>memmove\<close>: upwards from the start, downwards from the end.\<close>

primrec copy_up :: "bmem \<Rightarrow> addr \<Rightarrow> addr \<Rightarrow> nat \<Rightarrow> bmem" where
  "copy_up m d s 0 = m"
| "copy_up m d s (Suc n) = copy_up (m(d := m s)) (d + 1) (s + 1) n"

primrec copy_down :: "bmem \<Rightarrow> addr \<Rightarrow> addr \<Rightarrow> nat \<Rightarrow> bmem" where
  "copy_down m d s 0 = m"
| "copy_down m d s (Suc n) = copy_down (m(d - 1 := m (s - 1))) (d - 1) (s - 1) n"

definition memmove :: "bmem \<Rightarrow> addr \<Rightarrow> addr \<Rightarrow> u32 \<Rightarrow> bmem" where
  "memmove m dst src n =
     (if src < dst \<and> src + n > dst then copy_down m (dst + n) (src + n) (unat n)
      else copy_up m dst src (unat n))"

subsection \<open>What they compute\<close>

lemma unat_minus_one_32: "(x :: u32) \<noteq> 0 \<Longrightarrow> unat (x - 1) = unat x - 1"
  by (rule unat_minus_one)

lemma stosb_eq:
  "n \<le> 4294967296 \<Longrightarrow> stosb m a c n = (\<lambda>x. if unat (x - a) < n then c else m x)"
proof (induction n arbitrary: m a)
  case 0
  show ?case by simp
next
  case (Suc n)
  show ?case
  proof
    fix x
    have *: "x - (a + 1) = x - a - 1" by simp
    show "stosb m a c (Suc n) x = (if unat (x - a) < Suc n then c else m x)"
    proof (cases "x = a")
      case True
      have "unat (x - (a + 1)) = 4294967295" using True by (simp add: * unsigned_minus_1_eq_mask mask_eq_exp_minus_1)
      with Suc True show ?thesis by auto
    next
      case False
      then have "unat (x - (a + 1)) = unat (x - a) - 1" "unat (x - a) \<noteq> 0"
        unfolding * by (simp_all add: unat_minus_one_32 unat_eq_0)
      with Suc False show ?thesis by auto
    qed
  qed
qed

lemma stosb_add: "stosb m a c (n + k) = stosb (stosb m a c n) (a + of_nat n) c k"
  by (induction n arbitrary: m a) (simp_all add: ac_simps)

definition fill_word :: "u8 \<Rightarrow> u32" where
  "fill_word b = push_bit 24 (ucast b) OR push_bit 16 (ucast b) OR push_bit 8 (ucast b) OR ucast b"

lemma fill_word_bytes:
  "ucast (fill_word b) = b" "ucast (drop_bit 8 (fill_word b)) = b"
  "ucast (drop_bit 16 (fill_word b)) = b" "ucast (drop_bit 24 (fill_word b)) = b"
  by (rule bit_word_eqI,
      auto simp: fill_word_def bit_or_iff bit_push_bit_iff bit_ucast_iff bit_drop_bit_eq dest: bit_imp_le_length)+

lemma stosb_4: "stosb m a c 4 = m(a := c, a + 1 := c, a + 2 := c, a + 3 := c)"
  by (simp add: eval_nat_numeral add.assoc)

lemma store32_fill: "store32 m a (fill_word b) = stosb m a b 4"
  by (simp add: store32_def fill_word_bytes stosb_4)

lemma stosl_fill: "stosl m a (fill_word b) n = stosb m a b (4 * n)"
proof (induction n arbitrary: m a)
  case (Suc n)
  have "stosb m a b (4 * Suc n) = stosb m a b (4 + 4 * n)" by simp
  also have "\<dots> = stosb (stosb m a b 4) (a + of_nat 4) b (4 * n)" by (rule stosb_add)
  also have "\<dots> = stosl (store32 m a (fill_word b)) (a + 4) (fill_word b) n"
    by (simp add: Suc store32_fill)
  finally show ?case by simp
qed simp

lemma fill_word_of_int:
  "push_bit 24 (c AND 0xFF) OR push_bit 16 (c AND 0xFF) OR push_bit 8 (c AND 0xFF) OR (c AND 0xFF)
     = fill_word (ucast (c :: u32))"
proof -
  have "(0xFF :: u32) = mask 8" by (simp add: mask_eq_exp_minus_1)
  then have "c AND 0xFF = ucast (ucast c :: u8)"
    by (simp add: bit_eq_iff bit_and_iff bit_ucast_iff bit_mask_iff) (auto dest: bit_imp_le_length)
  then show ?thesis by (simp add: fill_word_def)
qed

lemma memset_eq:
  "memset m dst c n = (\<lambda>x. if x - dst < n then ucast c else m x)"
proof -
  have "memset m dst c n = stosb m dst (ucast c) (unat n)"
  proof (cases "dst mod 4 = 0 \<and> n mod 4 = 0")
    case True
    then have "unat n mod 4 = 0" by (simp add: word_aligned_iff [symmetric] word_aligned_def)
    then have "4 * unat (n div 4) = unat n"
      using div_mult_mod_eq [of "unat n" 4] by (simp add: unat_div_distrib)
    with True show ?thesis
      unfolding memset_def Let_def fill_word_of_int stosl_fill by simp
  next
    case False
    then show ?thesis by (simp only: memset_def if_not_P if_False)
  qed
  also have "\<dots> = (\<lambda>x. if unat (x - dst) < unat n then ucast c else m x)"
    by (rule stosb_eq) (simp add: less_imp_le)
  finally show ?thesis by (simp add: word_less_nat_alt)
qed

lemma memcmp_eq_0_iff:
  "memcmp m s1 s2 n = 0 \<longleftrightarrow> (\<forall>i<n. m (s1 + of_nat i) = m (s2 + of_nat i))"
proof (induction n arbitrary: s1 s2)
  case (Suc n)
  have "(\<forall>i<Suc n. m (s1 + of_nat i) = m (s2 + of_nat i)) \<longleftrightarrow>
      m s1 = m s2 \<and> (\<forall>i<n. m (s1 + 1 + of_nat i) = m (s2 + 1 + of_nat i))"
    by (simp add: All_less_Suc2 add.assoc)
  with Suc show ?case by (simp add: word_uint_eq_iff [symmetric])
qed simp

subsection \<open>memmove copies, whichever way the buffers overlap\<close>

definition copied :: "bmem \<Rightarrow> addr \<Rightarrow> addr \<Rightarrow> nat \<Rightarrow> bmem" where
  "copied m d s n = (\<lambda>x. if unat (x - d) < n then m (s + (x - d)) else m x)"

lemma copy_up_eq:
  "n \<le> 4294967296 \<Longrightarrow> d = s \<or> n \<le> unat (d - s) \<Longrightarrow> copy_up m d s n = copied m d s n"
proof (induction n arbitrary: m d s)
  case 0
  show ?case by (simp add: copied_def)
next
  case (Suc n)
  let ?m = "m(d := m s)"
  have IH: "copy_up ?m (d + 1) (s + 1) n = copied ?m (d + 1) (s + 1) n"
    using Suc.prems by (intro Suc.IH) auto
  show ?case
  proof
    fix x
    have *: "x - (d + 1) = x - d - 1" by simp
    show "copy_up m d s (Suc n) x = copied m d s (Suc n) x"
    proof (cases "x = d")
      case True
      have "unat (x - (d + 1)) = 4294967295"
        using True by (simp add: * unsigned_minus_1_eq_mask mask_eq_exp_minus_1)
      with IH Suc.prems True show ?thesis by (auto simp: copied_def)
    next
      case False
      then have lt: "unat (x - (d + 1)) = unat (x - d) - 1" "unat (x - d) \<noteq> 0"
        unfolding * by (simp_all add: unat_minus_one_32 unat_eq_0)
      have src: "s + 1 + (x - (d + 1)) = s + (x - d)" by simp
      have "s + (x - d) \<noteq> d" if "unat (x - d) < Suc n"
      proof
        assume "s + (x - d) = d"
        then have "x - d = d - s" by (simp add: algebra_simps)
        with Suc.prems(2) that False show False by auto
      qed
      with IH lt src False show ?thesis by (auto simp: copied_def)
    qed
  qed
qed

lemma copy_down_eq:
  "n \<le> 4294967296 \<Longrightarrow> d = s \<or> n \<le> unat (s - d) \<Longrightarrow>
   copy_down m (d + of_nat n) (s + of_nat n) n = copied m d s n"
proof (induction n arbitrary: m)
  case 0
  show ?case by (simp add: copied_def)
next
  case (Suc n)
  let ?m = "m(d + of_nat n := m (s + of_nat n))"
  have n: "unat (of_nat n :: u32) = n" using Suc.prems(1) by simp
  have "copy_down m (d + of_nat (Suc n)) (s + of_nat (Suc n)) (Suc n) =
      copy_down ?m (d + of_nat n) (s + of_nat n) n" by simp
  also have "\<dots> = copied ?m d s n" using Suc.prems by (intro Suc.IH) auto
  also have "\<dots> = copied m d s (Suc n)"
  proof
    fix x
    show "copied ?m d s n x = copied m d s (Suc n) x"
    proof (cases "x = d + of_nat n")
      case True
      then show ?thesis using n by (simp add: copied_def)
    next
      case False
      have ne: "unat (x - d) \<noteq> n"
      proof
        assume "unat (x - d) = n"
        then have "x - d = of_nat n" by (rule of_nat_unat_eq)
        with False show False by (metis add.commute diff_add_cancel)
      qed
      have "s + (x - d) \<noteq> d + of_nat n" if lt: "unat (x - d) < n"
      proof
        assume "s + (x - d) = d + of_nat n"
        then have "s - d = of_nat n - (x - d)" by (simp add: algebra_simps)
        moreover have "x - d \<le> of_nat n" using lt n by (simp add: word_le_nat_alt)
        ultimately have "unat (s - d) = n - unat (x - d)" by (metis unat_sub n)
        with Suc.prems(2) lt show False by auto
      qed
      with ne False show ?thesis by (auto simp: copied_def)
    qed
  qed
  finally show ?case .
qed

lemma memmove_eq:
  assumes "unat dst + unat n \<le> 4294967296" and "unat src + unat n < 4294967296"
  shows "memmove m dst src n = copied m dst src (unat n)"
proof (cases "src < dst \<and> src + n > dst")
  case True
  have "unat (src - dst) = 4294967296 + unat src - unat dst"
    using True by (simp add: unat_sub_if' word_less_nat_alt word_le_nat_alt)
  then have "unat n \<le> unat (src - dst)" using assms(1) by linarith
  with True copy_down_eq [of "unat n" dst src m] show ?thesis
    by (simp add: memmove_def less_imp_le)
next
  case False
  have "dst = src \<or> unat n \<le> unat (dst - src)"
  proof (cases "src < dst")
    case True
    with False assms(2) have "unat src + unat n \<le> unat dst"
      by (simp add: word_less_nat_alt unat_add_small)
    moreover have "unat (dst - src) = unat dst - unat src"
      using True by (simp add: unat_sub)
    ultimately have "unat n \<le> unat (dst - src)" by linarith
    then show ?thesis ..
  next
    case nlt: False
    show ?thesis
    proof (cases "dst = src")
      case False
      with nlt have lt: "unat dst < unat src" by (metis linorder_cases word_less_nat_alt)
      then have "unat (dst - src) = 4294967296 + unat dst - unat src"
        by (simp add: unat_sub_if')
      with assms(2) show ?thesis by linarith
    qed simp
  qed
  with copy_up_eq [of "unat n" dst src m]
  have "copy_up m dst src (unat n) = copied m dst src (unat n)" by (simp add: less_imp_le)
  with False show ?thesis by (simp only: memmove_def if_False)
qed

section \<open>Strings\<close>

text \<open>
  A \<open>char *\<close> argument of the string functions is the function from offsets to the bytes it
  points at; a written array is returned. The counts \<open>n\<close> that the callers pass are array
  sizes, so they are naturals here; a count that is not positive makes every loop stop at
  once, as it does in C.
\<close>

type_synonym cstr = "nat \<Rightarrow> u8"

definition shift :: "cstr \<Rightarrow> cstr" where
  "shift s = (\<lambda>i. s (Suc i))"

primrec strncmp :: "cstr \<Rightarrow> cstr \<Rightarrow> nat \<Rightarrow> int" where
  "strncmp p q 0 = 0"
| "strncmp p q (Suc n) =
     (if p 0 \<noteq> 0 \<and> p 0 = q 0 then strncmp (shift p) (shift q) n
      else uint (p 0) - uint (q 0))"

text \<open>\<open>strncpy\<close>: the second loop pads with zeros from index \<open>i\<close> on, the first copies.\<close>

primrec strncpy_pad :: "cstr \<Rightarrow> nat \<Rightarrow> nat \<Rightarrow> cstr" where
  "strncpy_pad s i 0 = s"
| "strncpy_pad s i (Suc n) = strncpy_pad (s(i := 0)) (Suc i) n"

primrec strncpy_copy :: "cstr \<Rightarrow> cstr \<Rightarrow> nat \<Rightarrow> nat \<Rightarrow> cstr" where
  "strncpy_copy s t i 0 = s"
| "strncpy_copy s t i (Suc n) =
     (if t i \<noteq> 0 then strncpy_copy (s(i := t i)) t (Suc i) n
      else strncpy_pad (s(i := t i)) (Suc i) n)"

definition strncpy :: "cstr \<Rightarrow> cstr \<Rightarrow> nat \<Rightarrow> cstr" where
  "strncpy s t n = strncpy_copy s t 0 n"

primrec safestrcpy_copy :: "cstr \<Rightarrow> cstr \<Rightarrow> nat \<Rightarrow> nat \<Rightarrow> cstr" where
  "safestrcpy_copy s t i 0 = s(i := 0)"
| "safestrcpy_copy s t i (Suc n) =
     (if t i \<noteq> 0 then safestrcpy_copy (s(i := t i)) t (Suc i) n
      else s(i := t i, Suc i := 0))"

definition safestrcpy :: "cstr \<Rightarrow> cstr \<Rightarrow> nat \<Rightarrow> cstr" where
  "safestrcpy s t n = (if n = 0 then s else safestrcpy_copy s t 0 (n - 1))"

partial_function (option) strlen_from :: "cstr \<Rightarrow> nat \<Rightarrow> nat option" where
  "strlen_from s n = (if s n \<noteq> 0 then strlen_from s (Suc n) else Some n)"

definition strlen :: "cstr \<Rightarrow> nat option" where
  "strlen s = strlen_from s 0"

subsection \<open>What they compute\<close>

text \<open>The string held in an array of \<open>n\<close> bytes: up to the first NUL, or all of it.\<close>

definition cstr_of :: "nat \<Rightarrow> cstr \<Rightarrow> u8 list" where
  "cstr_of n s = takeWhile (\<lambda>c. c \<noteq> 0) (map s [0..<n])"

lemma cstr_of_0 [simp]: "cstr_of 0 s = []"
  by (simp add: cstr_of_def)

lemma cstr_of_Suc: "cstr_of (Suc n) s = (if s 0 = 0 then [] else s 0 # cstr_of n (shift s))"
proof -
  have "map s [0..<Suc n] = s 0 # map (shift s) [0..<n]"
    by (simp add: shift_def upt_conv_Cons map_Suc_upt [symmetric] del: upt_Suc)
  then show ?thesis by (simp add: cstr_of_def del: upt_Suc)
qed

lemma strncmp_eq_0_iff: "strncmp p q n = 0 \<longleftrightarrow> cstr_of n p = cstr_of n q"
proof (induction n arbitrary: p q)
  case (Suc n)
  then show ?case by (auto simp: cstr_of_Suc word_uint_eq_iff)
qed simp

lemma strncpy_pad_eq: "strncpy_pad s i n = (\<lambda>k. if i \<le> k \<and> k < i + n then 0 else s k)"
  by (induction n arbitrary: s i) (auto simp: fun_eq_iff)

lemma all_between_Suc:
  "i \<le> k \<Longrightarrow> (\<forall>j. i \<le> j \<and> j \<le> k \<longrightarrow> P j) \<longleftrightarrow> P i \<and> (\<forall>j. Suc i \<le> j \<and> j \<le> k \<longrightarrow> P j)"
  by (auto simp: Suc_le_eq) (metis le_neq_implies_less)

lemma strncpy_copy_eq:
  "strncpy_copy s t i n =
     (\<lambda>k. if i \<le> k \<and> k < i + n then (if \<forall>j. i \<le> j \<and> j \<le> k \<longrightarrow> t j \<noteq> 0 then t k else 0) else s k)"
proof (induction n arbitrary: s i)
  case (Suc n)
  show ?case
  proof
    fix k
    show "strncpy_copy s t i (Suc n) k =
      (if i \<le> k \<and> k < i + Suc n then (if \<forall>j. i \<le> j \<and> j \<le> k \<longrightarrow> t j \<noteq> 0 then t k else 0) else s k)"
    proof (cases "i < k")
      case True
      then show ?thesis
        by (simp add: Suc strncpy_pad_eq Suc_le_eq all_between_Suc [of i k] del: One_nat_def)
    next
      case False
      then show ?thesis
        by (cases "k = i") (auto simp: Suc strncpy_pad_eq)
    qed
  qed
qed (auto simp: fun_eq_iff)

lemma takeWhile_map_upt_cong:
  "(\<And>k. k < n \<Longrightarrow> (\<forall>j\<le>k. t j \<noteq> 0) \<Longrightarrow> s k = t k) \<Longrightarrow>
   (\<And>k. k < n \<Longrightarrow> t k = 0 \<Longrightarrow> (\<forall>j<k. t j \<noteq> 0) \<Longrightarrow> s k = 0) \<Longrightarrow> cstr_of n s = cstr_of n t"
proof (induction n arbitrary: s t)
  case (Suc n)
  show ?case
  proof (cases "t 0 = 0")
    case True
    with Suc.prems(2) [of 0] show ?thesis by (simp add: cstr_of_Suc)
  next
    case False
    then have s0: "s 0 = t 0" using Suc.prems(1) [of 0] by simp
    have "cstr_of n (shift s) = cstr_of n (shift t)"
    proof (rule Suc.IH)
      fix k assume k: "k < n" and nz: "\<forall>j\<le>k. shift t j \<noteq> 0"
      have "t j \<noteq> 0" if "j \<le> Suc k" for j
        using that nz False by (cases j) (auto simp: shift_def)
      with k Suc.prems(1) [of "Suc k"] show "shift s k = shift t k" by (simp add: shift_def)
    next
      fix k assume k: "k < n" "shift t k = 0" and nz: "\<forall>j<k. shift t j \<noteq> 0"
      have "t j \<noteq> 0" if "j < Suc k" for j
        using that nz False by (cases j) (auto simp: shift_def)
      with k Suc.prems(2) [of "Suc k"] show "shift s k = 0" by (simp add: shift_def)
    qed
    with s0 False show ?thesis by (simp add: cstr_of_Suc)
  qed
qed simp

lemma strncpy_cstr_of: "cstr_of n (strncpy s t n) = cstr_of n t"
  by (rule takeWhile_map_upt_cong) (auto simp: strncpy_def strncpy_copy_eq)

lemma strlen_from_eq:
  "i \<le> k \<Longrightarrow> s k = 0 \<Longrightarrow> \<forall>j. i \<le> j \<and> j < k \<longrightarrow> s j \<noteq> 0 \<Longrightarrow> strlen_from s i = Some k"
proof (induction "k - i" arbitrary: i)
  case 0
  then have "i = k" by simp
  with 0 show ?case by (simp add: strlen_from.simps)
next
  case (Suc d)
  then have "strlen_from s (Suc i) = Some k" by auto
  moreover from Suc have "s i \<noteq> 0" by auto
  ultimately show ?case by (simp add: strlen_from.simps [of s i])
qed

lemma strlen_eq: "s k = 0 \<Longrightarrow> \<forall>j<k. s j \<noteq> 0 \<Longrightarrow> strlen s = Some k"
  by (simp add: strlen_def strlen_from_eq)

lemma safestrcpy_copy_below: "k < i \<Longrightarrow> safestrcpy_copy s t i n k = s k"
  by (induction n arbitrary: s i) auto

lemma safestrcpy_copy_same:
  "i \<le> k \<Longrightarrow> k < i + n \<Longrightarrow> \<forall>j. i \<le> j \<and> j < k \<longrightarrow> t j \<noteq> 0 \<Longrightarrow> safestrcpy_copy s t i n k = t k"
proof (induction n arbitrary: s i)
  case (Suc n)
  then show ?case
    by (cases "k = i"; cases "t i = 0") (simp_all add: safestrcpy_copy_below Suc_le_eq)
qed simp

lemma safestrcpy_copy_end:
  "\<forall>j. i \<le> j \<and> j < i + n \<longrightarrow> t j \<noteq> 0 \<Longrightarrow> safestrcpy_copy s t i n (i + n) = 0"
proof (induction n arbitrary: s i)
  case (Suc n)
  from Suc.IH [of "Suc i"] Suc.prems show ?case by simp
qed simp

lemma safestrcpy_cstr_of:
  assumes "0 < n"
  shows "cstr_of n (safestrcpy s t n) = cstr_of (n - 1) t"
proof -
  obtain m where n: "n = Suc m" using assms by (cases n) auto
  let ?t = "\<lambda>k. if k = m then 0 else t k"
  have "cstr_of n (safestrcpy s t n) = cstr_of n ?t"
  proof (rule takeWhile_map_upt_cong)
    fix k assume k: "k < n" "\<forall>j\<le>k. ?t j \<noteq> 0"
    then have "k < m" unfolding n by (metis less_SucE order_refl)
    with k safestrcpy_copy_same [of 0 k m t s] show "safestrcpy s t n k = ?t k"
      by (auto simp: safestrcpy_def n)
  next
    fix k assume k: "k < n" "?t k = 0" and nz: "\<forall>j<k. ?t j \<noteq> 0"
    show "safestrcpy s t n k = 0"
    proof (cases "k = m")
      case True
      with nz safestrcpy_copy_end [of 0 m t s] show ?thesis by (auto simp: safestrcpy_def n)
    next
      case False
      with k nz safestrcpy_copy_same [of 0 k m t s] show ?thesis
        by (auto simp: safestrcpy_def n split: if_splits)
    qed
  qed
  also have "\<dots> = cstr_of m t"
  proof -
    have "map ?t [0..<m] = map t [0..<m]" by (rule map_cong) auto
    then have "map ?t [0..<n] = map t [0..<m] @ [0]" by (simp add: n)
    then show ?thesis by (simp add: cstr_of_def takeWhile_tail)
  qed
  finally show ?thesis by (simp add: n)
qed

end
