(* ===== verification/Bio.thy ===== *)
theory Bio
  imports Locks Strings
begin

text \<open>
  The buffer cache of \<^verbatim>\<open>bio.c\<close> over the disk of \<^verbatim>\<open>memide.c\<close>. Buffers are the indices of
  \<^verbatim>\<open>bcache.buf\<close>; the list head is one more index, so that the doubly linked ring is an array of
  indices, with the pointer assignments of the code. Under the cache invariant the ring is a list
  of the buffers, most recently used first, and every block has one view: the contents of its
  buffer, or of the disk. The operations run as one process sees them: a buffer that is locked puts
  the caller to sleep, and the spin lock of the cache makes each of its critical sections one step.
\<close>

unbundle bit_operations_syntax

section \<open>State\<close>

text \<open>A block: 512 bytes, addressed by a 9-bit index.\<close>

type_synonym block = "9 word \<Rightarrow> u8"

definition BSIZE :: nat where "BSIZE = 512"
definition NBUF :: nat where "NBUF = 30"

record buf =
  b_valid :: bool
  b_dirty :: bool
  b_dev :: u32
  b_blockno :: u32
  b_lock :: sleeplock
  b_refcnt :: u32
  b_prev :: nat
  b_next :: nat
  b_data :: block

text \<open>
  \<open>my_pid\<close> is \<^verbatim>\<open>myproc()->pid\<close>. The blocks written so far, newest first, are kept as a history
  variable; a crash of the machine loses the rest of the state, but not these writes.
\<close>

record bio =
  my_pid :: int
  disksize :: u32
  memdisk :: "u32 \<Rightarrow> block"
  disk_writes :: "(u32 \<times> block) list"
  bufs :: "buf list"

definition upd_buf :: "nat \<Rightarrow> (buf \<Rightarrow> buf) \<Rightarrow> 'a bio_scheme \<Rightarrow> 'a bio_scheme" where
  "upd_buf b f s = s\<lparr>bufs := (bufs s)[b := f (bufs s ! b)]\<rparr>"

section \<open>The disk\<close>

text \<open>\<open>ideinit\<close> of \<^verbatim>\<open>memide.c\<close>: the image linked into the kernel is the disk.\<close>

definition ideinit :: "(u32 \<Rightarrow> block) \<Rightarrow> u32 \<Rightarrow> 'a bio_scheme \<Rightarrow> 'a bio_scheme" where
  "ideinit fs_img fs_img_size s = s\<lparr>memdisk := fs_img, disksize := fs_img_size div 512\<rparr>"

definition iderw :: "nat \<Rightarrow> 'a bio_scheme \<Rightarrow> 'a bio_scheme outcome" where
  "iderw b s =
     (let x = bufs s ! b in
      if \<not> holdingsleep (my_pid s) (b_lock x) then Panic ''iderw: buf not locked''
      else if b_valid x \<and> \<not> b_dirty x then Panic ''iderw: nothing to do''
      else if b_dev x \<noteq> 1 then Panic ''iderw: request not for disk 1''
      else if \<not> b_blockno x < disksize s then Panic ''iderw: block out of range''
      else if b_dirty x
      then Ret (upd_buf b (\<lambda>x. x\<lparr>b_dirty := False, b_valid := True\<rparr>)
             (s\<lparr>memdisk := (memdisk s)(b_blockno x := b_data x), disk_writes := (b_blockno x, b_data x) # disk_writes s\<rparr>))
      else Ret (upd_buf b (\<lambda>x. x\<lparr>b_data := memdisk s (b_blockno x), b_valid := True\<rparr>) s))"

section \<open>The cache\<close>

text \<open>\<open>bcache.head\<close> is buffer \<open>NBUF\<close>.\<close>

definition b_head :: nat where "b_head = NBUF"

definition binit_turn :: "nat \<Rightarrow> 'a bio_scheme \<Rightarrow> 'a bio_scheme" where
  "binit_turn b s =
     (let s = upd_buf b (\<lambda>x. x\<lparr>b_next := b_next (bufs s ! b_head), b_prev := b_head, b_lock := initsleeplock\<rparr>) s;
          s = upd_buf (b_next (bufs s ! b_head)) (\<lambda>x. x\<lparr>b_prev := b\<rparr>) s
      in upd_buf b_head (\<lambda>x. x\<lparr>b_next := b\<rparr>) s)"

definition binit :: "'a bio_scheme \<Rightarrow> 'a bio_scheme" where
  "binit s = fold binit_turn [0..<NBUF] (upd_buf b_head (\<lambda>x. x\<lparr>b_prev := b_head, b_next := b_head\<rparr>) s)"

text \<open>
  A walk along the ring to the first buffer that satisfies \<open>P\<close>. There are \<open>NBUF + 1\<close> places to be at,
  and a walk that has not ended after that many moves goes round a cycle for ever.
\<close>

fun bscan :: "nat \<Rightarrow> (buf \<Rightarrow> nat) \<Rightarrow> (buf \<Rightarrow> bool) \<Rightarrow> buf list \<Rightarrow> nat \<Rightarrow> nat option outcome" where
  "bscan 0 link P bs b = Hang"
| "bscan (Suc n) link P bs b =
     (if b = b_head then Ret None
      else if P (bs ! b) then Ret (Some b)
      else bscan n link P bs (link (bs ! b)))"

definition block_sleep :: "nat \<Rightarrow> 'a bio_scheme \<Rightarrow> (nat \<times> 'a bio_scheme) outcome" where
  "block_sleep b s =
     bnd (acquiresleep (my_pid s) (b_lock (bufs s ! b))) (\<lambda>lk. Ret (b, upd_buf b (\<lambda>x. x\<lparr>b_lock := lk\<rparr>) s))"

definition bget :: "u32 \<Rightarrow> u32 \<Rightarrow> 'a bio_scheme \<Rightarrow> (nat \<times> 'a bio_scheme) outcome" where
  "bget dev blockno s =
     bnd (bscan (NBUF + 1) b_next (\<lambda>x. b_dev x = dev \<and> b_blockno x = blockno) (bufs s) (b_next (bufs s ! b_head)))
       (\<lambda>r. case r of
          Some b \<Rightarrow> block_sleep b (upd_buf b (\<lambda>x. x\<lparr>b_refcnt := b_refcnt x + 1\<rparr>) s)
        | None \<Rightarrow>
            bnd (bscan (NBUF + 1) b_prev (\<lambda>x. b_refcnt x = 0 \<and> \<not> b_dirty x) (bufs s) (b_prev (bufs s ! b_head)))
              (\<lambda>r. case r of
                 Some b \<Rightarrow> block_sleep b (upd_buf b (\<lambda>x. x\<lparr>b_dev := dev, b_blockno := blockno,
                   b_valid := False, b_dirty := False, b_refcnt := 1\<rparr>) s)
               | None \<Rightarrow> Panic ''bget: no buffers''))"

definition bread :: "u32 \<Rightarrow> u32 \<Rightarrow> 'a bio_scheme \<Rightarrow> (nat \<times> 'a bio_scheme) outcome" where
  "bread dev blockno s =
     bnd (bget dev blockno s) (\<lambda>(b, s).
     if \<not> b_valid (bufs s ! b) then bnd (iderw b s) (\<lambda>s. Ret (b, s)) else Ret (b, s))"

definition bwrite :: "nat \<Rightarrow> 'a bio_scheme \<Rightarrow> 'a bio_scheme outcome" where
  "bwrite b s =
     (if \<not> holdingsleep (my_pid s) (b_lock (bufs s ! b)) then Panic ''bwrite''
      else iderw b (upd_buf b (\<lambda>x. x\<lparr>b_dirty := True\<rparr>) s))"

text \<open>The pointer assignments that move a buffer behind the head.\<close>

definition to_front :: "nat \<Rightarrow> 'a bio_scheme \<Rightarrow> 'a bio_scheme" where
  "to_front b s =
     (let s = upd_buf (b_next (bufs s ! b)) (\<lambda>x. x\<lparr>b_prev := b_prev (bufs s ! b)\<rparr>) s;
          s = upd_buf (b_prev (bufs s ! b)) (\<lambda>x. x\<lparr>b_next := b_next (bufs s ! b)\<rparr>) s;
          s = upd_buf b (\<lambda>x. x\<lparr>b_next := b_next (bufs s ! b_head)\<rparr>) s;
          s = upd_buf b (\<lambda>x. x\<lparr>b_prev := b_head\<rparr>) s;
          s = upd_buf (b_next (bufs s ! b_head)) (\<lambda>x. x\<lparr>b_prev := b\<rparr>) s
      in upd_buf b_head (\<lambda>x. x\<lparr>b_next := b\<rparr>) s)"

definition brelse :: "nat \<Rightarrow> 'a bio_scheme \<Rightarrow> 'a bio_scheme outcome" where
  "brelse b s =
     (if \<not> holdingsleep (my_pid s) (b_lock (bufs s ! b)) then Panic ''brelse''
      else
        let s = upd_buf b (\<lambda>x. x\<lparr>b_lock := releasesleep (b_lock x)\<rparr>) s;
            s = upd_buf b (\<lambda>x. x\<lparr>b_refcnt := b_refcnt x - 1\<rparr>) s
        in if b_refcnt (bufs s ! b) = 0 then Ret (to_front b s) else Ret s)"

section \<open>The ring as a list\<close>

fun linked :: "(nat \<Rightarrow> nat) \<Rightarrow> (nat \<Rightarrow> nat) \<Rightarrow> nat list \<Rightarrow> bool" where
  "linked nx pv (a # c # xs) \<longleftrightarrow> nx a = c \<and> pv c = a \<and> linked nx pv (c # xs)"
| "linked nx pv xs \<longleftrightarrow> True"

lemma find_SomeD: "find P xs = Some x \<Longrightarrow> x \<in> set xs \<and> P x"
  by (auto simp: find_Some_iff)

lemma linked_append: "linked nx pv (xs @ a # ys) \<longleftrightarrow> linked nx pv (xs @ [a]) \<and> linked nx pv (a # ys)"
proof (induction xs)
  case (Cons x xs)
  then show ?case by (cases xs) auto
qed simp

lemma linked_join:
  "xs \<noteq> [] \<Longrightarrow> ys \<noteq> [] \<Longrightarrow>
   linked nx pv (xs @ ys) \<longleftrightarrow> linked nx pv xs \<and> nx (last xs) = hd ys \<and> pv (hd ys) = last xs \<and> linked nx pv ys"
proof (induction xs rule: induct_list012)
  case (2 x)
  then show ?case by (cases ys) auto
qed auto

lemma linked_frame:
  "linked nx pv xs \<Longrightarrow> (\<And>i. i \<in> set (butlast xs) \<Longrightarrow> nx' i = nx i) \<Longrightarrow> (\<And>i. i \<in> set (tl xs) \<Longrightarrow> pv' i = pv i) \<Longrightarrow>
   linked nx' pv' xs"
  by (induction nx pv xs rule: linked.induct) auto

text \<open>The pointer assignments of \<open>brelse\<close> take a node out of the ring and put it behind the head.\<close>

lemma linked_unlink:
  assumes l: "linked nx pv (h # us @ b # vs @ [h])" and d: "distinct (h # us @ b # vs)"
  shows "linked (nx(pv b := nx b)) (pv(nx b := pv b)) (h # us @ vs @ [h])"
proof -
  let ?y = "h # us" and ?z = "vs @ [h]"
  have l': "linked nx pv (?y @ [b] @ ?z)" using l by simp
  have A: "linked nx pv ?y" "nx (last ?y) = b" "pv b = last ?y" "linked nx pv ?z" "nx b = hd ?z" "pv (hd ?z) = b"
    using l' linked_join [of ?y "[b] @ ?z" nx pv] linked_join [of "[b]" ?z nx pv] by auto
  have "linked (nx(pv b := nx b)) (pv(nx b := pv b)) (?y @ ?z)"
  proof (subst linked_join, simp, simp, intro conjI)
    have "last ?y \<notin> set (butlast ?y)" "last ?y \<in> set ?y"
      using d by (cases us rule: rev_cases; auto)+
    moreover have "hd ?z \<notin> set us" using d by (cases vs) auto
    ultimately show "linked (nx(pv b := nx b)) (pv(nx b := pv b)) ?y"
      unfolding A by (intro linked_frame [OF A(1)]) auto
    have "hd ?z \<notin> set (tl ?z)" using d by (cases vs) auto
    moreover have "last ?y \<notin> set vs" using d \<open>last ?y \<in> set ?y\<close> by auto
    ultimately show "linked (nx(pv b := nx b)) (pv(nx b := pv b)) ?z"
      unfolding A by (intro linked_frame [OF A(4)]) auto
  qed (simp_all add: A)
  then show ?thesis by simp
qed

lemma linked_push:
  assumes l: "linked nx pv (h # xs @ [h])" and d: "distinct (h # b # xs)"
  shows "linked (nx(b := nx h, h := b)) (pv(b := h, nx h := b)) (h # b # xs @ [h])"
proof -
  have f: "nx h = hd (xs @ [h])" using l by (cases xs) auto
  have "linked nx pv (xs @ [h])" using l by (cases xs) auto
  then have "linked (nx(b := nx h, h := b)) (pv(b := h, nx h := b)) (xs @ [h])"
    using d unfolding f by (rule_tac linked_frame) (cases xs; auto)+
  moreover have "hd (xs @ [h]) \<noteq> b" using d by (cases xs) auto
  ultimately show ?thesis using d unfolding f by (cases xs) auto
qed

abbreviation nexts :: "buf list \<Rightarrow> nat \<Rightarrow> nat" where "nexts bs i \<equiv> b_next (bs ! i)"
abbreviation prevs :: "buf list \<Rightarrow> nat \<Rightarrow> nat" where "prevs bs i \<equiv> b_prev (bs ! i)"

text \<open>\<open>xs\<close> has the buffers from the most to the least recently used.\<close>

definition ring :: "buf list \<Rightarrow> nat list \<Rightarrow> bool" where
  "ring bs xs \<longleftrightarrow> length bs = NBUF + 1 \<and> distinct xs \<and> set xs = {..<NBUF} \<and>
     linked (nexts bs) (prevs bs) (b_head # xs @ [b_head])"

lemma bscan_next:
  "linked (nexts bs) pv (xs @ [b_head]) \<Longrightarrow> b_head \<notin> set xs \<Longrightarrow> length xs < n \<Longrightarrow>
   bscan n b_next P bs (hd (xs @ [b_head])) = Ret (find (\<lambda>i. P (bs ! i)) xs)"
proof (induction xs arbitrary: n)
  case Nil
  then show ?case by (cases n) auto
next
  case (Cons x xs)
  from Cons.prems obtain m where n: "n = Suc m" by (cases n) auto
  have l: "linked (nexts bs) pv (xs @ [b_head])" "nexts bs x = hd (xs @ [b_head])"
    using Cons.prems(1) by (cases xs; auto)+
  then show ?case using Cons.IH [OF l(1), of m] Cons.prems n by (auto simp: b_head_def)
qed

lemma bscan_prev:
  "linked nx (prevs bs) (b_head # xs) \<Longrightarrow> b_head \<notin> set xs \<Longrightarrow> length xs < n \<Longrightarrow>
   bscan n b_prev P bs (last (b_head # xs)) = Ret (find (\<lambda>i. P (bs ! i)) (rev xs))"
proof (induction xs arbitrary: n rule: rev_induct)
  case Nil
  then show ?case by (cases n) auto
next
  case (snoc x xs)
  from snoc.prems obtain m where n: "n = Suc m" by (cases n) auto
  have l: "linked nx (prevs bs) (b_head # xs)" "prevs bs x = last (b_head # xs)"
    using snoc.prems(1) linked_join [of "b_head # xs" "[x]" nx "prevs bs"] by auto
  show ?case using snoc.IH [OF l(1), of m] snoc.prems n l(2) by (auto simp: b_head_def)
qed

declare bscan.simps [simp del]

lemma ring_lengths: "ring bs xs \<Longrightarrow> length xs = NBUF \<and> b_head \<notin> set xs \<and> length bs = NBUF + 1"
proof -
  assume r: "ring bs xs"
  then have "length xs = card {..<NBUF}" by (metis distinct_card ring_def)
  with r show ?thesis by (auto simp: ring_def b_head_def)
qed

lemma ring_first:
  assumes r: "ring bs xs"
  shows "bscan (NBUF + 1) b_next P bs (nexts bs b_head) = Ret (find (\<lambda>i. P (bs ! i)) xs)"
proof -
  have l: "linked (nexts bs) (prevs bs) (xs @ [b_head])" "nexts bs b_head = hd (xs @ [b_head])"
    using r by (cases xs; auto simp: ring_def)+
  show ?thesis unfolding l(2) by (rule bscan_next [OF l(1)]) (use ring_lengths [OF r] in auto)
qed

lemma ring_last:
  assumes r: "ring bs xs"
  shows "bscan (NBUF + 1) b_prev P bs (prevs bs b_head) = Ret (find (\<lambda>i. P (bs ! i)) (rev xs))"
proof -
  have "linked (nexts bs) (prevs bs) ((b_head # xs) @ [b_head])" using r by (simp add: ring_def)
  then have l: "linked (nexts bs) (prevs bs) (b_head # xs)" "prevs bs b_head = last (b_head # xs)"
    using linked_join [of "b_head # xs" "[b_head]" "nexts bs" "prevs bs"] by auto
  show ?thesis unfolding l(2) by (rule bscan_prev [OF l(1)]) (use ring_lengths [OF r] in auto)
qed

text \<open>Updates of other fields leave the ring alone.\<close>

lemma ring_other:
  assumes "ring bs xs" "length bs' = length bs" "\<And>i. i < length bs \<Longrightarrow> nexts bs' i = nexts bs i \<and> prevs bs' i = prevs bs i"
  shows "ring bs' xs"
proof -
  have x: "length bs = NBUF + 1" "set xs = {..<NBUF}" using assms(1) unfolding ring_def by blast+
  have i: "i < length bs" if "i \<in> set (b_head # xs)" for i
    using that unfolding list.set x b_head_def by auto
  have "linked (nexts bs') (prevs bs') (b_head # xs @ [b_head])"
  proof (rule linked_frame)
    show "linked (nexts bs) (prevs bs) (b_head # xs @ [b_head])" using assms(1) by (simp add: ring_def)
    fix i
    assume "i \<in> set (butlast (b_head # xs @ [b_head]))"
    then have "i < length bs" using i by (simp add: butlast_append)
    with assms(3) show "nexts bs' i = nexts bs i" by blast
  next
    fix i
    assume "i \<in> set (tl (b_head # xs @ [b_head]))"
    then have "i < length bs" using i by auto
    with assms(3) show "prevs bs' i = prevs bs i" by blast
  qed
  with assms(1,2) show ?thesis unfolding ring_def by metis
qed

section \<open>The cache invariant\<close>

text \<open>A buffer but for its place in the ring.\<close>

definition core :: "buf \<Rightarrow> buf" where
  "core x = x\<lparr>b_next := 0, b_prev := 0\<rparr>"

lemma core_eq:
  "core x = core y \<longleftrightarrow> b_valid x = b_valid y \<and> b_dirty x = b_dirty y \<and> b_dev x = b_dev y \<and> b_blockno x = b_blockno y \<and>
     b_lock x = b_lock y \<and> b_refcnt x = b_refcnt y \<and> b_data x = b_data y"
  by (cases x; cases y) (auto simp: core_def)

definition binds :: "'a bio_scheme \<Rightarrow> nat \<Rightarrow> u32 \<Rightarrow> bool" where
  "binds s i bn \<longleftrightarrow> i < NBUF \<and> b_dev (bufs s ! i) = 1 \<and> b_blockno (bufs s ! i) = bn"

abbreviation locked :: "'a bio_scheme \<Rightarrow> nat \<Rightarrow> bool" where
  "locked s i \<equiv> sl_locked (b_lock (bufs s ! i))"

text \<open>
  No process but this one holds a buffer, and it holds each once. A buffer nobody holds agrees with
  the disk unless it is marked dirty.
\<close>

definition buf_ok :: "'a bio_scheme \<Rightarrow> nat \<Rightarrow> bool" where
  "buf_ok s i \<longleftrightarrow>
     b_refcnt (bufs s ! i) = (if locked s i then 1 else 0) \<and>
     (locked s i \<longrightarrow> sl_pid (b_lock (bufs s ! i)) = my_pid s) \<and>
     (b_dirty (bufs s ! i) \<longrightarrow> b_valid (bufs s ! i)) \<and>
     (b_valid (bufs s ! i) \<longrightarrow> b_dev (bufs s ! i) = 1 \<and> b_blockno (bufs s ! i) < disksize s) \<and>
     (\<not> locked s i \<and> b_valid (bufs s ! i) \<and> \<not> b_dirty (bufs s ! i) \<longrightarrow>
        b_data (bufs s ! i) = memdisk s (b_blockno (bufs s ! i)))"

definition cache_ok :: "'a bio_scheme \<Rightarrow> bool" where
  "cache_ok s \<longleftrightarrow> (\<exists>xs. ring (bufs s) xs) \<and> (\<forall>i<NBUF. buf_ok s i) \<and>
     (\<forall>i j bn. binds s i bn \<longrightarrow> binds s j bn \<longrightarrow> i = j)"

text \<open>The contents of a block as the kernel sees it.\<close>

definition view :: "'a bio_scheme \<Rightarrow> u32 \<Rightarrow> block" where
  "view s bn =
     (case find (\<lambda>i. b_dev (bufs s ! i) = 1 \<and> b_blockno (bufs s ! i) = bn \<and> b_valid (bufs s ! i)) [0..<NBUF] of
        Some i \<Rightarrow> b_data (bufs s ! i)
      | None \<Rightarrow> memdisk s bn)"

text \<open>The blocks kept in the cache by the dirty mark.\<close>

definition pinned :: "'a bio_scheme \<Rightarrow> u32 set" where
  "pinned s = {bn. \<exists>i. binds s i bn \<and> b_dirty (bufs s ! i)}"

definition busy :: "'a bio_scheme \<Rightarrow> nat set" where
  "busy s = {i. i < NBUF \<and> (locked s i \<or> b_dirty (bufs s ! i))}"

definition held :: "'a bio_scheme \<Rightarrow> nat set" where
  "held s = {i. i < NBUF \<and> locked s i}"

lemma cache_okD:
  assumes "cache_ok s"
  shows "\<exists>xs. ring (bufs s) xs" "i < NBUF \<Longrightarrow> buf_ok s i" "binds s i bn \<Longrightarrow> binds s j bn \<Longrightarrow> i = j"
  using assms unfolding cache_ok_def by blast+

lemma cache_ok_length: "cache_ok s \<Longrightarrow> length (bufs s) = NBUF + 1"
  using cache_okD(1) ring_lengths by blast

lemma view_cached:
  assumes "cache_ok s" "binds s i bn" "b_valid (bufs s ! i)"
  shows "view s bn = b_data (bufs s ! i)"
proof -
  let ?P = "\<lambda>i. b_dev (bufs s ! i) = 1 \<and> b_blockno (bufs s ! i) = bn \<and> b_valid (bufs s ! i)"
  have "find ?P [0..<NBUF] \<noteq> None" using assms(2,3) by (auto simp: find_None_iff binds_def)
  then obtain j where j: "find ?P [0..<NBUF] = Some j" by blast
  then have "?P j" "j < NBUF" by (auto simp: find_Some_iff)
  then have "binds s j bn" by (simp add: binds_def)
  with assms have "j = i" using cache_okD(3) by blast
  then show ?thesis using j by (simp add: view_def)
qed

lemma view_uncached: "(\<And>i. binds s i bn \<Longrightarrow> \<not> b_valid (bufs s ! i)) \<Longrightarrow> view s bn = memdisk s bn"
proof -
  assume n: "\<And>i. binds s i bn \<Longrightarrow> \<not> b_valid (bufs s ! i)"
  have "find (\<lambda>i. b_dev (bufs s ! i) = 1 \<and> b_blockno (bufs s ! i) = bn \<and> b_valid (bufs s ! i)) [0..<NBUF] = None"
    using n by (auto simp: find_None_iff binds_def)
  then show ?thesis by (simp add: view_def)
qed

text \<open>What the invariant and the view depend on.\<close>

lemma same_cores:
  assumes "\<And>i. i < NBUF \<Longrightarrow> core (bufs s' ! i) = core (bufs s ! i)"
  shows "binds s' i bn = binds s i bn" "pinned s' = pinned s" "busy s' = busy s" "held s' = held s"
    "memdisk s' = memdisk s \<Longrightarrow> view s' = view s"
    "memdisk s' = memdisk s \<Longrightarrow> my_pid s' = my_pid s \<Longrightarrow> disksize s' = disksize s \<Longrightarrow> i < NBUF \<Longrightarrow> buf_ok s' i = buf_ok s i"
proof -
  have c: "b_valid (bufs s' ! i) = b_valid (bufs s ! i) \<and> b_dirty (bufs s' ! i) = b_dirty (bufs s ! i) \<and>
      b_dev (bufs s' ! i) = b_dev (bufs s ! i) \<and> b_blockno (bufs s' ! i) = b_blockno (bufs s ! i) \<and>
      b_lock (bufs s' ! i) = b_lock (bufs s ! i) \<and> b_refcnt (bufs s' ! i) = b_refcnt (bufs s ! i) \<and>
      b_data (bufs s' ! i) = b_data (bufs s ! i)" if "i < NBUF" for i
    using assms [OF that] by (simp add: core_eq)
  show b: "binds s' i bn = binds s i bn" for i bn using c by (auto simp: binds_def)
  show "pinned s' = pinned s" using b c by (auto simp: pinned_def binds_def)
  show "busy s' = busy s" "held s' = held s" using c by (auto simp: busy_def held_def)
  show "buf_ok s' i = buf_ok s i"
    if "memdisk s' = memdisk s" "my_pid s' = my_pid s" "disksize s' = disksize s" "i < NBUF"
    using c [OF that(4)] that by (simp add: buf_ok_def)
  show "view s' = view s" if "memdisk s' = memdisk s"
  proof
    fix bn
    let ?P = "\<lambda>s i. b_dev (bufs s ! i) = 1 \<and> b_blockno (bufs s ! i) = bn \<and> b_valid (bufs s ! i)"
    have f: "find (?P s') [0..<NBUF] = find (?P s) [0..<NBUF]"
      using c by (intro find_cong) auto
    show "view s' bn = view s bn"
    proof (cases "find (?P s) [0..<NBUF]")
      case (Some i)
      then have "i < NBUF" by (auto simp: find_Some_iff)
      then show ?thesis using Some f c by (simp add: view_def)
    qed (use f that in \<open>simp add: view_def\<close>)
  qed
qed

lemma bufs_upd_buf [simp]:
  "bufs (upd_buf b f s) = (bufs s)[b := f (bufs s ! b)]" "my_pid (upd_buf b f s) = my_pid s"
  "disksize (upd_buf b f s) = disksize s" "memdisk (upd_buf b f s) = memdisk s"
  "disk_writes (upd_buf b f s) = disk_writes s" "bio.more (upd_buf b f s) = bio.more s"
  by (simp_all add: upd_buf_def)

lemma only_bufs_trans:
  "t = s\<lparr>bufs := bufs t\<rparr> \<Longrightarrow> u = t\<lparr>bufs := bufs u\<rparr> \<Longrightarrow> u = s\<lparr>bufs := bufs u\<rparr>"
  by (cases s; cases t; cases u) simp

text \<open>A state that differs in one buffer only, and there not in its links.\<close>

lemma one_buf:
  assumes ok: "cache_ok s" and b: "b < NBUF"
    and s': "bufs s' = (bufs s)[b := x]" "my_pid s' = my_pid s" "disksize s' = disksize s"
    and d: "\<And>bn. bn \<noteq> b_blockno x \<Longrightarrow> memdisk s' bn = memdisk s bn" "memdisk s' \<noteq> memdisk s \<Longrightarrow> binds s b (b_blockno x)"
    and l: "b_next x = b_next (bufs s ! b)" "b_prev x = b_prev (bufs s ! b)"
    and x: "buf_ok s' b"
    and u: "b_dev x = 1 \<Longrightarrow> (\<And>j. binds s j (b_blockno x) \<Longrightarrow> j = b)"
  shows "cache_ok s'"
proof -
  have len: "length (bufs s) = NBUF + 1" by (rule cache_ok_length [OF ok])
  have n: "bufs s' ! j = (if j = b then x else bufs s ! j)" for j using s'(1) b len by (simp add: nth_list_update)
  obtain xs where "ring (bufs s) xs" using cache_okD(1) [OF ok] by blast
  then have "ring (bufs s') xs" by (rule ring_other) (use n l s'(1) in auto)
  moreover have "buf_ok s' i" if i: "i < NBUF" for i
  proof (cases "i = b")
    case False
    have o: "buf_ok s i" by (rule cache_okD(2) [OF ok i])
    have "memdisk s' (b_blockno (bufs s ! i)) = memdisk s (b_blockno (bufs s ! i))" if "b_valid (bufs s ! i)"
    proof (cases "b_blockno (bufs s ! i) = b_blockno x \<and> memdisk s' \<noteq> memdisk s")
      case True
      then have "binds s i (b_blockno x)" using o that i by (simp add: buf_ok_def binds_def)
      with True d(2) False have False using cache_okD(3) [OF ok] by blast
      then show ?thesis ..
    qed (use d(1) in auto)
    then show ?thesis using o False by (auto simp: buf_ok_def n s')
  qed (use x in simp)
  moreover have "i = j" if "binds s' i bn" "binds s' j bn" for i j bn
  proof -
    have t: "binds s' k bn \<Longrightarrow> k \<noteq> b \<Longrightarrow> binds s k bn" for k by (simp add: binds_def n)
    have "binds s' b bn \<Longrightarrow> b_dev x = 1 \<and> bn = b_blockno x" by (simp add: binds_def n)
    then show ?thesis using that t u cache_okD(3) [OF ok] by metis
  qed
  ultimately show ?thesis unfolding cache_ok_def by blast
qed

text \<open>The view of such a state.\<close>

lemma one_buf_view:
  assumes ok: "cache_ok s" "cache_ok s'" and b: "b < NBUF"
    and s': "bufs s' = (bufs s)[b := x]"
    and d: "\<And>bn. bn \<noteq> b_blockno x \<Longrightarrow> memdisk s' bn = memdisk s bn"
    and x: "b_dev x = 1" "b_valid x"
    and old: "b_valid (bufs s ! b) \<Longrightarrow> b_blockno (bufs s ! b) \<noteq> b_blockno x \<Longrightarrow>
      b_data (bufs s ! b) = memdisk s (b_blockno (bufs s ! b))"
  shows "view s' = (view s)(b_blockno x := b_data x)"
proof
  fix bn
  have len: "length (bufs s) = NBUF + 1" by (rule cache_ok_length [OF ok(1)])
  have n: "bufs s' ! j = (if j = b then x else bufs s ! j)" for j using s' b len by (simp add: nth_list_update)
  show "view s' bn = ((view s)(b_blockno x := b_data x)) bn"
  proof (cases "bn = b_blockno x")
    case True
    then have "binds s' b bn" using b x by (simp add: binds_def n)
    then show ?thesis using view_cached [OF ok(2), of b bn] True x by (simp add: n)
  next
    case False
    show ?thesis
    proof (cases "\<exists>j. binds s' j bn \<and> b_valid (bufs s' ! j)")
      case True
      then obtain j where j: "binds s' j bn" "b_valid (bufs s' ! j)" by blast
      with False have "j \<noteq> b" by (auto simp: binds_def n)
      then have "binds s j bn" "b_valid (bufs s ! j)" "bufs s' ! j = bufs s ! j" using j by (auto simp: binds_def n)
      then show ?thesis using view_cached [OF ok(2) j] view_cached [OF ok(1)] False by simp
    next
      case none: False
      have v': "view s' bn = memdisk s bn" using view_uncached [of s' bn] none d False by metis
      show ?thesis
      proof (cases "binds s b bn \<and> b_valid (bufs s ! b)")
        case True
        then have "b_data (bufs s ! b) = memdisk s bn" using old False by (auto simp: binds_def)
        then show ?thesis using v' True view_cached [OF ok(1)] False by auto
      next
        case nb: False
        have "view s bn = memdisk s bn"
        proof (rule view_uncached)
          fix i assume i: "binds s i bn"
          show "\<not> b_valid (bufs s ! i)"
          proof (cases "i = b")
            case False
            then have "binds s' i bn" using i by (simp add: binds_def n)
            then show ?thesis using none False by (auto simp: n)
          qed (use nb i in blast)
        qed
        then show ?thesis using v' False by simp
      qed
    qed
  qed
qed

section \<open>What the operations do\<close>

lemma bread_steps:
  assumes ok: "cache_ok s" and bn: "bn < disksize s" and free: "\<And>i. binds s i bn \<Longrightarrow> \<not> locked s i"
    and room: "card (busy s) < NBUF \<or> (\<exists>i. binds s i bn)"
  shows "\<exists>b x. bread 1 bn s = Ret (b, s\<lparr>bufs := (bufs s)[b := x]\<rparr>) \<and> b < NBUF \<and> \<not> locked s b \<and>
    b_valid x \<and> b_dev x = 1 \<and> b_blockno x = bn \<and> b_lock x = \<lparr>sl_locked = True, sl_pid = my_pid s\<rparr> \<and> b_refcnt x = 1 \<and>
    b_next x = b_next (bufs s ! b) \<and> b_prev x = b_prev (bufs s ! b) \<and> b_data x = view s bn \<and>
    b_dirty x = b_dirty (bufs s ! b) \<and> (binds s b bn \<or> (\<forall>j. \<not> binds s j bn) \<and> \<not> b_dirty (bufs s ! b))"
proof -
  obtain xs where r: "ring (bufs s) xs" using cache_okD(1) [OF ok] by blast
  have len: "length (bufs s) = NBUF + 1" by (rule cache_ok_length [OF ok])
  have xs: "set xs = {..<NBUF}" using r by (simp add: ring_def)
  let ?P = "\<lambda>i. b_dev (bufs s ! i) = 1 \<and> b_blockno (bufs s ! i) = bn"
  show ?thesis
  proof (cases "find ?P xs")
    case (Some b)
    then have b: "b < NBUF" "binds s b bn" using xs by (auto simp: find_Some_iff binds_def)
    have o: "buf_ok s b" by (rule cache_okD(2) [OF ok b(1)])
    have u: "\<not> locked s b" by (rule free [OF b(2)])
    have g: "bget 1 bn s = Ret (b, s\<lparr>bufs := (bufs s)[b := (bufs s ! b)\<lparr>b_refcnt := 1, b_lock := \<lparr>sl_locked = True, sl_pid = my_pid s\<rparr>\<rparr>]\<rparr>)"
      using Some b u o len unfolding bget_def ring_first [OF r]
      by (simp add: block_sleep_def acquiresleep_def upd_buf_def buf_ok_def)
    show ?thesis
    proof (cases "b_valid (bufs s ! b)")
      case True
      then show ?thesis
        using g b u len o view_cached [OF ok b(2)] unfolding bread_def
        by (intro exI [of _ b] exI [of _ "(bufs s ! b)\<lparr>b_refcnt := 1, b_lock := \<lparr>sl_locked = True, sl_pid = my_pid s\<rparr>\<rparr>"])
           (auto simp: binds_def)
    next
      case False
      have v: "view s bn = memdisk s bn"
        by (rule view_uncached) (use False b(2) cache_okD(3) [OF ok] in blast)
      show ?thesis
        using g b u len o v False bn unfolding bread_def
        by (intro exI [of _ b] exI [of _ "(bufs s ! b)\<lparr>b_refcnt := 1, b_lock := \<lparr>sl_locked = True, sl_pid = my_pid s\<rparr>, b_data := memdisk s bn, b_valid := True\<rparr>"])
           (auto simp: binds_def iderw_def holdingsleep_def upd_buf_def buf_ok_def Let_def)
    qed
  next
    case None
    then have nb: "\<not> binds s j bn" for j using xs by (auto simp: find_None_iff binds_def)
    let ?Q = "\<lambda>i. b_refcnt (bufs s ! i) = 0 \<and> \<not> b_dirty (bufs s ! i)"
    have "\<exists>i<NBUF. ?Q i"
    proof (rule ccontr)
      assume none: "\<not> (\<exists>i<NBUF. ?Q i)"
      have "i \<in> busy s" if "i < NBUF" for i
        using none that cache_okD(2) [OF ok that] by (auto simp: busy_def buf_ok_def split: if_splits)
      then have "{..<NBUF} \<subseteq> busy s" by blast
      moreover have "busy s \<subseteq> {..<NBUF}" by (auto simp: busy_def)
      ultimately have "busy s = {..<NBUF}" by blast
      then have "card (busy s) = NBUF" by simp
      then show False using room nb by simp
    qed
    then have "find ?Q (rev xs) \<noteq> None" using xs by (auto simp: find_None_iff)
    then obtain b where f: "find ?Q (rev xs) = Some b" by blast
    then have b: "b < NBUF" "?Q b" using find_SomeD [OF f] xs by simp_all
    have u: "\<not> locked s b" using cache_okD(2) [OF ok b(1)] b(2) by (auto simp: buf_ok_def)
    have v: "view s bn = memdisk s bn" by (rule view_uncached) (use nb in blast)
    let ?x = "(bufs s ! b)\<lparr>b_dev := 1, b_blockno := bn, b_valid := False, b_dirty := False, b_refcnt := 1,
        b_lock := \<lparr>sl_locked = True, sl_pid = my_pid s\<rparr>\<rparr>"
    have "bget 1 bn s = Ret (b, s\<lparr>bufs := (bufs s)[b := ?x]\<rparr>)"
      using None f b u len unfolding bget_def ring_first [OF r] ring_last [OF r]
      by (simp add: block_sleep_def acquiresleep_def upd_buf_def)
    then show ?thesis
      using b u len v nb bn unfolding bread_def
      by (intro exI [of _ b] exI [of _ "?x\<lparr>b_data := memdisk s bn, b_valid := True\<rparr>"])
         (auto simp: binds_def iderw_def holdingsleep_def upd_buf_def Let_def)
  qed
qed

definition same_links :: "'a bio_scheme \<Rightarrow> 'a bio_scheme \<Rightarrow> bool" where
  "same_links s s' \<longleftrightarrow> length (bufs s') = length (bufs s) \<and> nexts (bufs s') = nexts (bufs s) \<and> prevs (bufs s') = prevs (bufs s)"

lemma same_links_ring: "same_links s s' \<Longrightarrow> ring (bufs s) xs \<Longrightarrow> ring (bufs s') xs"
  by (erule ring_other) (auto simp: same_links_def fun_eq_iff)

lemma same_links_trans: "same_links s s' \<Longrightarrow> same_links s' s'' \<Longrightarrow> same_links s s''"
  by (simp add: same_links_def)

text \<open>\<open>bread\<close> returned buffer \<open>b\<close> for block \<open>bn\<close>: locked, valid, with the contents of the block; no block changed.\<close>

definition gets :: "u32 \<Rightarrow> nat \<Rightarrow> 'a bio_scheme \<Rightarrow> 'a bio_scheme \<Rightarrow> bool" where
  "gets bn b s s' \<longleftrightarrow> cache_ok s' \<and> binds s' b bn \<and> b_valid (bufs s' ! b) \<and> locked s' b \<and> b \<notin> held s \<and>
     held s' = insert b (held s) \<and> (\<forall>j. j \<noteq> b \<longrightarrow> bufs s' ! j = bufs s ! j) \<and> b_data (bufs s' ! b) = view s bn \<and>
     view s' = view s \<and> pinned s' = pinned s \<and> (b_dirty (bufs s' ! b) \<longleftrightarrow> bn \<in> pinned s) \<and> s' = s\<lparr>bufs := bufs s'\<rparr> \<and> same_links s s'"

lemma bread_gets:
  assumes ok: "cache_ok s" and bn: "bn < disksize s" and free: "\<And>i. binds s i bn \<Longrightarrow> \<not> locked s i"
    and room: "card (busy s) < NBUF \<or> (\<exists>i. binds s i bn)"
  shows "\<exists>b s'. bread 1 bn s = Ret (b, s') \<and> gets bn b s s'"
proof -
  obtain b x where r: "bread 1 bn s = Ret (b, s\<lparr>bufs := (bufs s)[b := x]\<rparr>)" and b: "b < NBUF" "\<not> locked s b"
    and x: "b_valid x" "b_dev x = 1" "b_blockno x = bn" "b_lock x = \<lparr>sl_locked = True, sl_pid = my_pid s\<rparr>" "b_refcnt x = 1"
    "b_next x = b_next (bufs s ! b)" "b_prev x = b_prev (bufs s ! b)" "b_data x = view s bn" "b_dirty x = b_dirty (bufs s ! b)"
    and o: "binds s b bn \<or> (\<forall>j. \<not> binds s j bn) \<and> \<not> b_dirty (bufs s ! b)"
    using bread_steps [OF assms] by blast
  let ?s = "s\<lparr>bufs := (bufs s)[b := x]\<rparr>"
  have n: "bufs ?s ! j = (if j = b then x else bufs s ! j)" for j
    using b cache_ok_length [OF ok] by (simp add: nth_list_update)
  have bo: "buf_ok s b" by (rule cache_okD(2) [OF ok b(1)])
  have "cache_ok ?s"
  proof (rule one_buf [OF ok b(1)])
    show "buf_ok ?s b" using x bn n by (simp add: buf_ok_def)
    show "b_dev x = 1 \<Longrightarrow> binds s j (b_blockno x) \<Longrightarrow> j = b" for j using o x(3) cache_okD(3) [OF ok] by blast
  qed (use x in simp_all)
  moreover have "view ?s = view s"
  proof -
    have "view ?s = (view s)(b_blockno x := b_data x)"
    proof (rule one_buf_view [OF ok \<open>cache_ok ?s\<close> b(1)])
      show "b_valid (bufs s ! b) \<Longrightarrow> b_blockno (bufs s ! b) \<noteq> b_blockno x \<Longrightarrow>
          b_data (bufs s ! b) = memdisk s (b_blockno (bufs s ! b))"
        using bo b o x(3) by (auto simp: buf_ok_def binds_def)
    qed (use x in simp_all)
    then show ?thesis using x by simp
  qed
  moreover have "binds ?s i bn' \<and> b_dirty (bufs ?s ! i) \<longleftrightarrow> binds s i bn' \<and> b_dirty (bufs s ! i)" for i bn'
    using o x n by (auto simp: binds_def)
  then have p: "pinned ?s = pinned s" unfolding pinned_def by blast
  moreover have "b_dirty x \<longleftrightarrow> bn \<in> pinned s"
    using o x(9) cache_okD(3) [OF ok] by (auto simp: pinned_def)
  moreover have "held ?s = insert b (held s)" "b \<notin> held s" "binds ?s b bn" using b x n by (auto simp: held_def binds_def)
  moreover have "same_links s ?s" unfolding same_links_def n using x by (auto simp: fun_eq_iff)
  ultimately have "gets bn b s ?s" using x n by (simp add: gets_def)
  with r show ?thesis by blast
qed

text \<open>Changing the data of a buffer that is held.\<close>

definition set_data :: "nat \<Rightarrow> block \<Rightarrow> 'a bio_scheme \<Rightarrow> 'a bio_scheme" where
  "set_data b d s = upd_buf b (\<lambda>x. x\<lparr>b_data := d\<rparr>) s"

text \<open>A state in which \<open>b\<close> is held for \<open>bn\<close>.\<close>

definition holds :: "'a bio_scheme \<Rightarrow> nat \<Rightarrow> u32 \<Rightarrow> bool" where
  "holds s b bn \<longleftrightarrow> cache_ok s \<and> binds s b bn \<and> b_valid (bufs s ! b) \<and> locked s b"

lemma gets_holds: "gets bn b s s' \<Longrightarrow> holds s' b bn"
  by (simp add: gets_def holds_def)

lemma holds_pid: "holds s b bn \<Longrightarrow> holdingsleep (my_pid s) (b_lock (bufs s ! b))"
  using cache_okD(2) [of s b] by (auto simp: holds_def binds_def buf_ok_def holdingsleep_def)

lemma holds_view: "holds s b bn \<Longrightarrow> b_data (bufs s ! b) = view s bn"
  using view_cached by (metis holds_def)

lemma holds_upd:
  assumes h: "holds s b bn"
    and s': "bufs s' = (bufs s)[b := (bufs s ! b)\<lparr>b_data := d, b_dirty := c\<rparr>]" "my_pid s' = my_pid s" "disksize s' = disksize s"
    and m: "\<And>bn'. bn' \<noteq> bn \<Longrightarrow> memdisk s' bn' = memdisk s bn'"
  shows "holds s' b bn" "view s' = (view s)(bn := d)" "held s' = held s" "j \<noteq> b \<Longrightarrow> bufs s' ! j = bufs s ! j"
    "b_dirty (bufs s' ! b) = c" "b_data (bufs s' ! b) = d" "pinned s' = (if c then insert bn (pinned s) else pinned s - {bn})"
    "busy s' = busy s" "same_links s s'"
proof -
  have ok: "cache_ok s" and b: "b < NBUF" "b_dev (bufs s ! b) = 1" "b_blockno (bufs s ! b) = bn" "b_valid (bufs s ! b)" "locked s b"
    using h by (auto simp: holds_def binds_def)
  let ?x = "(bufs s ! b)\<lparr>b_data := d, b_dirty := c\<rparr>"
  have n: "bufs s' ! j = (if j = b then ?x else bufs s ! j)" for j
    using b s'(1) cache_ok_length [OF ok] by (simp add: nth_list_update)
  have bo: "buf_ok s b" by (rule cache_okD(2) [OF ok b(1)])
  have ok': "cache_ok s'"
  proof (rule one_buf [OF ok b(1) s'])
    show "buf_ok s' b" using bo b s'(2,3) by (simp add: buf_ok_def n)
    show "\<And>j. binds s j (b_blockno ?x) \<Longrightarrow> j = b" using cache_okD(3) [OF ok] h by (auto simp: holds_def b)
  qed (use b m h in \<open>auto simp: holds_def\<close>)
  then show "holds s' b bn" using b n by (simp add: holds_def binds_def)
  have "view s' = (view s)(b_blockno ?x := b_data ?x)"
    by (rule one_buf_view [OF ok ok' b(1) s'(1)]) (use b m in auto)
  then show "view s' = (view s)(bn := d)" using b by simp
  show "same_links s s'" unfolding same_links_def n using s'(1) by (auto simp: fun_eq_iff)
  show "held s' = held s" "busy s' = busy s" using n b by (auto simp: held_def busy_def)
  show "b_dirty (bufs s' ! b) = c" "b_data (bufs s' ! b) = d" "j \<noteq> b \<Longrightarrow> bufs s' ! j = bufs s ! j" using n by simp_all
  have B: "binds s' i bn' \<longleftrightarrow> binds s i bn'" for i bn' using n by (simp add: binds_def)
  have u: "binds s i bn \<longleftrightarrow> i = b" for i using h cache_okD(3) [OF ok] by (auto simp: holds_def)
  have p: "bn' \<in> pinned s' \<longleftrightarrow> (if bn' = bn then c else bn' \<in> pinned s)" for bn'
  proof (cases "bn' = bn")
    case True
    then show ?thesis using u n by (simp add: pinned_def B)
  next
    case False
    then have "\<not> binds s b bn'" using b by (simp add: binds_def)
    then have "binds s i bn' \<Longrightarrow> bufs s' ! i = bufs s ! i" for i using n by metis
    then show ?thesis using False by (auto simp: pinned_def B)
  qed
  show "pinned s' = (if c then insert bn (pinned s) else pinned s - {bn})" by (rule set_eqI) (simp add: p)
qed

lemma set_data_spec:
  assumes h: "holds s b bn"
  shows "holds (set_data b d s) b bn" "view (set_data b d s) = (view s)(bn := d)" "held (set_data b d s) = held s"
    "j \<noteq> b \<Longrightarrow> bufs (set_data b d s) ! j = bufs s ! j" "b_dirty (bufs (set_data b d s) ! b) = b_dirty (bufs s ! b)"
    "pinned (set_data b d s) = pinned s" "busy (set_data b d s) = busy s" "set_data b d s = s\<lparr>bufs := bufs (set_data b d s)\<rparr>"
    "same_links s (set_data b d s)"
proof -
  have e: "bufs (set_data b d s) = (bufs s)[b := (bufs s ! b)\<lparr>b_data := d, b_dirty := b_dirty (bufs s ! b)\<rparr>]"
    by (simp add: set_data_def)
  note U = holds_upd [OF h e]
  show "holds (set_data b d s) b bn" "view (set_data b d s) = (view s)(bn := d)" "held (set_data b d s) = held s"
    "j \<noteq> b \<Longrightarrow> bufs (set_data b d s) ! j = bufs s ! j" "b_dirty (bufs (set_data b d s) ! b) = b_dirty (bufs s ! b)"
    "busy (set_data b d s) = busy s" "same_links s (set_data b d s)"
    by (rule U; simp add: set_data_def)+
  have "bn \<in> pinned s \<longleftrightarrow> b_dirty (bufs s ! b)"
    using h cache_okD(3) [of s] by (auto simp: pinned_def holds_def)
  then show "pinned (set_data b d s) = pinned s" using U(7) by (auto simp: set_data_def)
  show "set_data b d s = s\<lparr>bufs := bufs (set_data b d s)\<rparr>" by (simp add: set_data_def upd_buf_def)
qed

lemma bwrite_spec:
  assumes h: "holds s b bn"
  shows "\<exists>s'. bwrite b s = Ret s' \<and> holds s' b bn \<and> view s' = view s \<and> held s' = held s \<and> (\<forall>j. j \<noteq> b \<longrightarrow> bufs s' ! j = bufs s ! j) \<and>
    \<not> b_dirty (bufs s' ! b) \<and> pinned s' = pinned s - {bn} \<and>
    s' = s\<lparr>bufs := bufs s', memdisk := (memdisk s)(bn := view s bn), disk_writes := (bn, view s bn) # disk_writes s\<rparr> \<and>
    same_links s s'"
proof -
  have b: "b < NBUF" "b_dev (bufs s ! b) = 1" "b_blockno (bufs s ! b) = bn" "b_valid (bufs s ! b)" and ok: "cache_ok s"
    using h by (auto simp: holds_def binds_def)
  have bn: "bn < disksize s" using cache_okD(2) [OF ok b(1)] b by (simp add: buf_ok_def)
  have v: "b_data (bufs s ! b) = view s bn" by (rule holds_view [OF h])
  let ?s = "s\<lparr>bufs := (bufs s)[b := (bufs s ! b)\<lparr>b_data := view s bn, b_dirty := False\<rparr>],
      memdisk := (memdisk s)(bn := view s bn), disk_writes := (bn, view s bn) # disk_writes s\<rparr>"
  have x: "(bufs s ! b)\<lparr>b_dirty := False, b_valid := True\<rparr> = (bufs s ! b)\<lparr>b_data := view s bn, b_dirty := False\<rparr>"
    using b v by (cases "bufs s ! b") simp
  have "bwrite b s = Ret ?s"
    unfolding x [symmetric] using holds_pid [OF h] b bn v cache_ok_length [OF ok]
    by (simp add: bwrite_def iderw_def upd_buf_def holdingsleep_def Let_def)
  moreover note U = holds_upd [OF h, where s' = ?s and d = "view s bn" and c = False]
  have "holds ?s b bn" "view ?s = (view s)(bn := view s bn)" "held ?s = held s" "\<forall>j. j \<noteq> b \<longrightarrow> bufs ?s ! j = bufs s ! j"
    "\<not> b_dirty (bufs ?s ! b)" "pinned ?s = pinned s - {bn}"
    "same_links s ?s"
    using U by simp_all
  ultimately show ?thesis by (intro exI [of _ ?s]) simp
qed

lemma links_upd:
  "i < length bs \<Longrightarrow> nexts (bs[i := (bs ! i)\<lparr>b_prev := v\<rparr>]) = nexts bs"
  "i < length bs \<Longrightarrow> prevs (bs[i := (bs ! i)\<lparr>b_prev := v\<rparr>]) = (prevs bs)(i := v)"
  "i < length bs \<Longrightarrow> nexts (bs[i := (bs ! i)\<lparr>b_next := v\<rparr>]) = (nexts bs)(i := v)"
  "i < length bs \<Longrightarrow> prevs (bs[i := (bs ! i)\<lparr>b_next := v\<rparr>]) = prevs bs"
  "i < length bs \<Longrightarrow> core (bs[i := (bs ! i)\<lparr>b_next := v\<rparr>] ! j) = core (bs ! j)"
  "i < length bs \<Longrightarrow> core (bs[i := (bs ! i)\<lparr>b_prev := v\<rparr>] ! j) = core (bs ! j)"
  by (cases "i = j"; auto simp: fun_eq_iff nth_list_update core_def)+

lemma to_front_spec:
  assumes r: "ring (bufs s) xs" and b: "b < NBUF"
  shows "ring (bufs (to_front b s)) (b # remove1 b xs)" "core (bufs (to_front b s) ! j) = core (bufs s ! j)"
    "to_front b s = s\<lparr>bufs := bufs (to_front b s)\<rparr>"
proof -
  obtain us vs where xs: "xs = us @ b # vs" using r b split_list [of b xs] by (auto simp: ring_def)
  have len: "length (bufs s) = NBUF + 1" and S: "set xs = {..<NBUF}" and d: "distinct xs"
    and l: "linked (nexts (bufs s)) (prevs (bufs s)) (b_head # us @ b # vs @ [b_head])"
    using r by (simp_all add: ring_def xs)
  have d': "distinct (b_head # us @ b # vs)" using d S unfolding xs b_head_def by auto
  let ?a = "prevs (bufs s) b" and ?c = "nexts (bufs s) b"
  have l': "linked (nexts (bufs s)) (prevs (bufs s)) ((b_head # us) @ [b] @ (vs @ [b_head]))" using l by simp
  have ac: "?a = last (b_head # us)" "?c = hd (vs @ [b_head])"
    using l' linked_join [of "b_head # us" "[b] @ vs @ [b_head]" "nexts (bufs s)" "prevs (bufs s)"]
      linked_join [of "[b]" "vs @ [b_head]" "nexts (bufs s)" "prevs (bufs s)"] by simp_all
  have sub: "set us \<subseteq> {..<NBUF}" "set vs \<subseteq> {..<NBUF}" unfolding S [symmetric] xs by auto
  have bound: "i < length (bufs s)" if "i \<in> insert b_head (set us \<union> set vs)" for i
    using that sub unfolding len b_head_def by fastforce
  have other: "i \<noteq> b" if "i \<in> insert b_head (set us \<union> set vs)" for i
    using that d' by auto
  have "?a \<in> set (b_head # us)" unfolding ac by (rule last_in_set) simp
  then have a: "?a \<in> insert b_head (set us \<union> set vs)" by auto
  have "?c \<in> set (vs @ [b_head])" unfolding ac by (rule hd_in_set) simp
  then have c: "?c \<in> insert b_head (set us \<union> set vs)" by auto
  have hd: "b_head \<in> insert b_head (set us \<union> set vs)" by simp
  have "b < length (bufs s)" using b len by simp
  note lt = bound [OF a] bound [OF c] this bound [OF hd] other [OF hd, symmetric] other [OF a] other [OF c]
  let ?nx = "(nexts (bufs s))(?a := ?c)" and ?pv = "(prevs (bufs s))(?c := ?a)"
  have U: "linked ?nx ?pv (b_head # (us @ vs) @ [b_head])" using linked_unlink [OF l d'] by simp
  have "?nx b_head = hd ((us @ vs) @ [b_head])" using U by (cases "us @ vs") (auto simp del: fun_upd_apply)
  moreover have "hd ((us @ vs) @ [b_head]) \<in> insert b_head (set us \<union> set vs)" by (cases "us @ vs") (auto simp: append_eq_Cons_conv)
  ultimately have h: "?nx b_head < length (bufs s)" using bound by metis
  define s1 where "s1 = upd_buf ?c (\<lambda>x. x\<lparr>b_prev := ?a\<rparr>) s"
  define s2 where "s2 = upd_buf ?a (\<lambda>x. x\<lparr>b_next := ?c\<rparr>) s1"
  define s3 where "s3 = upd_buf b (\<lambda>x. x\<lparr>b_next := ?nx b_head\<rparr>) s2"
  define s4 where "s4 = upd_buf b (\<lambda>x. x\<lparr>b_prev := b_head\<rparr>) s3"
  define s5 where "s5 = upd_buf (?nx b_head) (\<lambda>x. x\<lparr>b_prev := b\<rparr>) s4"
  define s6 where "s6 = upd_buf b_head (\<lambda>x. x\<lparr>b_next := b\<rparr>) s5"
  have 1: "nexts (bufs s1) = nexts (bufs s)" "prevs (bufs s1) = ?pv" "length (bufs s1) = length (bufs s)"
    unfolding s1_def bufs_upd_buf using lt by (simp_all only: links_upd length_list_update)
  have 2: "nexts (bufs s2) = ?nx" "prevs (bufs s2) = ?pv" "length (bufs s2) = length (bufs s)"
    unfolding s2_def bufs_upd_buf using lt 1 by (simp_all only: links_upd length_list_update)
  have 3: "nexts (bufs s3) = ?nx(b := ?nx b_head)" "prevs (bufs s3) = ?pv" "length (bufs s3) = length (bufs s)"
    unfolding s3_def bufs_upd_buf using lt 2 by (simp_all only: links_upd length_list_update)
  have 4: "nexts (bufs s4) = ?nx(b := ?nx b_head)" "prevs (bufs s4) = ?pv(b := b_head)" "length (bufs s4) = length (bufs s)"
    unfolding s4_def bufs_upd_buf using lt 3 by (simp_all only: links_upd length_list_update)
  have 5: "nexts (bufs s5) = ?nx(b := ?nx b_head)" "prevs (bufs s5) = ?pv(b := b_head, ?nx b_head := b)" "length (bufs s5) = length (bufs s)"
    unfolding s5_def bufs_upd_buf using h 4 by (simp_all only: links_upd length_list_update)
  have 6: "nexts (bufs s6) = ?nx(b := ?nx b_head, b_head := b)" "prevs (bufs s6) = ?pv(b := b_head, ?nx b_head := b)" "length (bufs s6) = length (bufs s)"
    unfolding s6_def bufs_upd_buf using lt 5 by (simp_all only: links_upd length_list_update)
  have r1: "prevs (bufs s1) b = ?a" "nexts (bufs s1) b = ?c" using fun_cong [OF 1(1), of b] fun_cong [OF 1(2), of b] lt by simp_all
  have r2: "nexts (bufs s2) b_head = ?nx b_head" by (rule fun_cong [OF 2(1)])
  have r4: "nexts (bufs s4) b_head = ?nx b_head" using fun_cong [OF 4(1), of b_head] lt by simp
  have t: "to_front b s = s6"
    unfolding to_front_def Let_def s1_def [symmetric] r1 s2_def [symmetric] r2 s3_def [symmetric] s4_def [symmetric]
      r4 s5_def [symmetric] s6_def [symmetric] ..
  have rm: "b # remove1 b xs = b # us @ vs" using d unfolding xs by (simp add: remove1_append)
  have "distinct (b_head # b # us @ vs)" using d' by auto
  then have "linked (nexts (bufs s6)) (prevs (bufs s6)) (b_head # b # (us @ vs) @ [b_head])"
    unfolding 6 by (rule linked_push [OF U])
  moreover have "set (b # us @ vs) = {..<NBUF}" "distinct (b # us @ vs)" using S d unfolding xs by auto
  ultimately show "ring (bufs (to_front b s)) (b # remove1 b xs)"
    unfolding ring_def t rm 6 len by simp
  show "core (bufs (to_front b s) ! j) = core (bufs s ! j)"
    unfolding t s6_def s5_def s4_def s3_def s2_def s1_def bufs_upd_buf using lt h by (simp only: links_upd length_list_update)
  show "to_front b s = s\<lparr>bufs := bufs (to_front b s)\<rparr>"
    unfolding t s6_def s5_def s4_def s3_def s2_def s1_def by (simp add: upd_buf_def)
qed

text \<open>\<open>brelse\<close> gives up a buffer that agrees with the disk or is pinned by the log.\<close>

lemma brelse_spec:
  assumes h: "holds s b bn" and c: "b_dirty (bufs s ! b) \<or> view s bn = memdisk s bn"
  shows "\<exists>s'. brelse b s = Ret s' \<and> cache_ok s' \<and> view s' = view s \<and> held s' = held s - {b} \<and> pinned s' = pinned s \<and>
    (\<forall>j<NBUF. j \<noteq> b \<longrightarrow> core (bufs s' ! j) = core (bufs s ! j)) \<and> s' = s\<lparr>bufs := bufs s'\<rparr> \<and>
    (\<forall>xs. ring (bufs s) xs \<longrightarrow> ring (bufs s') (b # remove1 b xs))"
proof -
  have b: "b < NBUF" "b_dev (bufs s ! b) = 1" "b_blockno (bufs s ! b) = bn" "b_valid (bufs s ! b)" "locked s b" and ok: "cache_ok s"
    using h by (auto simp: holds_def binds_def)
  have bo: "buf_ok s b" by (rule cache_okD(2) [OF ok b(1)])
  have len: "length (bufs s) = NBUF + 1" by (rule cache_ok_length [OF ok])
  let ?x = "(bufs s ! b)\<lparr>b_lock := releasesleep (b_lock (bufs s ! b)), b_refcnt := 0\<rparr>"
  let ?s = "s\<lparr>bufs := (bufs s)[b := ?x]\<rparr>"
  have n: "bufs ?s ! j = (if j = b then ?x else bufs s ! j)" for j
    using b len by (simp add: nth_list_update)
  have r: "brelse b s = Ret (to_front b ?s)"
    using holds_pid [OF h] b len bo by (simp add: brelse_def upd_buf_def buf_ok_def Let_def)
  have ok': "cache_ok ?s"
  proof (rule one_buf [OF ok b(1)])
    show "buf_ok ?s b" using bo b c holds_view [OF h] by (auto simp: buf_ok_def len releasesleep_def)
    show "\<And>j. binds s j (b_blockno ?x) \<Longrightarrow> j = b" using h cache_okD(3) [OF ok] by (auto simp: holds_def b)
  qed simp_all
  have v': "view ?s = view s"
  proof -
    have "view ?s = (view s)(b_blockno ?x := b_data ?x)" by (rule one_buf_view [OF ok ok' b(1)]) (use b in simp_all)
    then show ?thesis using b holds_view [OF h] by simp
  qed
  have B: "binds ?s i bn' \<longleftrightarrow> binds s i bn'" and D: "b_dirty (bufs ?s ! i) = b_dirty (bufs s ! i)" for i bn'
    unfolding binds_def n by simp_all
  have p': "pinned ?s = pinned s" unfolding pinned_def B D ..
  have h': "held ?s = held s - {b}" using n b by (auto simp: held_def releasesleep_def)
  note F = to_front_spec [OF _ b(1), of ?s]
  obtain xs where xs: "ring (bufs ?s) xs" using cache_okD(1) [OF ok'] by blast
  have co: "core (bufs (to_front b ?s) ! j) = core (bufs ?s ! j)" for j by (rule F(2) [OF xs])
  have eq: "to_front b ?s = ?s\<lparr>bufs := bufs (to_front b ?s)\<rparr>" by (rule F(3) [OF xs])
  have m: "memdisk (to_front b ?s) = memdisk ?s" "my_pid (to_front b ?s) = my_pid ?s" "disksize (to_front b ?s) = disksize ?s"
    by (subst eq, simp)+
  note C = same_cores [of "to_front b ?s" ?s, OF co]
  have "cache_ok (to_front b ?s)"
    unfolding cache_ok_def using F(1) [OF xs] C(1,6) m ok' unfolding cache_ok_def by (metis (no_types, lifting))
  moreover have "ring (bufs (to_front b ?s)) (b # remove1 b ys)" if "ring (bufs s) ys" for ys
  proof (rule F(1), rule ring_other [OF that])
    show "\<And>i. i < length (bufs s) \<Longrightarrow> nexts (bufs ?s) i = nexts (bufs s) i \<and> prevs (bufs ?s) i = prevs (bufs s) i" using n by simp
  qed simp
  moreover have "to_front b ?s = s\<lparr>bufs := bufs (to_front b ?s)\<rparr>" by (subst eq) simp
  ultimately show ?thesis
    using r C(2,4,5) m v' p' h' co n by (intro exI [of _ "to_front b ?s"]) auto
qed

section \<open>Initialisation\<close>

definition zero_buf :: buf where
  "zero_buf = \<lparr>b_valid = False, b_dirty = False, b_dev = 0, b_blockno = 0, b_lock = initsleeplock,
     b_refcnt = 0, b_prev = 0, b_next = 0, b_data = (\<lambda>_. 0)\<rparr>"

definition zero_bio :: "'a bio_scheme \<Rightarrow> bool" where
  "zero_bio s \<longleftrightarrow> bufs s = replicate (NBUF + 1) zero_buf"

lemma binit_turn_spec:
  assumes len: "length (bufs s) = NBUF + 1" and b: "b < NBUF" "\<And>i. i \<in> set xs \<Longrightarrow> i < b"
    and l: "linked (nexts (bufs s)) (prevs (bufs s)) (b_head # xs @ [b_head])" and d: "distinct xs"
    and lk: "b_lock (bufs s ! b) = initsleeplock"
  shows "linked (nexts (bufs (binit_turn b s))) (prevs (bufs (binit_turn b s))) (b_head # b # xs @ [b_head])"
    "core (bufs (binit_turn b s) ! j) = core (bufs s ! j)" "length (bufs (binit_turn b s)) = NBUF + 1"
    "binit_turn b s = s\<lparr>bufs := bufs (binit_turn b s)\<rparr>"
proof -
  let ?nx = "nexts (bufs s)" and ?pv = "prevs (bufs s)"
  have h: "?nx b_head = hd (xs @ [b_head])" using l by (cases xs) auto
  moreover have "hd (xs @ [b_head]) \<in> set (xs @ [b_head])" by (rule hd_in_set) simp
  ultimately have lt: "?nx b_head < length (bufs s)" "b < length (bufs s)" "b_head < length (bufs s)" "b \<noteq> b_head"
    using b len by (fastforce simp: b_head_def)+
  define s1 where "s1 = upd_buf b (\<lambda>x. x\<lparr>b_next := ?nx b_head\<rparr>) s"
  define s2 where "s2 = upd_buf b (\<lambda>x. x\<lparr>b_prev := b_head\<rparr>) s1"
  define s3 where "s3 = upd_buf (?nx b_head) (\<lambda>x. x\<lparr>b_prev := b\<rparr>) s2"
  define s4 where "s4 = upd_buf b_head (\<lambda>x. x\<lparr>b_next := b\<rparr>) s3"
  have 1: "nexts (bufs s1) = ?nx(b := ?nx b_head)" "prevs (bufs s1) = ?pv" "length (bufs s1) = length (bufs s)"
    unfolding s1_def bufs_upd_buf using lt by (simp_all only: links_upd length_list_update)
  have 2: "nexts (bufs s2) = ?nx(b := ?nx b_head)" "prevs (bufs s2) = ?pv(b := b_head)" "length (bufs s2) = length (bufs s)"
    unfolding s2_def bufs_upd_buf using lt 1 by (simp_all only: links_upd length_list_update)
  have 3: "nexts (bufs s3) = ?nx(b := ?nx b_head)" "prevs (bufs s3) = ?pv(b := b_head, ?nx b_head := b)" "length (bufs s3) = length (bufs s)"
    unfolding s3_def bufs_upd_buf using lt 2 by (simp_all only: links_upd length_list_update)
  have 4: "nexts (bufs s4) = ?nx(b := ?nx b_head, b_head := b)" "prevs (bufs s4) = ?pv(b := b_head, ?nx b_head := b)" "length (bufs s4) = length (bufs s)"
    unfolding s4_def bufs_upd_buf using lt 3 by (simp_all only: links_upd length_list_update)
  have r: "nexts (bufs s2) b_head = ?nx b_head" using fun_cong [OF 2(1), of b_head] lt by simp
  have "upd_buf b (\<lambda>x. x\<lparr>b_next := ?nx b_head, b_prev := b_head, b_lock := initsleeplock\<rparr>) s = s2"
    using lt lk unfolding s2_def s1_def upd_buf_def by (cases "bufs s ! b") simp
  then have t: "binit_turn b s = s4" unfolding binit_turn_def Let_def s4_def s3_def using r by simp
  have "distinct (b_head # b # xs)" using b(1) b(2) [of b] b(2) [of b_head] d by (auto simp: b_head_def)
  then show "linked (nexts (bufs (binit_turn b s))) (prevs (bufs (binit_turn b s))) (b_head # b # xs @ [b_head])"
    unfolding t 4 by (rule linked_push [OF l])
  show "core (bufs (binit_turn b s) ! j) = core (bufs s ! j)"
    unfolding t s4_def s3_def s2_def s1_def bufs_upd_buf using lt by (simp only: links_upd length_list_update)
  show "length (bufs (binit_turn b s)) = NBUF + 1" unfolding t 4 by (rule len)
  show "binit_turn b s = s\<lparr>bufs := bufs (binit_turn b s)\<rparr>"
    unfolding t s4_def s3_def s2_def s1_def by (simp add: upd_buf_def)
qed

lemma binit_spec:
  assumes z: "zero_bio s"
  shows "cache_ok (binit s)" "held (binit s) = {}" "busy (binit s) = {}" "view (binit s) = memdisk s"
    "ring (bufs (binit s)) (rev [0..<NBUF])" "binit s = s\<lparr>bufs := bufs (binit s)\<rparr>"
proof -
  let ?s0 = "upd_buf b_head (\<lambda>x. x\<lparr>b_prev := b_head, b_next := b_head\<rparr>) s"
  have z': "bufs s = replicate (NBUF + 1) zero_buf" using z unfolding zero_bio_def .
  have l0: "length (bufs s) = NBUF + 1" unfolding z' by (rule length_replicate)
  have z0: "bufs s ! j = zero_buf" if "j < NBUF + 1" for j unfolding z' using that by (rule nth_replicate)
  have "k \<le> NBUF \<Longrightarrow> (let t = fold binit_turn [0..<k] ?s0 in
      linked (nexts (bufs t)) (prevs (bufs t)) (b_head # rev [0..<k] @ [b_head]) \<and> length (bufs t) = NBUF + 1 \<and>
      (\<forall>j. j < NBUF \<longrightarrow> core (bufs t ! j) = core zero_buf) \<and> t = s\<lparr>bufs := bufs t\<rparr>)" for k
  proof (induction k)
    case 0
    have "core (bufs ?s0 ! j) = core zero_buf" if "j < NBUF" for j using z0 [of j] that by (simp add: b_head_def)
    then show ?case using l0 by (simp add: b_head_def upd_buf_def)
  next
    case (Suc k)
    let ?t = "fold binit_turn [0..<k] ?s0"
    have IH: "linked (nexts (bufs ?t)) (prevs (bufs ?t)) (b_head # rev [0..<k] @ [b_head])" "length (bufs ?t) = NBUF + 1"
      "\<And>j. j < NBUF \<Longrightarrow> core (bufs ?t ! j) = core zero_buf" "?t = s\<lparr>bufs := bufs ?t\<rparr>"
      using Suc by (simp_all add: Let_def)
    have k: "k < NBUF" "\<And>i. i \<in> set (rev [0..<k]) \<Longrightarrow> i < k" using Suc.prems by auto
    have lk: "b_lock (bufs ?t ! k) = initsleeplock" using IH(3) [OF k(1)] by (simp add: core_eq zero_buf_def)
    have "distinct (rev [0..<k])" by simp
    note B = binit_turn_spec [OF IH(2) k IH(1) this lk]
    have e: "fold binit_turn [0..<Suc k] ?s0 = binit_turn k ?t" "rev [0..<Suc k] = k # rev [0..<k]" by simp_all
    have "binit_turn k ?t = s\<lparr>bufs := bufs (binit_turn k ?t)\<rparr>"
      by (rule only_bufs_trans [OF IH(4) B(4)])
    then show ?case unfolding Let_def e using B(1-3) IH(3) by simp
  qed
  from this [of NBUF] have A: "linked (nexts (bufs (binit s))) (prevs (bufs (binit s))) (b_head # rev [0..<NBUF] @ [b_head])"
    "length (bufs (binit s)) = NBUF + 1" "\<And>j. j < NBUF \<Longrightarrow> core (bufs (binit s) ! j) = core zero_buf" "binit s = s\<lparr>bufs := bufs (binit s)\<rparr>"
    by (simp_all add: binit_def Let_def)
  show r: "ring (bufs (binit s)) (rev [0..<NBUF])" using A(1,2) by (auto simp: ring_def)
  show "binit s = s\<lparr>bufs := bufs (binit s)\<rparr>" by (rule A(4))
  have c: "b_valid (bufs (binit s) ! j) = False" "b_dirty (bufs (binit s) ! j) = False" "b_dev (bufs (binit s) ! j) = 0"
    "b_lock (bufs (binit s) ! j) = initsleeplock" "b_refcnt (bufs (binit s) ! j) = 0" if "j < NBUF" for j
    using A(3) [OF that] by (simp_all add: core_eq zero_buf_def)
  then show "held (binit s) = {}" "busy (binit s) = {}" by (auto simp: held_def busy_def initsleeplock_def)
  have nb: "\<not> binds (binit s) i bn" for i bn using c by (auto simp: binds_def)
  have "buf_ok (binit s) i" if "i < NBUF" for i using c [OF that] by (simp add: buf_ok_def initsleeplock_def)
  then show "cache_ok (binit s)" unfolding cache_ok_def using r nb by blast
  have "view (binit s) = memdisk (binit s)" using nb view_uncached by blast
  also have "\<dots> = memdisk s" by (subst A(4)) simp
  finally show "view (binit s) = memdisk s" .
qed

lemma held_bound: "held s \<subseteq> busy s" "finite (busy s)"
proof -
  have "busy s \<subseteq> {..<NBUF}" by (auto simp: busy_def)
  then show "finite (busy s)" by (rule finite_subset) simp
qed (auto simp: held_def busy_def)

section \<open>Properties\<close>

text \<open>
  (C18) The cache is transparent: \<open>bread\<close> returns the block as it was last written, through
  the cache or on the disk, and after a change, \<open>bwrite\<close> and \<open>brelse\<close> the disk and every later reader
  have the new contents, no other block has changed, no buffer is left locked, and the buffer is the
  most recently used one of the ring.
\<close>

theorem cache_transparent:
  assumes "cache_ok s" "bn < disksize s" "held s = {}" "card (busy s) < NBUF" "ring (bufs s) xs"
  shows "\<exists>b s1 s2. bread 1 bn s = Ret (b, s1) \<and> b_data (bufs s1 ! b) = view s bn \<and>
    bnd (bwrite b (set_data b d s1)) (brelse b) = Ret s2 \<and> cache_ok s2 \<and> held s2 = {} \<and>
    memdisk s2 = (memdisk s)(bn := d) \<and> view s2 = (view s)(bn := d) \<and> ring (bufs s2) (b # remove1 b xs)"
proof -
  have free: "\<not> locked s i" if "binds s i bn" for i using assms(3) that by (auto simp: held_def binds_def)
  obtain b s1 where b: "bread 1 bn s = Ret (b, s1)" and g: "gets bn b s s1"
    using bread_gets [OF assms(1,2) free] assms(4) by blast
  note D = set_data_spec [OF gets_holds [OF g], where d = d]
  let ?s = "set_data b d s1"
  obtain s2 where s2: "bwrite b ?s = Ret s2" "holds s2 b bn" "view s2 = view ?s" "held s2 = held ?s"
    "\<forall>j. j \<noteq> b \<longrightarrow> bufs s2 ! j = bufs ?s ! j" "same_links ?s s2" and m: "s2 = ?s\<lparr>bufs := bufs s2, memdisk := (memdisk ?s)(bn := view ?s bn), disk_writes := (bn, view ?s bn) # disk_writes ?s\<rparr>"
    using bwrite_spec [OF D(1)] by blast
  have e: "memdisk ?s = memdisk s" using g by (subst D(8)) (metis bio.select_convs(3) bio.surjective bio.update_convs(5) gets_def)
  have md: "memdisk s2 = (memdisk s)(bn := d)" using D(2) e by (subst m) simp
  have "view s2 bn = memdisk s2 bn" using s2(3) D(2) md by simp
  then obtain s3 where s3: "brelse b s2 = Ret s3" "cache_ok s3" "view s3 = view s2" "held s3 = held s2 - {b}"
    "s3 = s2\<lparr>bufs := bufs s3\<rparr>" "\<forall>xs. ring (bufs s2) xs \<longrightarrow> ring (bufs s3) (b # remove1 b xs)"
    using brelse_spec [OF s2(2)] by blast
  have "memdisk s3 = (memdisk s)(bn := d)" using md by (subst s3(5)) simp
  moreover have "held s3 = {}" using s3(4) s2(4) D(3) g assms(3) by (auto simp: gets_def)
  moreover have "view s3 = (view s)(bn := d)" using s3(3) s2(3) D(2) g by (simp add: gets_def)
  moreover have "same_links s s1" using g by (simp add: gets_def)
  then have "ring (bufs s2) xs" using same_links_ring [OF _ assms(5)] same_links_trans D(9) s2(6) by blast
  then have "ring (bufs s3) (b # remove1 b xs)" using s3(6) by blast
  moreover have "b_data (bufs s1 ! b) = view s bn" using g by (simp add: gets_def)
  moreover have "bnd (bwrite b ?s) (brelse b) = Ret s3" by (simp add: s2(1) s3(1))
  ultimately show ?thesis using b s3(2) by blast
qed

definition demo_bio :: bio where
  "demo_bio = \<lparr>my_pid = 1, disksize = 8, memdisk = (\<lambda>_ _. 7), disk_writes = [], bufs = replicate (NBUF + 1) zero_buf\<rparr>"

theorem cache_transparent_witness:
  "\<exists>b s1 s2. bread 1 5 (binit demo_bio) = Ret (b, s1) \<and> b_data (bufs s1 ! b) 0 = 7 \<and>
    bnd (bwrite b (set_data b (\<lambda>_. 9) s1)) (brelse b) = Ret s2 \<and> memdisk s2 5 = (\<lambda>_. 9) \<and> memdisk s2 6 = (\<lambda>_. 7)"
proof -
  have "zero_bio demo_bio" unfolding zero_bio_def demo_bio_def by simp
  note I = binit_spec [OF this]
  have d: "disksize (binit demo_bio) = 8" by (subst I(6)) (simp add: demo_bio_def)
  have m: "memdisk (binit demo_bio) = (\<lambda>_ _. 7)" by (subst I(6)) (simp add: demo_bio_def)
  have "card (busy (binit demo_bio)) < NBUF" by (simp add: I(3) NBUF_def)
  moreover have "(5 :: u32) < disksize (binit demo_bio)" by (simp add: d)
  ultimately obtain b s1 s2 where r: "bread 1 5 (binit demo_bio) = Ret (b, s1)" "b_data (bufs s1 ! b) = view (binit demo_bio) 5"
    "bnd (bwrite b (set_data b (\<lambda>_. 9) s1)) (brelse b) = Ret s2" "memdisk s2 = (memdisk (binit demo_bio))(5 := (\<lambda>_. 9))"
    using cache_transparent [OF I(1) _ I(2) _ I(5), of 5 "\<lambda>_. 9"] by blast
  have "view (binit demo_bio) 5 0 = 7" using I(4) by (simp add: demo_bio_def)
  moreover have "memdisk s2 5 = (\<lambda>_. 9)" "memdisk s2 6 = (\<lambda>_. 7)"
    using fun_cong [OF r(4), of 5] fun_cong [OF r(4), of 6] fun_cong [OF m, of 6] by simp_all
  ultimately show ?thesis using r(1-3) by metis
qed
end
