(* ===== verification/Log.thy ===== *)
theory Log
  imports Bio
begin

text \<open>
  The write-ahead log of \<^verbatim>\<open>log.c\<close>. The header is kept in a block with the encoding of
  \<^verbatim>\<open>struct logheader\<close>. \<^verbatim>\<open>begin_op\<close> and \<^verbatim>\<open>end_op\<close> are modelled as the process
  that calls them sees them; where \<^verbatim>\<open>begin_op\<close> waits for other processes' operations it does not
  return. The theorem on crashes runs \<^verbatim>\<open>end_op\<close>, stops the machine after any number of disk
  writes, and runs recovery on what the disk has then.
\<close>

unbundle bit_operations_syntax

section \<open>Integers in blocks\<close>

text \<open>The little-endian \<^verbatim>\<open>uint\<close> and \<^verbatim>\<open>short\<close> at a byte offset of a block.\<close>

definition get32 :: "block \<Rightarrow> 9 word \<Rightarrow> u32" where
  "get32 d a = ucast (d a) OR push_bit 8 (ucast (d (a + 1)))
     OR push_bit 16 (ucast (d (a + 2))) OR push_bit 24 (ucast (d (a + 3)))"

definition put32 :: "9 word \<Rightarrow> u32 \<Rightarrow> block \<Rightarrow> block" where
  "put32 a v d = d(a := ucast v, a + 1 := ucast (drop_bit 8 v),
     a + 2 := ucast (drop_bit 16 v), a + 3 := ucast (drop_bit 24 v))"

definition get16 :: "block \<Rightarrow> 9 word \<Rightarrow> u16" where
  "get16 d a = ucast (d a) OR push_bit 8 (ucast (d (a + 1)))"

definition put16 :: "9 word \<Rightarrow> u16 \<Rightarrow> block \<Rightarrow> block" where
  "put16 a v d = d(a := ucast v, a + 1 := ucast (drop_bit 8 v))"

section \<open>State\<close>

definition MAXOPBLOCKS :: int where "MAXOPBLOCKS = 10"
definition LOGSIZE :: int where "LOGSIZE = MAXOPBLOCKS * 3"

record log = bio +
  lg_start :: u32
  lg_size :: int
  lg_outstanding :: int
  lg_committing :: bool
  lg_dev :: u32
  lh_n :: int
  lh_block :: "u32 list"

section \<open>Operations\<close>

text \<open>One turn of the loop of \<open>install_trans\<close>, for the \<open>tail\<close>-th block of the log.\<close>

definition install_turn :: "nat \<Rightarrow> 'a log_scheme \<Rightarrow> 'a log_scheme outcome" where
  "install_turn tail s =
     bnd (bread (lg_dev s) (lg_start s + of_nat tail + 1) s) (\<lambda>(lbuf, s).
     if \<not> tail < length (lh_block s) then Fault
     else
       bnd (bread (lg_dev s) (lh_block s ! tail) s) (\<lambda>(dbuf, s).
       let s = set_data dbuf (b_data (bufs s ! lbuf)) s in
       bnd (bwrite dbuf s) (\<lambda>s.
       bnd (brelse lbuf s) (\<lambda>s. brelse dbuf s))))"

definition install_trans :: "'a log_scheme \<Rightarrow> 'a log_scheme outcome" where
  "install_trans s = for_each install_turn [0..<nat (lh_n s)] s"

text \<open>
  \<open>read_head\<close>: entries beyond the end of \<open>log.lh.block\<close> would be written outside of it.
\<close>

definition read_head :: "'a log_scheme \<Rightarrow> 'a log_scheme outcome" where
  "read_head s =
     bnd (bread (lg_dev s) (lg_start s) s) (\<lambda>(b, s).
     let lh = b_data (bufs s ! b);
         n = sint (get32 lh 0)
     in if n > LOGSIZE then Fault
        else
          let s = s\<lparr>lh_n := n,
                lh_block := map (\<lambda>i. if i < nat n then get32 lh (4 * of_nat (i + 1)) else lh_block s ! i) [0..<length (lh_block s)]\<rparr>
          in brelse b s)"

definition head_bytes :: "int \<Rightarrow> u32 list \<Rightarrow> block \<Rightarrow> block" where
  "head_bytes n bl d = fold (\<lambda>i. put32 (4 * of_nat (i + 1)) (bl ! i)) [0..<nat n] (put32 0 (of_int n) d)"

definition write_head :: "'a log_scheme \<Rightarrow> 'a log_scheme outcome" where
  "write_head s =
     bnd (bread (lg_dev s) (lg_start s) s) (\<lambda>(b, s).
     if lh_n s > LOGSIZE then Fault
     else
       let s = set_data b (head_bytes (lh_n s) (lh_block s) (b_data (bufs s ! b))) s in
       bnd (bwrite b s) (\<lambda>s. brelse b s))"

definition recover_from_log :: "'a log_scheme \<Rightarrow> 'a log_scheme outcome" where
  "recover_from_log s =
     bnd (read_head s) (\<lambda>s.
     bnd (install_trans s) (\<lambda>s.
     write_head (s\<lparr>lh_n := 0\<rparr>)))"

text \<open>
  \<open>initlog\<close>: the words of the super block, block 1 of the disk, that it reads are \<open>nlog\<close> and \<open>logstart\<close>.
\<close>

definition initlog :: "u32 \<Rightarrow> 'a log_scheme \<Rightarrow> 'a log_scheme outcome" where
  "initlog dev s =
     bnd (bread dev 1 s) (\<lambda>(b, s).
     let sb = b_data (bufs s ! b) in
     bnd (brelse b s) (\<lambda>s.
     recover_from_log (s\<lparr>lg_start := get32 sb 16, lg_size := sint (get32 sb 12), lg_dev := dev\<rparr>)))"

definition begin_op :: "'a log_scheme \<Rightarrow> 'a log_scheme outcome" where
  "begin_op s =
     (if lg_committing s then Hang
      else if lh_n s + (lg_outstanding s + 1) * MAXOPBLOCKS > LOGSIZE then Hang
      else Ret (s\<lparr>lg_outstanding := lg_outstanding s + 1\<rparr>))"

definition write_log_turn :: "nat \<Rightarrow> 'a log_scheme \<Rightarrow> 'a log_scheme outcome" where
  "write_log_turn tail s =
     bnd (bread (lg_dev s) (lg_start s + of_nat tail + 1) s) (\<lambda>(to, s).
     if \<not> tail < length (lh_block s) then Fault
     else
       bnd (bread (lg_dev s) (lh_block s ! tail) s) (\<lambda>(fro, s).
       let s = set_data to (b_data (bufs s ! fro)) s in
       bnd (bwrite to s) (\<lambda>s.
       bnd (brelse fro s) (\<lambda>s. brelse to s))))"

definition write_log :: "'a log_scheme \<Rightarrow> 'a log_scheme outcome" where
  "write_log s = for_each write_log_turn [0..<nat (lh_n s)] s"

definition commit :: "'a log_scheme \<Rightarrow> 'a log_scheme outcome" where
  "commit s =
     (if lh_n s > 0
      then
        bnd (write_log s) (\<lambda>s.
        bnd (write_head s) (\<lambda>s.
        bnd (install_trans s) (\<lambda>s.
        write_head (s\<lparr>lh_n := 0\<rparr>))))
      else Ret s)"

definition end_op :: "'a log_scheme \<Rightarrow> 'a log_scheme outcome" where
  "end_op s =
     (let s = s\<lparr>lg_outstanding := lg_outstanding s - 1\<rparr> in
      if lg_committing s then Panic ''log.committing''
      else if lg_outstanding s = 0
      then bnd (commit (s\<lparr>lg_committing := True\<rparr>)) (\<lambda>s. Ret (s\<lparr>lg_committing := False\<rparr>))
      else Ret s)"

text \<open>\<open>log_write\<close>: a block that is in the log already is not entered again.\<close>

definition log_write :: "nat \<Rightarrow> 'a log_scheme \<Rightarrow> 'a log_scheme outcome" where
  "log_write b s =
     (if lh_n s \<ge> LOGSIZE \<or> lh_n s \<ge> lg_size s - 1 then Panic ''too big a transaction''
      else if lg_outstanding s < 1 then Panic ''log_write outside of trans''
      else
        let bn = b_blockno (bufs s ! b);
            i = (case first_index (\<lambda>x. x = bn) (take (nat (lh_n s)) (lh_block s)) of Some i \<Rightarrow> i | None \<Rightarrow> nat (lh_n s));
            s = s\<lparr>lh_block := (lh_block s)[i := bn]\<rparr>;
            s = (if int i = lh_n s then s\<lparr>lh_n := lh_n s + 1\<rparr> else s)
        in Ret (upd_buf b (\<lambda>x. x\<lparr>b_dirty := True\<rparr>) s))"

section \<open>Reading back what was written in a block\<close>

lemma add_neq_9: "a + 1 \<noteq> (a :: 9 word)" "a + 2 \<noteq> a" "a + 3 \<noteq> a"
  "a + 2 \<noteq> a + 1" "a + 3 \<noteq> a + 1" "a + 3 \<noteq> a + 2" "a \<noteq> a + 1" "a \<noteq> a + 2" "a \<noteq> a + 3"
  "a + 1 \<noteq> a + 2" "a + 1 \<noteq> a + 3" "a + 2 \<noteq> a + 3"
  by simp_all

lemma get32_put32 [simp]: "get32 (put32 a v d) a = v"
  using bytes_join [of v] by (simp add: get32_def put32_def add_neq_9)

lemma halves_join: "ucast (ucast v :: u8) OR push_bit 8 (ucast (ucast (drop_bit 8 (v :: u16)) :: u8)) = v" (is "?l = v")
proof (rule bit_word_eqI)
  fix n assume n: "n < LENGTH(16)"
  consider "n < 8" | "8 \<le> n" by linarith
  then show "bit ?l n = bit v n"
    using n by cases (auto simp: bit_or_iff bit_push_bit_iff bit_ucast_iff bit_drop_bit_eq)
qed

lemma get16_put16 [simp]: "get16 (put16 a v d) a = v"
  using halves_join [of v] by (simp add: get16_def put16_def add_neq_9)

text \<open>A field starts at byte \<open>i\<close>; two fields that do not overlap do not disturb one another.\<close>

abbreviation byte :: "nat \<Rightarrow> 9 word" where "byte i \<equiv> of_nat i"

lemma byte_eq: "i < 512 \<Longrightarrow> j < 512 \<Longrightarrow> byte i = byte j \<longleftrightarrow> i = j"
  by (auto simp: word_unat_eq_iff unat_of_nat take_bit_eq_mod)

lemma byte_add: "byte i + 1 = byte (i + 1)" "byte i + 2 = byte (i + 2)" "byte i + 3 = byte (i + 3)"
  by (simp_all add: algebra_simps)

lemma byte_neq: "i < 512 \<Longrightarrow> j < 512 \<Longrightarrow> i \<noteq> j \<Longrightarrow> byte i \<noteq> byte j"
  by (simp only: byte_eq) simp

lemma put32_elsewhere:
  assumes "i + 3 < 512" "k < 512" "k < i \<or> i + 3 < k"
  shows "put32 (byte i) v d (byte k) = d (byte k)"
proof -
  have "byte k \<noteq> byte i" "byte k \<noteq> byte (i + 1)" "byte k \<noteq> byte (i + 2)" "byte k \<noteq> byte (i + 3)"
    by (rule byte_neq; use assms in linarith)+
  then show ?thesis unfolding put32_def byte_add by (simp only: fun_upd_apply if_False)
qed

lemma put16_elsewhere:
  assumes "i + 1 < 512" "k < 512" "k < i \<or> i + 1 < k"
  shows "put16 (byte i) v d (byte k) = d (byte k)"
proof -
  have "byte k \<noteq> byte i" "byte k \<noteq> byte (i + 1)" by (rule byte_neq; use assms in linarith)+
  then show ?thesis unfolding put16_def byte_add by (simp only: fun_upd_apply if_False)
qed

lemma get32_cong:
  assumes "\<And>k. k < 4 \<Longrightarrow> d' (byte (j + k)) = d (byte (j + k))"
  shows "get32 d' (byte j) = get32 d (byte j)"
  using assms [of 0] assms [of 1] assms [of 2] assms [of 3] by (simp add: get32_def byte_add del: of_nat_add)

lemma get16_cong:
  assumes "\<And>k. k < 2 \<Longrightarrow> d' (byte (j + k)) = d (byte (j + k))"
  shows "get16 d' (byte j) = get16 d (byte j)"
  using assms [of 0] assms [of 1] by (simp add: get16_def byte_add del: of_nat_add)

lemma get32_put32_other:
  "i + 3 < 512 \<Longrightarrow> j + 3 < 512 \<Longrightarrow> i + 3 < j \<or> j + 3 < i \<Longrightarrow> get32 (put32 (byte i) v d) (byte j) = get32 d (byte j)"
  by (rule get32_cong, rule put32_elsewhere) auto

lemma get32_put16_other:
  "i + 1 < 512 \<Longrightarrow> j + 3 < 512 \<Longrightarrow> i + 1 < j \<or> j + 3 < i \<Longrightarrow> get32 (put16 (byte i) v d) (byte j) = get32 d (byte j)"
  by (rule get32_cong, rule put16_elsewhere) auto

lemma get16_put32_other:
  "i + 3 < 512 \<Longrightarrow> j + 1 < 512 \<Longrightarrow> i + 3 < j \<or> j + 1 < i \<Longrightarrow> get16 (put32 (byte i) v d) (byte j) = get16 d (byte j)"
  by (rule get16_cong, rule put32_elsewhere) auto

lemma get16_put16_other:
  "i + 1 < 512 \<Longrightarrow> j + 1 < 512 \<Longrightarrow> i + 1 < j \<or> j + 1 < i \<Longrightarrow> get16 (put16 (byte i) v d) (byte j) = get16 d (byte j)"
  by (rule get16_cong, rule put16_elsewhere) auto

lemma byte_4: "4 * of_nat (i + 1) = byte (4 * (i + 1))"
  by simp

text \<open>The header block: \<open>read_head\<close> finds what \<open>write_head\<close> stored.\<close>

lemma head_bytes_fold:
  assumes "k \<le> 30"
  shows "get32 (fold (\<lambda>i. put32 (4 * of_nat (i + 1)) (bl ! i)) [0..<k] d) 0 = get32 d 0"
    and "i < k \<Longrightarrow> get32 (fold (\<lambda>i. put32 (4 * of_nat (i + 1)) (bl ! i)) [0..<k] d) (4 * of_nat (i + 1)) = bl ! i"
  using assms
proof (induction k)
  case (Suc k)
  let ?d = "fold (\<lambda>i. put32 (4 * of_nat (i + 1)) (bl ! i)) [0..<k] d"
  {
    case 1
    have "get32 (put32 (byte (4 * (k + 1))) (bl ! k) ?d) (byte 0) = get32 ?d (byte 0)"
      using 1 by (intro get32_put32_other) auto
    then show ?case using Suc(1) 1 by (simp add: byte_4 [symmetric])
  next
    case 2
    show ?case
    proof (cases "i = k")
      case False
      have "get32 (put32 (byte (4 * (k + 1))) (bl ! k) ?d) (byte (4 * (i + 1))) = get32 ?d (byte (4 * (i + 1)))"
        using 2 False by (intro get32_put32_other) auto
      then show ?thesis using Suc(2) 2 False by (simp add: byte_4 [symmetric])
    qed simp
  }
qed simp_all

lemma head_bytes_spec:
  assumes "0 \<le> n" "n \<le> 30"
  shows "sint (get32 (head_bytes n bl d) 0) = n" "int i < n \<Longrightarrow> get32 (head_bytes n bl d) (4 * of_nat (i + 1)) = bl ! i"
proof -
  have "nat n \<le> 30" using assms by simp
  note F = head_bytes_fold [OF this, where bl = bl and d = "put32 0 (of_int n) d"]
  have "sint (of_int n :: u32) = n" using assms by (simp add: signed_of_int signed_take_bit_int_eq_self)
  then show "sint (get32 (head_bytes n bl d) 0) = n" unfolding head_bytes_def F(1) by simp
  show "int i < n \<Longrightarrow> get32 (head_bytes n bl d) (4 * of_nat (i + 1)) = bl ! i"
    unfolding head_bytes_def by (rule F(2)) simp
qed

section \<open>Copying a block to another\<close>

text \<open>Everything but the buffers and the disk is unchanged.\<close>

definition io_frame :: "'a bio_scheme \<Rightarrow> 'a bio_scheme \<Rightarrow> bool" where
  "io_frame s s' \<longleftrightarrow> my_pid s' = my_pid s \<and> disksize s' = disksize s \<and> bio.more s' = bio.more s"

lemma io_frame_refl [simp]: "io_frame s s"
  by (simp add: io_frame_def)

lemma io_frame_trans: "io_frame s s' \<Longrightarrow> io_frame s' s'' \<Longrightarrow> io_frame s s''"
  by (simp add: io_frame_def)

lemma only_bufs: "s' = s\<lparr>bufs := bufs s'\<rparr> \<Longrightarrow> io_frame s s' \<and> memdisk s' = memdisk s \<and> disk_writes s' = disk_writes s"
  by (cases s; cases s') (simp add: io_frame_def)

lemma io_frame_log:
  "io_frame s s' \<Longrightarrow> lg_start s' = lg_start s \<and> lg_size s' = lg_size s \<and> lg_outstanding s' = lg_outstanding s \<and>
     lg_committing s' = lg_committing s \<and> lg_dev s' = lg_dev s \<and> lh_n s' = lh_n s \<and> lh_block s' = lh_block s \<and> log.more s' = log.more s"
  by (cases s; cases s') (simp add: io_frame_def)

text \<open>A state in which no buffer is held.\<close>

definition quiet :: "'a bio_scheme \<Rightarrow> bool" where
  "quiet s \<longleftrightarrow> cache_ok s \<and> held s = {}"

lemma holds_other: "holds s b bn \<Longrightarrow> cache_ok s' \<Longrightarrow> core (bufs s' ! b) = core (bufs s ! b) \<Longrightarrow> holds s' b bn"
  by (auto simp: holds_def binds_def core_eq)

lemma unpinned_view:
  assumes ok: "cache_ok s" and np: "bn \<notin> pinned s" and free: "\<And>i. binds s i bn \<Longrightarrow> \<not> locked s i"
  shows "view s bn = memdisk s bn"
proof (cases "\<exists>i. binds s i bn \<and> b_valid (bufs s ! i)")
  case True
  then obtain i where i: "binds s i bn" "b_valid (bufs s ! i)" by blast
  then have "\<not> b_dirty (bufs s ! i)" using np by (auto simp: pinned_def)
  then have "b_data (bufs s ! i) = memdisk s bn"
    using cache_okD(2) [OF ok, of i] i free [OF i(1)] by (auto simp: buf_ok_def binds_def)
  then show ?thesis using view_cached [OF ok i] by simp
qed (use view_uncached [of s bn] in blast)

lemma quiet_unpinned: "quiet s \<Longrightarrow> bn \<notin> pinned s \<Longrightarrow> view s bn = memdisk s bn"
  by (rule unpinned_view) (auto simp: quiet_def held_def binds_def)

text \<open>In a quiet state the busy buffers are those of the pinned blocks.\<close>

lemma card_busy_le:
  assumes ok: "cache_ok s"
  shows "card (busy s) \<le> card (pinned s) + card (held s)"
proof -
  let ?D = "{i. i < NBUF \<and> b_dirty (bufs s ! i)}"
  have "busy s = ?D \<union> held s" by (auto simp: busy_def held_def)
  moreover have "card ?D \<le> card (pinned s)"
  proof (rule card_inj_on_le [of "\<lambda>i. b_blockno (bufs s ! i)"])
    have v: "binds s i (b_blockno (bufs s ! i))" if "i \<in> ?D" for i
      using that cache_okD(2) [OF ok, of i] by (auto simp: buf_ok_def binds_def)
    then show "inj_on (\<lambda>i. b_blockno (bufs s ! i)) ?D"
      by (intro inj_onI) (metis cache_okD(3) [OF ok])
    show "(\<lambda>i. b_blockno (bufs s ! i)) ` ?D \<subseteq> pinned s" using v by (auto simp: pinned_def)
    have "pinned s \<subseteq> (\<lambda>i. b_blockno (bufs s ! i)) ` {..<NBUF}" by (auto simp: pinned_def binds_def)
    then show "finite (pinned s)" by (rule finite_subset) simp
  qed
  ultimately show ?thesis using card_Un_le [of ?D "held s"] by simp
qed

text \<open>Two different blocks are read; both are held then.\<close>

lemma bread_two:
  assumes q: "quiet s" and n: "a \<noteq> c" "a < disksize s" "c < disksize s"
    and room: "card (pinned s) < NBUF" "c \<in> pinned s \<or> card (pinned s) + 1 < NBUF"
  shows "\<exists>x s1 y s2. bread 1 a s = Ret (x, s1) \<and> bread 1 c s1 = Ret (y, s2) \<and> x \<noteq> y \<and> holds s2 x a \<and> holds s2 y c \<and>
    held s2 = {x, y} \<and> view s2 = view s \<and> pinned s2 = pinned s \<and> io_frame s s1 \<and> io_frame s s2 \<and>
    memdisk s2 = memdisk s \<and> disk_writes s2 = disk_writes s \<and> (b_dirty (bufs s2 ! x) \<longleftrightarrow> a \<in> pinned s) \<and> (b_dirty (bufs s2 ! y) \<longleftrightarrow> c \<in> pinned s)"
proof -
  have ok: "cache_ok s" and h: "held s = {}" using q by (auto simp: quiet_def)
  have "card (busy s) < NBUF" using card_busy_le [OF ok] room(1) h by simp
  then obtain x s1 where 1: "bread 1 a s = Ret (x, s1)" "gets a x s s1"
    using bread_gets [OF ok n(2)] h by (auto simp: held_def binds_def)
  have ok1: "cache_ok s1" and h1: "held s1 = {x}" and p1: "pinned s1 = pinned s" and v1: "view s1 = view s"
    and s1: "s1 = s\<lparr>bufs := bufs s1\<rparr>" and b1: "binds s1 x a" and d1: "b_dirty (bufs s1 ! x) \<longleftrightarrow> a \<in> pinned s"
    using 1(2) h by (auto simp: gets_def)
  have f: "\<not> locked s1 i" if "binds s1 i c" for i
  proof
    assume "locked s1 i"
    then have "i = x" using that h1 by (auto simp: held_def binds_def)
    then show False using that b1 n(1) by (simp add: binds_def)
  qed
  have r: "card (busy s1) < NBUF \<or> (\<exists>i. binds s1 i c)"
  proof (cases "c \<in> pinned s")
    case True
    then show ?thesis using p1 by (auto simp: pinned_def)
  next
    case False
    then show ?thesis using room(2) card_busy_le [OF ok1] p1 h1 by auto
  qed
  have f1: "io_frame s s1 \<and> memdisk s1 = memdisk s \<and> disk_writes s1 = disk_writes s" by (rule only_bufs [OF s1])
  then have "c < disksize s1" using n(3) by (simp add: io_frame_def)
  then obtain y s2 where 2: "bread 1 c s1 = Ret (y, s2)" "gets c y s1 s2"
    using bread_gets [OF ok1 _ f r] by blast
  have xy: "x \<noteq> y" using 2(2) h1 by (auto simp: gets_def)
  have h2: "held s2 = {x, y}" "view s2 = view s" "pinned s2 = pinned s" "b_dirty (bufs s2 ! y) \<longleftrightarrow> c \<in> pinned s"
    using 2(2) h1 p1 v1 unfolding gets_def by auto
  have "holds s2 x a"
    using holds_other [OF gets_holds [OF 1(2)], of s2] 2(2) xy by (simp add: gets_def)
  moreover have "io_frame s s2 \<and> memdisk s2 = memdisk s \<and> disk_writes s2 = disk_writes s"
    using only_bufs only_bufs_trans [OF s1] 2(2) unfolding gets_def by blast
  moreover have "bufs s2 ! x = bufs s1 ! x" using 2(2) xy by (simp add: gets_def)
  ultimately show ?thesis
    using 1(1) 2(1) f1 xy gets_holds [OF 2(2)] h2 d1
    by (intro exI [of _ x] exI [of _ s1] exI [of _ y] exI [of _ s2]) simp
qed

text \<open>The buffer \<open>x\<close> gets the contents of \<open>y\<close> and is written; then both are released, \<open>y\<close> first.\<close>

lemma write_release:
  assumes x: "holds s x a" and y: "holds s y c" and xy: "x \<noteq> y" and h: "held s = {x, y}"
    and c: "b_dirty (bufs s ! y) \<or> view s c = memdisk s c" and ac: "a \<noteq> c"
  shows "\<exists>s1 s2 s3. bwrite x (set_data x d s) = Ret s1 \<and> brelse y s1 = Ret s2 \<and> brelse x s2 = Ret s3 \<and> quiet s3 \<and>
    view s3 = (view s)(a := d) \<and> pinned s3 = pinned s - {a} \<and>
    io_frame s s3 \<and> memdisk s3 = (memdisk s)(a := d) \<and> disk_writes s3 = (a, d) # disk_writes s"
proof -
  note D = set_data_spec [OF x, where d = d]
  let ?s = "set_data x d s"
  have D': "io_frame s ?s \<and> memdisk ?s = memdisk s \<and> disk_writes ?s = disk_writes s" by (rule only_bufs [OF D(8)])
  obtain s1 where s1: "bwrite x ?s = Ret s1" "holds s1 x a" "view s1 = view ?s" "held s1 = held ?s"
    "\<forall>j. j \<noteq> x \<longrightarrow> bufs s1 ! j = bufs ?s ! j" "\<not> b_dirty (bufs s1 ! x)" "pinned s1 = pinned ?s - {a}"
    and m1: "s1 = ?s\<lparr>bufs := bufs s1, memdisk := (memdisk ?s)(a := view ?s a), disk_writes := (a, view ?s a) # disk_writes ?s\<rparr>"
    using bwrite_spec [OF D(1)] by blast
  have "io_frame ?s s1 \<and> memdisk s1 = (memdisk ?s)(a := view ?s a) \<and> disk_writes s1 = (a, view ?s a) # disk_writes ?s"
    using m1 by (cases s1; cases ?s) (simp add: io_frame_def)
  then have F1: "io_frame s s1" "memdisk s1 = (memdisk s)(a := d)" "disk_writes s1 = (a, d) # disk_writes s"
    using D' D(2) io_frame_trans by auto
  have "bufs s1 ! y = bufs s ! y" using s1(5) D(4) [of y] xy by simp
  then have y1: "holds s1 y c" "b_dirty (bufs s1 ! y) \<longleftrightarrow> b_dirty (bufs s ! y)"
    using holds_other [OF y, of s1] s1(2) by (auto simp: holds_def)
  have "b_dirty (bufs s1 ! y) \<or> view s1 c = memdisk s1 c" using c y1 s1(3) D(2) F1(2) ac by auto
  then obtain s2 where s2: "brelse y s1 = Ret s2" "cache_ok s2" "view s2 = view s1" "held s2 = held s1 - {y}"
    "pinned s2 = pinned s1" "\<forall>j<NBUF. j \<noteq> y \<longrightarrow> core (bufs s2 ! j) = core (bufs s1 ! j)" "s2 = s1\<lparr>bufs := bufs s2\<rparr>"
    using brelse_spec [OF y1(1)] by blast
  have F2: "io_frame s1 s2 \<and> memdisk s2 = memdisk s1 \<and> disk_writes s2 = disk_writes s1" by (rule only_bufs [OF s2(7)])
  have "x < NBUF" using x by (simp add: holds_def binds_def)
  then have x2: "holds s2 x a" using holds_other [OF s1(2) s2(2)] s2(6) xy by simp
  have "view s2 a = memdisk s2 a" using s2(3) s1(3) D(2) F2 F1 by simp
  then obtain s3 where s3: "brelse x s2 = Ret s3" "cache_ok s3" "view s3 = view s2" "held s3 = held s2 - {x}"
    "pinned s3 = pinned s2" "s3 = s2\<lparr>bufs := bufs s3\<rparr>"
    using brelse_spec [OF x2] by blast
  have F3: "io_frame s2 s3 \<and> memdisk s3 = memdisk s2 \<and> disk_writes s3 = disk_writes s2" by (rule only_bufs [OF s3(6)])
  have "held s3 = {}" using s3(4) s2(4) s1(4) D(3) h by auto
  moreover have "io_frame s s3" using F1(1) F2 F3 io_frame_trans by blast
  ultimately show ?thesis
    using s1(1,3,7) s2(1,3,5) s3(1-3,5) D(2,6) F1 F2 F3 unfolding quiet_def by auto
qed

section \<open>Sequences of disk writes\<close>

definition apply_writes :: "(u32 \<times> block) list \<Rightarrow> (u32 \<Rightarrow> block) \<Rightarrow> u32 \<Rightarrow> block" where
  "apply_writes ws D = fold (\<lambda>(a, d) D. D(a := d)) ws D"

lemma apply_writes_simps [simp]:
  "apply_writes [] D = D" "apply_writes ((a, d) # ws) D = apply_writes ws (D(a := d))"
  "apply_writes (ws @ ws') D = apply_writes ws' (apply_writes ws D)"
  by (simp_all add: apply_writes_def)

lemma apply_writes_other: "a \<notin> fst ` set ws \<Longrightarrow> apply_writes ws D a = D a"
  by (induction ws arbitrary: D) auto

lemma apply_writes_nth:
  "distinct (map fst ws) \<Longrightarrow> (a, d) \<in> set ws \<Longrightarrow> apply_writes ws D a = d"
proof (induction ws arbitrary: D)
  case (Cons w ws)
  then show ?case by (cases w) (auto simp: apply_writes_other)
qed simp

text \<open>From \<open>s\<close> to \<open>s'\<close> the blocks \<open>W\<close> were written, in this order, and nothing else; no buffer is held.\<close>

definition writes :: "(u32 \<times> block) list \<Rightarrow> 'a bio_scheme \<Rightarrow> 'a bio_scheme \<Rightarrow> bool" where
  "writes W s s' \<longleftrightarrow> quiet s' \<and> my_pid s' = my_pid s \<and> disksize s' = disksize s \<and> memdisk s' = apply_writes W (memdisk s) \<and>
     view s' = apply_writes W (view s) \<and> disk_writes s' = rev W @ disk_writes s \<and> pinned s' = pinned s - fst ` set W"

lemma writes_trans: "writes W s s' \<Longrightarrow> writes W' s' s'' \<Longrightarrow> writes (W @ W') s s''"
  by (auto simp: writes_def)

lemma writes_Nil: "quiet s \<Longrightarrow> writes [] s s"
  by (simp add: writes_def)

lemma same_bio:
  assumes "bufs t = bufs s" "memdisk t = memdisk s" "my_pid t = my_pid s" "disksize t = disksize s"
  shows "cache_ok t = cache_ok s" "view t = view s" "pinned t = pinned s" "held t = held s" "quiet t = quiet s"
    "holds t b bn = holds s b bn"
proof -
  have b: "binds t = binds s" by (simp add: binds_def assms fun_eq_iff)
  have k: "buf_ok t = buf_ok s" by (simp add: buf_ok_def assms fun_eq_iff)
  show c: "cache_ok t = cache_ok s" unfolding cache_ok_def b k assms ..
  show "view t = view s" by (rule ext) (simp only: view_def assms)
  show "pinned t = pinned s" unfolding pinned_def b assms ..
  show h: "held t = held s" unfolding held_def assms ..
  show "quiet t = quiet s" unfolding quiet_def c h ..
  show "holds t b bn = holds s b bn" unfolding holds_def c b assms ..
qed

lemma bread_one:
  assumes q: "quiet s" and n: "a < disksize s" and room: "card (pinned s) < NBUF"
  shows "\<exists>x s1. bread 1 a s = Ret (x, s1) \<and> gets a x s s1 \<and> holds s1 x a \<and> held s1 = {x} \<and> view s1 = view s \<and> pinned s1 = pinned s \<and>
    io_frame s s1 \<and> memdisk s1 = memdisk s \<and> disk_writes s1 = disk_writes s \<and> b_data (bufs s1 ! x) = view s a \<and>
    (b_dirty (bufs s1 ! x) \<or> view s1 a = memdisk s1 a)"
proof -
  have ok: "cache_ok s" and h: "held s = {}" using q by (auto simp: quiet_def)
  have "card (busy s) < NBUF" using card_busy_le [OF ok] room h by simp
  then obtain x s1 where 1: "bread 1 a s = Ret (x, s1)" "gets a x s s1"
    using bread_gets [OF ok n] h by (auto simp: held_def binds_def)
  then have "io_frame s s1 \<and> memdisk s1 = memdisk s \<and> disk_writes s1 = disk_writes s"
    using only_bufs unfolding gets_def by blast
  with 1 show ?thesis using h gets_holds [OF 1(2)] quiet_unpinned [OF q, of a] by (auto simp: gets_def)
qed

lemma release_one:
  assumes x: "holds s x a" and h: "held s = {x}" and c: "b_dirty (bufs s ! x) \<or> view s a = memdisk s a"
  shows "\<exists>s'. brelse x s = Ret s' \<and> writes [] s s' \<and> io_frame s s'"
proof -
  obtain s' where s': "brelse x s = Ret s'" "cache_ok s'" "view s' = view s" "held s' = held s - {x}" "pinned s' = pinned s"
    "s' = s\<lparr>bufs := bufs s'\<rparr>"
    using brelse_spec [OF x c] by blast
  from only_bufs [OF s'(6)] show ?thesis using s' h by (auto simp: writes_def quiet_def io_frame_def)
qed

lemma write_one:
  assumes x: "holds s x a" and h: "held s = {x}"
  shows "\<exists>s1 s2. bwrite x (set_data x d s) = Ret s1 \<and> brelse x s1 = Ret s2 \<and> writes [(a, d)] s s2 \<and> io_frame s s2"
proof -
  note D = set_data_spec [OF x, where d = d]
  let ?s = "set_data x d s"
  have D': "io_frame s ?s \<and> memdisk ?s = memdisk s \<and> disk_writes ?s = disk_writes s" by (rule only_bufs [OF D(8)])
  obtain s1 where s1: "bwrite x ?s = Ret s1" "holds s1 x a" "view s1 = view ?s" "held s1 = held ?s" "pinned s1 = pinned ?s - {a}"
    and m1: "s1 = ?s\<lparr>bufs := bufs s1, memdisk := (memdisk ?s)(a := view ?s a), disk_writes := (a, view ?s a) # disk_writes ?s\<rparr>"
    using bwrite_spec [OF D(1)] by blast
  have "io_frame ?s s1 \<and> memdisk s1 = (memdisk ?s)(a := view ?s a) \<and> disk_writes s1 = (a, view ?s a) # disk_writes ?s"
    using m1 by (cases s1; cases ?s) (simp add: io_frame_def)
  then have F1: "io_frame s s1" "memdisk s1 = (memdisk s)(a := d)" "disk_writes s1 = (a, d) # disk_writes s"
    using D' D(2) io_frame_trans by auto
  have "view s1 a = memdisk s1 a" "held s1 = {x}" using s1(3,4) D(2,3) F1(2) h by simp_all
  then obtain s2 where s2: "brelse x s1 = Ret s2" "writes [] s1 s2" "io_frame s1 s2" using release_one [OF s1(2)] by blast
  have "writes [(a, d)] s s2" using s2(2) F1 s1(3,5) D(2,6) by (auto simp: writes_def io_frame_def)
  with s1(1) s2 F1(1) io_frame_trans show ?thesis by blast
qed

lemma install_turn_spec:
  assumes q: "quiet s" and dev: "lg_dev s = 1" and t: "tail < length (lh_block s)"
    and a: "a = lg_start s + of_nat tail + 1" and c: "c = lh_block s ! tail"
    and n: "a \<noteq> c" "a < disksize s" "c < disksize s"
    and room: "card (pinned s) < NBUF" "c \<in> pinned s \<or> card (pinned s) + 1 < NBUF"
  shows "\<exists>s'. install_turn tail s = Ret s' \<and> writes [(c, view s a)] s s' \<and> io_frame s s'"
proof -
  obtain x s1 y s2 where r: "bread 1 a s = Ret (x, s1)" "bread 1 c s1 = Ret (y, s2)" "x \<noteq> y" "holds s2 x a" "holds s2 y c"
    "held s2 = {x, y}" "view s2 = view s" "pinned s2 = pinned s" "io_frame s s1" "io_frame s s2" "memdisk s2 = memdisk s"
    "disk_writes s2 = disk_writes s" "b_dirty (bufs s2 ! x) \<longleftrightarrow> a \<in> pinned s"
    using bread_two [OF q n room] by blast
  have src: "b_dirty (bufs s2 ! x) \<or> view s2 a = memdisk s2 a" using r(7,11,13) quiet_unpinned [OF q, of a] by auto
  have d: "b_data (bufs s2 ! x) = view s a" using holds_view [OF r(4)] r(7) by simp
  obtain s3 s4 s5 where w: "bwrite y (set_data y (view s a) s2) = Ret s3" "brelse x s3 = Ret s4" "brelse y s4 = Ret s5" "quiet s5"
    "view s5 = (view s2)(c := view s a)" "pinned s5 = pinned s2 - {c}" "io_frame s2 s5"
    "memdisk s5 = (memdisk s2)(c := view s a)" "disk_writes s5 = (c, view s a) # disk_writes s2"
    using write_release [OF r(5,4) r(3) [symmetric] _ src n(1) [symmetric], where d = "view s a"] r(6) by blast
  have "install_turn tail s = Ret s5"
    using r(1,2) w(1-3) d t a c dev io_frame_log [OF r(9)] by (simp add: install_turn_def)
  moreover have "io_frame s s5" using r(10) w(7) by (rule io_frame_trans)
  moreover from this have "writes [(c, view s a)] s s5"
    using w(4-9) r(7,8,11,12) by (simp add: writes_def io_frame_def)
  ultimately show ?thesis by blast
qed

lemma write_log_turn_spec:
  assumes q: "quiet s" and dev: "lg_dev s = 1" and t: "tail < length (lh_block s)"
    and a: "a = lg_start s + of_nat tail + 1" and c: "c = lh_block s ! tail"
    and n: "a \<noteq> c" "a < disksize s" "c < disksize s"
    and room: "card (pinned s) < NBUF" "c \<in> pinned s \<or> card (pinned s) + 1 < NBUF"
  shows "\<exists>s'. write_log_turn tail s = Ret s' \<and> writes [(a, view s c)] s s' \<and> io_frame s s'"
proof -
  obtain x s1 y s2 where r: "bread 1 a s = Ret (x, s1)" "bread 1 c s1 = Ret (y, s2)" "x \<noteq> y" "holds s2 x a" "holds s2 y c"
    "held s2 = {x, y}" "view s2 = view s" "pinned s2 = pinned s" "io_frame s s1" "io_frame s s2" "memdisk s2 = memdisk s"
    "disk_writes s2 = disk_writes s" "b_dirty (bufs s2 ! y) \<longleftrightarrow> c \<in> pinned s"
    using bread_two [OF q n room] by blast
  have src: "b_dirty (bufs s2 ! y) \<or> view s2 c = memdisk s2 c" using r(7,11,13) quiet_unpinned [OF q, of c] by auto
  have d: "b_data (bufs s2 ! y) = view s c" using holds_view [OF r(5)] r(7) by simp
  obtain s3 s4 s5 where w: "bwrite x (set_data x (view s c) s2) = Ret s3" "brelse y s3 = Ret s4" "brelse x s4 = Ret s5" "quiet s5"
    "view s5 = (view s2)(a := view s c)" "pinned s5 = pinned s2 - {a}" "io_frame s2 s5"
    "memdisk s5 = (memdisk s2)(a := view s c)" "disk_writes s5 = (a, view s c) # disk_writes s2"
    using write_release [OF r(4,5) r(3) r(6) src n(1), where d = "view s c"] by blast
  have "write_log_turn tail s = Ret s5"
    using r(1,2) w(1-3) d t a c dev io_frame_log [OF r(9)] by (simp add: write_log_turn_def)
  moreover have "io_frame s s5" using r(10) w(7) by (rule io_frame_trans)
  moreover from this have "writes [(a, view s c)] s s5"
    using w(4-9) r(7,8,11,12) by (simp add: writes_def io_frame_def)
  ultimately show ?thesis by blast
qed

section \<open>Committing\<close>

text \<open>
  The blocks of the log lie before the end of the disk; the blocks logged are others, distinct, and
  exactly those the cache has pinned. There are fewer than the cache has buffers, which is what
  leaves a buffer to read the log block into.
\<close>

definition log_block :: "'a log_scheme \<Rightarrow> nat \<Rightarrow> u32" where
  "log_block s i = lg_start s + of_nat i + 1"

definition log_region :: "'a log_scheme \<Rightarrow> u32 set" where
  "log_region s = {a. unat (lg_start s) \<le> unat a \<and> unat a < unat (lg_start s) + nat (lg_size s)}"

definition log_geometry :: "'a log_scheme \<Rightarrow> bool" where
  "log_geometry s \<longleftrightarrow> lg_dev s = 1 \<and> 1 \<le> lg_size s \<and> lg_size s \<le> LOGSIZE \<and>
     unat (lg_start s) + nat (lg_size s) \<le> unat (disksize s) \<and> length (lh_block s) = nat LOGSIZE"

definition logged :: "'a log_scheme \<Rightarrow> u32 list" where
  "logged s = take (nat (lh_n s)) (lh_block s)"

definition log_ok :: "'a log_scheme \<Rightarrow> bool" where
  "log_ok s \<longleftrightarrow> quiet s \<and> log_geometry s \<and> 0 \<le> lh_n s \<and> lh_n s < lg_size s \<and> distinct (logged s) \<and>
     pinned s = set (logged s) \<and> set (logged s) \<subseteq> {a. a < disksize s} - log_region s"

lemma log_consts: "LOGSIZE = 30" "MAXOPBLOCKS = 10" "NBUF = 30"
  by (simp_all add: LOGSIZE_def MAXOPBLOCKS_def NBUF_def)

lemma log_block_unat:
  assumes "log_geometry s" "i + 1 < nat (lg_size s)"
  shows "unat (log_block s i) = unat (lg_start s) + i + 1"
proof -
  have "unat (lg_start s) + (i + 1) < 4294967296"
    using assms unat_lt_32 [of "disksize s"] unfolding log_geometry_def by linarith
  moreover have "unat (of_nat (i + 1) :: u32) = i + 1" using assms unfolding log_geometry_def log_consts by (intro unat_of_nat_32) linarith
  ultimately have "unat (lg_start s + of_nat (i + 1)) = unat (lg_start s) + (i + 1)" by (subst unat_add_small) simp_all
  then show ?thesis by (simp add: log_block_def algebra_simps)
qed

lemma log_block_facts:
  assumes g: "log_geometry s" and i: "i + 1 < nat (lg_size s)"
  shows "log_block s i \<in> log_region s" "log_block s i < disksize s" "log_block s i \<noteq> lg_start s"
    "j + 1 < nat (lg_size s) \<Longrightarrow> log_block s i = log_block s j \<longleftrightarrow> i = j"
proof -
  note u = log_block_unat [OF g i]
  show "log_block s i \<in> log_region s" using u i by (simp add: log_region_def)
  show "log_block s i < disksize s" using g u i by (simp add: word_less_nat_alt log_geometry_def)
  show "log_block s i \<noteq> lg_start s" using u by (metis add.commute add_eq_self_zero add.assoc one_neq_zero add_is_0)
  show "log_block s i = log_block s j \<longleftrightarrow> i = j" if "j + 1 < nat (lg_size s)"
    using u log_block_unat [OF g that] by (metis add_right_cancel add_left_cancel)
qed

lemma log_start_facts:
  assumes g: "log_geometry s"
  shows "lg_start s \<in> log_region s" "lg_start s < disksize s"
  using g by (auto simp: log_geometry_def log_region_def word_less_nat_alt)

lemma io_frame_geometry: "io_frame s s' \<Longrightarrow> log_geometry s' = log_geometry s \<and> log_region s' = log_region s \<and> log_block s' = log_block s \<and> logged s' = logged s"
  using io_frame_log [of s s'] by (auto simp: log_geometry_def log_region_def log_block_def logged_def io_frame_def)

text \<open>The writes of \<open>write_log\<close> and of \<open>install_trans\<close>.\<close>

definition log_writes :: "'a log_scheme \<Rightarrow> (u32 \<Rightarrow> block) \<Rightarrow> nat \<Rightarrow> (u32 \<times> block) list" where
  "log_writes s V k = map (\<lambda>i. (log_block s i, V (logged s ! i))) [0..<k]"

definition home_writes :: "'a log_scheme \<Rightarrow> (u32 \<Rightarrow> block) \<Rightarrow> nat \<Rightarrow> (u32 \<times> block) list" where
  "home_writes s V k = map (\<lambda>i. (logged s ! i, V (log_block s i))) [0..<k]"

lemma logged_length:
  assumes "log_geometry s" "0 \<le> lh_n s" "lh_n s < lg_size s"
  shows "length (logged s) = nat (lh_n s)" "nat (lh_n s) < NBUF" "card (set (logged s)) < NBUF"
proof -
  have n: "nat (lh_n s) < 30" "length (lh_block s) = 30" using assms unfolding log_geometry_def log_consts by linarith+
  then show l: "length (logged s) = nat (lh_n s)" by (simp add: logged_def)
  show "nat (lh_n s) < NBUF" using n by (simp add: log_consts)
  then show "card (set (logged s)) < NBUF" using card_length [of "logged s"] l by linarith
qed

lemma logged_facts:
  assumes "log_geometry s" "0 \<le> lh_n s" "lh_n s < lg_size s" and i: "i < nat (lh_n s)"
  shows "i < length (lh_block s)" "logged s ! i = lh_block s ! i" "logged s ! i \<in> set (logged s)" "i + 1 < nat (lg_size s)"
    "length (logged s) = nat (lh_n s)"
proof -
  show l: "length (logged s) = nat (lh_n s)" by (rule logged_length [OF assms(1-3)])
  then show "logged s ! i \<in> set (logged s)" using i by simp
  show "i < length (lh_block s)" "i + 1 < nat (lg_size s)" using assms unfolding log_geometry_def log_consts by linarith+
  show "logged s ! i = lh_block s ! i" using i by (simp add: logged_def)
qed

lemma write_log_spec:
  assumes q: "quiet s" and g: "log_geometry s" and n: "0 \<le> lh_n s" "lh_n s < lg_size s"
    and p: "pinned s = set (logged s)" and m: "set (logged s) \<subseteq> {a. a < disksize s} - log_region s"
  shows "\<exists>s'. write_log s = Ret s' \<and> writes (log_writes s (view s) (nat (lh_n s))) s s' \<and> io_frame s s'"
proof -
  have small: "card (pinned s) < NBUF"
    unfolding p by (rule logged_length [OF g n])
  have "k \<le> nat (lh_n s) \<Longrightarrow> \<exists>s'. for_each write_log_turn [0..<k] s = Ret s' \<and> writes (log_writes s (view s) k) s s' \<and> io_frame s s'" for k
  proof (induction k)
    case 0
    then show ?case using writes_Nil [OF q] by (auto simp: log_writes_def)
  next
    case (Suc k)
    then obtain s1 where s1: "for_each write_log_turn [0..<k] s = Ret s1" "writes (log_writes s (view s) k) s s1" "io_frame s s1" by auto
    have k: "k < nat (lh_n s)" using Suc.prems by simp
    note K = logged_facts [OF g n k]
    have k': "i + 1 < nat (lg_size s)" if "i < k" for i using that K(4) by simp
    let ?a = "log_block s k" and ?c = "logged s ! k"
    have c: "?c < disksize s" "?c \<notin> log_region s" "?c \<in> pinned s" using m K(3) p by auto
    have W: "fst ` set (log_writes s (view s) k) = log_block s ` {..<k}" by (force simp: log_writes_def)
    have lr: "log_block s ` {..<k} \<subseteq> log_region s" using log_block_facts(1) [OF g] k' by auto
    then have pin: "pinned s1 = pinned s" using s1(2) m unfolding writes_def W p by auto
    have "?c \<notin> fst ` set (log_writes s (view s) k)" using c(2) lr unfolding W by blast
    then have "view s1 ?c = view s ?c" using s1(2) by (simp add: writes_def apply_writes_other)
    moreover have "\<exists>s2. write_log_turn k s1 = Ret s2 \<and> writes [(?a, view s1 ?c)] s1 s2 \<and> io_frame s1 s2"
    proof (rule write_log_turn_spec)
      show "quiet s1" using s1(2) by (simp add: writes_def)
      show "?a = lg_start s1 + of_nat k + 1" "?c = lh_block s1 ! k" "k < length (lh_block s1)" "lg_dev s1 = 1"
        using io_frame_log [OF s1(3)] K g by (auto simp: log_block_def log_geometry_def)
      show "?a \<noteq> ?c" using log_block_facts(1) [OF g K(4)] c(2) by auto
      show "?a < disksize s1" "?c < disksize s1" using log_block_facts(2) [OF g K(4)] c(1) s1(3) by (auto simp: io_frame_def)
      show "card (pinned s1) < NBUF" "?c \<in> pinned s1 \<or> card (pinned s1) + 1 < NBUF" using small c(3) by (auto simp: pin)
    qed
    ultimately obtain s2 where s2: "write_log_turn k s1 = Ret s2" "writes [(?a, view s ?c)] s1 s2" "io_frame s1 s2" by auto
    have "log_writes s (view s) (Suc k) = log_writes s (view s) k @ [(?a, view s ?c)]" by (simp add: log_writes_def)
    then show ?case using s1 s2 writes_trans io_frame_trans by (fastforce simp: for_each_append)
  qed
  then show ?thesis by (simp add: write_log_def)
qed

text \<open>\<open>install_trans\<close> in a state where the logged blocks are pinned, or the cache is nearly empty.\<close>

lemma install_trans_spec:
  assumes q: "quiet s" and g: "log_geometry s" and n: "0 \<le> lh_n s" "lh_n s < lg_size s"
    and p: "pinned s = set (logged s) \<or> pinned s = {}" and m: "set (logged s) \<subseteq> {a. a < disksize s} - log_region s"
    and d: "distinct (logged s)"
  shows "\<exists>s'. install_trans s = Ret s' \<and> writes (home_writes s (view s) (nat (lh_n s))) s s' \<and> io_frame s s'"
proof -
  have small: "card (pinned s) < NBUF"
    using logged_length(3) [OF g n] p by auto
  have "k \<le> nat (lh_n s) \<Longrightarrow> \<exists>s'. for_each install_turn [0..<k] s = Ret s' \<and> writes (home_writes s (view s) k) s s' \<and> io_frame s s'" for k
  proof (induction k)
    case 0
    then show ?case using writes_Nil [OF q] by (auto simp: home_writes_def)
  next
    case (Suc k)
    then obtain s1 where s1: "for_each install_turn [0..<k] s = Ret s1" "writes (home_writes s (view s) k) s s1" "io_frame s s1" by auto
    have k: "k < nat (lh_n s)" using Suc.prems by simp
    note K = logged_facts [OF g n k]
    let ?a = "log_block s k" and ?c = "logged s ! k"
    have c: "?c < disksize s" "?c \<notin> log_region s" using m K(3) by auto
    have a: "?a \<in> log_region s" by (rule log_block_facts(1) [OF g K(4)])
    have W: "fst ` set (home_writes s (view s) k) = (!) (logged s) ` {..<k}" by (force simp: home_writes_def)
    have "(!) (logged s) ` {..<k} \<subseteq> set (logged s)" using k K(5) by auto
    then have "?a \<notin> fst ` set (home_writes s (view s) k)" using a m W by auto
    then have "view s1 ?a = view s ?a" using s1(2) apply_writes_other by (auto simp: writes_def)
    moreover have "?c \<notin> (!) (logged s) ` {..<k}" using d k K(5) by (auto simp: nth_eq_iff_index_eq)
    then have pin: "?c \<in> pinned s1 \<or> pinned s1 = {}" using s1(2) p K(3) unfolding writes_def W by auto
    have "pinned s1 \<subseteq> pinned s" "finite (pinned s)" using s1(2) p by (auto simp: writes_def)
    then have small1: "card (pinned s1) < NBUF" using small card_mono le_less_trans by blast
    have "\<exists>s2. install_turn k s1 = Ret s2 \<and> writes [(?c, view s1 ?a)] s1 s2 \<and> io_frame s1 s2"
    proof (rule install_turn_spec)
      show "quiet s1" using s1(2) by (simp add: writes_def)
      show "?a = lg_start s1 + of_nat k + 1" "?c = lh_block s1 ! k" "k < length (lh_block s1)" "lg_dev s1 = 1"
        using io_frame_log [OF s1(3)] K g by (auto simp: log_block_def log_geometry_def)
      show "?a \<noteq> ?c" using a c(2) by auto
      show "?a < disksize s1" "?c < disksize s1" using log_block_facts(2) [OF g K(4)] c(1) s1(3) by (auto simp: io_frame_def)
      show "card (pinned s1) < NBUF" "?c \<in> pinned s1 \<or> card (pinned s1) + 1 < NBUF" using small1 pin by (auto simp: log_consts)
    qed
    ultimately obtain s2 where s2: "install_turn k s1 = Ret s2" "writes [(?c, view s ?a)] s1 s2" "io_frame s1 s2" by auto
    have "home_writes s (view s) (Suc k) = home_writes s (view s) k @ [(?c, view s ?a)]" by (simp add: home_writes_def)
    then show ?case using s1 s2 writes_trans io_frame_trans by (fastforce simp: for_each_append)
  qed
  then show ?thesis by (simp add: install_trans_def)
qed

lemma write_head_spec:
  assumes q: "quiet s" and g: "log_geometry s" and n: "lh_n s \<le> LOGSIZE" and room: "card (pinned s) < NBUF"
  shows "\<exists>s'. write_head s = Ret s' \<and> writes [(lg_start s, head_bytes (lh_n s) (lh_block s) (view s (lg_start s)))] s s' \<and> io_frame s s'"
proof -
  obtain x s1 where r: "bread 1 (lg_start s) s = Ret (x, s1)" "holds s1 x (lg_start s)" "held s1 = {x}" "view s1 = view s" "pinned s1 = pinned s"
    "io_frame s s1" "memdisk s1 = memdisk s" "disk_writes s1 = disk_writes s" "b_data (bufs s1 ! x) = view s (lg_start s)"
    using bread_one [OF q log_start_facts(2) [OF g] room] by blast
  let ?d = "head_bytes (lh_n s) (lh_block s) (view s (lg_start s))"
  obtain s2 s3 where w: "bwrite x (set_data x ?d s1) = Ret s2" "brelse x s2 = Ret s3" "writes [(lg_start s, ?d)] s1 s3" "io_frame s1 s3"
    using write_one [OF r(2,3), where d = ?d] by blast
  have "write_head s = Ret s3"
    using r(1,9) w(1,2) io_frame_log [OF r(6)] g n by (simp add: write_head_def log_geometry_def)
  moreover have "writes [(lg_start s, ?d)] s s3" using w(3) r(4-8) by (simp add: writes_def io_frame_def)
  ultimately show ?thesis using io_frame_trans [OF r(6) w(4)] by blast
qed

text \<open>All the writes of a commit: the log, the header, the home blocks, and the cleared header.\<close>

definition install_list :: "'a log_scheme \<Rightarrow> (u32 \<times> block) list" where
  "install_list s = map (\<lambda>a. (a, view s a)) (logged s)"

definition full_head :: "'a log_scheme \<Rightarrow> block" where
  "full_head s = head_bytes (lh_n s) (lh_block s) (view s (lg_start s))"

definition commit_writes :: "'a log_scheme \<Rightarrow> (u32 \<times> block) list" where
  "commit_writes s = log_writes s (view s) (nat (lh_n s)) @ [(lg_start s, full_head s)] @ install_list s @
     [(lg_start s, head_bytes 0 (lh_block s) (full_head s))]"

lemma writes_same:
  assumes "bufs t = bufs s" "memdisk t = memdisk s" "my_pid t = my_pid s" "disksize t = disksize s" "disk_writes t = disk_writes s"
  shows "writes W t s' = writes W s s'"
  using assms same_bio [OF assms(1-4)] by (simp add: writes_def)

lemma log_okD:
  assumes "log_ok s"
  shows "quiet s" "log_geometry s" "0 \<le> lh_n s" "lh_n s < lg_size s" "distinct (logged s)" "pinned s = set (logged s)"
    "set (logged s) \<subseteq> {a. a < disksize s} - log_region s"
  using assms unfolding log_ok_def by blast+

lemma log_writes_facts:
  assumes g: "log_geometry s" and n: "0 \<le> lh_n s" "lh_n s < lg_size s" and k: "k \<le> nat (lh_n s)"
  shows "fst ` set (log_writes s V k) = log_block s ` {..<k}" "log_block s ` {..<k} \<subseteq> log_region s - {lg_start s}"
    "i < k \<Longrightarrow> apply_writes (log_writes s V k) D (log_block s i) = V (logged s ! i)"
    "a \<notin> log_region s - {lg_start s} \<Longrightarrow> apply_writes (log_writes s V k) D a = D a"
proof -
  show W: "fst ` set (log_writes s V k) = log_block s ` {..<k}" by (force simp: log_writes_def)
  have k': "i + 1 < nat (lg_size s)" if "i < k" for i using logged_facts(4) [OF g n, of i] that k by simp
  show R: "log_block s ` {..<k} \<subseteq> log_region s - {lg_start s}"
    using log_block_facts(1,3) [OF g] k' by auto
  show "a \<notin> log_region s - {lg_start s} \<Longrightarrow> apply_writes (log_writes s V k) D a = D a"
    using R by (intro apply_writes_other) (auto simp: W)
  have "inj_on (log_block s) {0..<k}" using log_block_facts(4) [OF g] k' by (auto intro!: inj_onI)
  then have "distinct (map fst (log_writes s V k))" by (simp add: log_writes_def comp_def distinct_map)
  then show "i < k \<Longrightarrow> apply_writes (log_writes s V k) D (log_block s i) = V (logged s ! i)"
    by (intro apply_writes_nth) (auto simp: log_writes_def)
qed

lemma commit_spec:
  assumes ok: "log_ok s" and pos: "0 < lh_n s"
  shows "\<exists>s'. commit s = Ret s' \<and> writes (commit_writes s) s s' \<and> lh_n s' = 0 \<and> io_frame (s\<lparr>lh_n := 0\<rparr>) s'"
proof -
  note O = log_okD [OF ok]
  let ?n = "nat (lh_n s)"
  note L = log_writes_facts [OF O(2-4) order_refl]
  obtain s1 where s1: "write_log s = Ret s1" "writes (log_writes s (view s) ?n) s s1" "io_frame s s1"
    using write_log_spec [OF O(1-4,6,7)] by blast
  note E1 = io_frame_log [OF s1(3)] and G1 = io_frame_geometry [OF s1(3)]
  have p1: "pinned s1 = set (logged s)" using s1(2) L(2) O(7) unfolding writes_def L(1) O(6) by blast
  have v1: "view s1 (lg_start s) = view s (lg_start s)" using s1(2) L(4) by (simp add: writes_def)
  have small: "card (pinned s1) < NBUF" unfolding p1 by (rule logged_length [OF O(2-4)])
  have q1: "quiet s1" "log_geometry s1" "lh_n s1 \<le> LOGSIZE" using s1(2) G1 E1 O(2,4) by (simp_all add: writes_def log_geometry_def)
  have "head_bytes (lh_n s1) (lh_block s1) (view s1 (lg_start s1)) = full_head s" "lg_start s1 = lg_start s"
    using E1 v1 by (simp_all add: full_head_def)
  then obtain s2 where s2: "write_head s1 = Ret s2" "writes [(lg_start s, full_head s)] s1 s2" "io_frame s1 s2"
    using write_head_spec [OF q1 small] by metis
  have F2: "io_frame s s2" by (rule io_frame_trans [OF s1(3) s2(3)])
  note E2 = io_frame_log [OF F2] and G2 = io_frame_geometry [OF F2]
  have nr: "lg_start s \<notin> set (logged s)" using O(7) log_start_facts(1) [OF O(2)] by blast
  have p2: "pinned s2 = set (logged s)" using s2(2) nr by (simp add: writes_def p1)
  have v2: "view s2 (log_block s i) = view s (logged s ! i)" if "i < ?n" for i
    using s2(2) s1(2) L(2,3) that by (auto simp: writes_def)
  have "\<exists>s3. install_trans s2 = Ret s3 \<and> writes (home_writes s2 (view s2) (nat (lh_n s2))) s2 s3 \<and> io_frame s2 s3"
  proof (rule install_trans_spec)
    show "quiet s2" using s2(2) by (simp add: writes_def)
    show "set (logged s2) \<subseteq> {a. a < disksize s2} - log_region s2" using O(7) G2 F2 by (simp add: io_frame_def)
  qed (use O E2 G2 p2 in simp_all)
  moreover have "home_writes s2 (view s2) (nat (lh_n s2)) = install_list s"
    using v2 E2 G2 logged_length(1) [OF O(2-4)] by (auto simp: home_writes_def install_list_def list_eq_iff_nth_eq)
  ultimately obtain s3 where s3: "install_trans s2 = Ret s3" "writes (install_list s) s2 s3" "io_frame s2 s3" by auto
  have F3: "io_frame s s3" by (rule io_frame_trans [OF F2 s3(3)])
  note E3 = io_frame_log [OF F3] and G3 = io_frame_geometry [OF F3]
  let ?t = "s3\<lparr>lh_n := 0\<rparr>"
  have t: "bufs ?t = bufs s3" "memdisk ?t = memdisk s3" "my_pid ?t = my_pid s3" "disksize ?t = disksize s3" "disk_writes ?t = disk_writes s3"
    by simp_all
  note T = same_bio [OF t(1-4)]
  have fs: "fst ` set (install_list s) = set (logged s)" by (force simp: install_list_def)
  have v3: "view s3 (lg_start s) = full_head s" using s3(2) s2(2) nr by (simp add: writes_def apply_writes_other fs)
  have "pinned s3 = {}" "quiet s3" using s3(2) by (simp_all add: writes_def p2 fs)
  then have q3: "quiet ?t" "log_geometry ?t" "lh_n ?t \<le> LOGSIZE" "card (pinned ?t) < NBUF"
    using T(3,5) G3 O(2) E3 by (simp_all add: log_geometry_def log_consts)
  have "head_bytes (lh_n ?t) (lh_block ?t) (view ?t (lg_start ?t)) = head_bytes 0 (lh_block s) (full_head s)" "lg_start ?t = lg_start s"
    using E3 T(2) v3 by simp_all
  then obtain s4 where s4: "write_head ?t = Ret s4" "writes [(lg_start s, head_bytes 0 (lh_block s) (full_head s))] ?t s4" "io_frame ?t s4"
    using write_head_spec [OF q3] by metis
  have W4: "writes [(lg_start s, head_bytes 0 (lh_block s) (full_head s))] s3 s4" using s4(2) writes_same [OF t] by blast
  have "writes (commit_writes s) s s4"
    unfolding commit_writes_def by (intro writes_trans [OF s1(2)] writes_trans [OF s2(2)] writes_trans [OF s3(2)] W4)
  moreover have "commit s = Ret s4" using pos s1(1) s2(1) s3(1) s4(1) by (simp add: commit_def)
  moreover have "io_frame (s\<lparr>lh_n := 0\<rparr>) ?t" using F3 by (cases s; cases s3) (simp add: io_frame_def)
  then have "io_frame (s\<lparr>lh_n := 0\<rparr>) s4" using s4(3) by (rule io_frame_trans)
  moreover have "lh_n s4 = 0" using io_frame_log [OF s4(3)] by simp
  ultimately show ?thesis by blast
qed

section \<open>Recovery\<close>

lemma recover_spec:
  assumes q: "quiet r" and p: "pinned r = {}" and g: "log_geometry r"
    and n: "sint (get32 (memdisk r (lg_start r)) 0) = int n" "int n < lg_size r"
    and bl: "length bl = n" "\<And>i. i < n \<Longrightarrow> get32 (memdisk r (lg_start r)) (4 * of_nat (i + 1)) = bl ! i" "distinct bl"
      "set bl \<subseteq> {a. a < disksize r} - log_region r"
  shows "\<exists>r' h. recover_from_log r = Ret r' \<and> quiet r' \<and>
    memdisk r' = apply_writes (map (\<lambda>i. (bl ! i, memdisk r (log_block r i))) [0..<n] @ [(lg_start r, h)]) (memdisk r) \<and> lh_n r' = 0"
proof -
  have v: "view r = memdisk r" using quiet_unpinned [OF q] p by auto
  have ls: "lg_dev r = 1" "length (lh_block r) = 30" "lg_size r \<le> 30" using g by (auto simp: log_geometry_def log_consts)
  have room: "card (pinned r) < NBUF" by (simp add: p log_consts)
  obtain x r1 where r: "bread 1 (lg_start r) r = Ret (x, r1)" "holds r1 x (lg_start r)" "held r1 = {x}" "view r1 = view r" "pinned r1 = pinned r"
    "io_frame r r1" "memdisk r1 = memdisk r" "disk_writes r1 = disk_writes r" "b_data (bufs r1 ! x) = view r (lg_start r)"
    "b_dirty (bufs r1 ! x) \<or> view r1 (lg_start r) = memdisk r1 (lg_start r)"
    using bread_one [OF q log_start_facts(2) [OF g] room] by blast
  let ?bl = "map (\<lambda>i. if i < n then get32 (memdisk r (lg_start r)) (4 * of_nat (i + 1)) else lh_block r1 ! i) [0..<length (lh_block r1)]"
  let ?t = "r1\<lparr>lh_n := int n, lh_block := ?bl\<rparr>"
  have t: "bufs ?t = bufs r1" "memdisk ?t = memdisk r1" "my_pid ?t = my_pid r1" "disksize ?t = disksize r1" "disk_writes ?t = disk_writes r1"
    by simp_all
  note T = same_bio [OF t(1-4)]
  obtain r2 where r2: "brelse x ?t = Ret r2" "writes [] ?t r2" "io_frame ?t r2"
  proof -
    have "holds ?t x (lg_start r)" "held ?t = {x}" "b_dirty (bufs ?t ! x) \<or> view ?t (lg_start r) = memdisk ?t (lg_start r)"
      using T(2,4,6) t r(2,3,10) by simp_all
    then show thesis using release_one [of ?t x "lg_start r"] that by blast
  qed
  have rh: "read_head r = Ret r2"
    using r(1,9) r2(1) n ls v by (simp add: read_head_def log_consts)
  note E2 = io_frame_log [OF r2(3)] and G2 = io_frame_geometry [OF r2(3)]
  note E1 = io_frame_log [OF r(6)]
  have lh: "lh_n r2 = int n" "lh_block r2 = ?bl" "lg_start r2 = lg_start r" "lg_size r2 = lg_size r" "lg_dev r2 = lg_dev r"
    using E2 E1 by simp_all
  have l1: "length (lh_block r1) = 30" using E1 ls by simp
  have lb: "logged r2 = bl"
  proof (rule nth_equalityI)
    have "n \<le> 30" using n(2) ls by simp
    then show "length (logged r2) = length bl" unfolding logged_def lh using bl(1) l1 by simp
    fix i assume "i < length (logged r2)"
    then have i: "i < n" "i < 30" unfolding logged_def lh using l1 by simp_all
    then show "logged r2 ! i = bl ! i" unfolding logged_def lh using l1 bl(2) [OF i(1)] by simp
  qed
  have dz: "disksize r2 = disksize r" using r(6) r2(3) by (simp add: io_frame_def)
  then have g2: "log_geometry r2" "log_region r2 = log_region r" "log_block r2 = log_block r" "lg_start r2 = lg_start r" "disksize r2 = disksize r"
    using g lh l1 ls unfolding log_geometry_def log_region_def log_block_def by (simp_all only: length_map length_upt) simp_all
  have w2: "quiet r2" "pinned r2 = {}" "memdisk r2 = memdisk r" "view r2 = memdisk r"
    using r2(2) T r(4,5,7) p v by (auto simp: writes_def)
  note n2 = lh(1)
  obtain r3 where r3: "install_trans r2 = Ret r3" "writes (home_writes r2 (view r2) n) r2 r3" "io_frame r2 r3"
  proof -
    have "lh_n r2 < lg_size r2" "pinned r2 = set (logged r2) \<or> pinned r2 = {}" "distinct (logged r2)"
      "set (logged r2) \<subseteq> {a. a < disksize r2} - log_region r2" "0 \<le> lh_n r2" "nat (lh_n r2) = n"
      using n2 n(2) lh(4) w2(2) lb bl(3,4) g2(2,5) by simp_all
    then show thesis using install_trans_spec [OF w2(1) g2(1)] that by metis
  qed
  let ?u = "r3\<lparr>lh_n := 0\<rparr>"
  have u: "bufs ?u = bufs r3" "memdisk ?u = memdisk r3" "my_pid ?u = my_pid r3" "disksize ?u = disksize r3" "disk_writes ?u = disk_writes r3"
    by simp_all
  note U = same_bio [OF u(1-4)]
  note E3 = io_frame_log [OF r3(3)] and G3 = io_frame_geometry [OF r3(3)]
  have "quiet ?u" "log_geometry ?u" "lh_n ?u \<le> LOGSIZE" "card (pinned ?u) < NBUF" "lg_start ?u = lg_start r"
    using r3(2) w2(2) U(3,5) G3 g2(1,4) E3 by (simp_all add: writes_def log_geometry_def log_consts)
  then obtain h r4 where r4: "write_head ?u = Ret r4" "writes [(lg_start r, h)] ?u r4" "io_frame ?u r4"
    using write_head_spec [of ?u] by metis
  have 1: "recover_from_log r = Ret r4" using rh r3(1) r4(1) by (simp add: recover_from_log_def)
  have "home_writes r2 (view r2) n = map (\<lambda>i. (bl ! i, memdisk r (log_block r i))) [0..<n]"
    by (simp add: home_writes_def lb g2 w2)
  then have 2: "memdisk r4 = apply_writes (map (\<lambda>i. (bl ! i, memdisk r (log_block r i))) [0..<n] @ [(lg_start r, h)]) (memdisk r)"
    using r4(2) r3(2) w2(3) by (simp add: writes_def)
  have 3: "lh_n r4 = 0" "quiet r4" using io_frame_log [OF r4(3)] r4(2) by (auto simp: writes_def)
  show ?thesis by (intro exI [of _ r4] exI [of _ h] conjI 1 2 3)
qed

section \<open>Changing a block in a transaction\<close>

lemma first_index_Some: "first_index P xs = Some i \<Longrightarrow> i < length xs \<and> P (xs ! i)"
proof -
  assume "first_index P xs = Some i"
  then obtain is' where "filter (\<lambda>i. P (xs ! i)) [0..<length xs] = i # is'"
    by (auto simp: first_index_def split: list.splits)
  then have "i \<in> set (filter (\<lambda>i. P (xs ! i)) [0..<length xs])" by (metis list.set_intros(1))
  then show ?thesis by simp
qed

lemma first_index_None: "first_index P xs = None \<Longrightarrow> x \<in> set xs \<Longrightarrow> \<not> P x"
  by (auto simp: first_index_def filter_empty_conv in_set_conv_nth split: list.splits)

text \<open>The fields of the log that only \<open>begin_op\<close> and \<open>end_op\<close> change, and those of the layers above.\<close>

definition txn_frame :: "'a log_scheme \<Rightarrow> 'a log_scheme \<Rightarrow> bool" where
  "txn_frame s s' \<longleftrightarrow> my_pid s' = my_pid s \<and> disksize s' = disksize s \<and> lg_start s' = lg_start s \<and> lg_size s' = lg_size s \<and>
     lg_outstanding s' = lg_outstanding s \<and> lg_committing s' = lg_committing s \<and> lg_dev s' = lg_dev s \<and>
     memdisk s' = memdisk s \<and> disk_writes s' = disk_writes s \<and> log.more s' = log.more s"

lemma txn_frame_refl [simp]: "txn_frame s s"
  by (simp add: txn_frame_def)

lemma txn_frame_trans: "txn_frame s s' \<Longrightarrow> txn_frame s' s'' \<Longrightarrow> txn_frame s s''"
  by (simp add: txn_frame_def)

lemma txn_frame_region: "txn_frame s s' \<Longrightarrow> log_region s' = log_region s"
  by (simp add: txn_frame_def log_region_def)

text \<open>Whether the log has the block already or not, it is logged exactly once.\<close>

lemma log_write_list:
  assumes g: "log_geometry s" and n: "0 \<le> lh_n s" "lh_n s + 1 < lg_size s" and d: "distinct (logged s)" and o: "1 \<le> lg_outstanding s"
  shows "\<exists>bl n'. log_write b s = Ret (upd_buf b (\<lambda>x. x\<lparr>b_dirty := True\<rparr>) (s\<lparr>lh_block := bl, lh_n := n'\<rparr>)) \<and>
    distinct (take (nat n') bl) \<and> set (take (nat n') bl) = insert (b_blockno (bufs s ! b)) (set (logged s)) \<and>
    length bl = length (lh_block s) \<and> lh_n s \<le> n' \<and> n' \<le> lh_n s + 1"
proof -
  let ?bn = "b_blockno (bufs s ! b)" and ?n = "nat (lh_n s)"
  have len: "length (lh_block s) = 30" "?n < 30" "lg_size s \<le> 30" using g n by (auto simp: log_geometry_def log_consts)
  show ?thesis
  proof (cases "first_index (\<lambda>x. x = ?bn) (logged s)")
    case (Some i)
    then have i: "i < length (logged s)" "logged s ! i = ?bn" using first_index_Some [OF Some] by auto
    then have i': "i < ?n" "lh_block s ! i = ?bn" by (auto simp: logged_def)
    have i3: "?bn \<in> set (logged s)" using i by (metis nth_mem)
    have "(lh_block s)[i := ?bn] = lh_block s" using i' by (metis list_update_id)
    moreover have "int i \<noteq> lh_n s" using i' by auto
    ultimately have "log_write b s = Ret (upd_buf b (\<lambda>x. x\<lparr>b_dirty := True\<rparr>) (s\<lparr>lh_block := lh_block s, lh_n := lh_n s\<rparr>))"
      using Some n o len by (simp add: log_write_def Let_def logged_def [symmetric] log_consts)
    then show ?thesis using d i' i3 by (intro exI [of _ "lh_block s"] exI [of _ "lh_n s"]) (auto simp: logged_def insert_absorb)
  next
    case None
    have nb: "?bn \<notin> set (logged s)" using first_index_None [OF None, of ?bn] by auto
    have tk: "take (nat (lh_n s + 1)) ((lh_block s)[?n := ?bn]) = logged s @ [?bn]"
      using n len by (simp add: nat_add_distrib take_Suc_conv_app_nth logged_def)
    have "log_write b s = Ret (upd_buf b (\<lambda>x. x\<lparr>b_dirty := True\<rparr>) (s\<lparr>lh_block := (lh_block s)[?n := ?bn], lh_n := lh_n s + 1\<rparr>))"
      using None n o len by (simp add: log_write_def Let_def logged_def [symmetric] log_consts)
    then show ?thesis using d nb tk by (intro exI [of _ "(lh_block s)[?n := ?bn]"] exI [of _ "lh_n s + 1"]) auto
  qed
qed

text \<open>The idiom of the file system: read a block, change it, \<open>log_write\<close> it, release it.\<close>

lemma log_update:
  assumes ok: "log_ok s" and o: "1 \<le> lg_outstanding s" and n: "lh_n s + 1 < lg_size s" and a: "a < disksize s" "a \<notin> log_region s"
  shows "\<exists>x s1. bread 1 a s = Ret (x, s1) \<and> b_data (bufs s1 ! x) = view s a \<and> txn_frame s s1 \<and>
    (\<forall>d. \<exists>s2 s3. log_write x (set_data x d s1) = Ret s2 \<and> brelse x s2 = Ret s3 \<and> log_ok s3 \<and> view s3 = (view s)(a := d) \<and>
      txn_frame s s3 \<and> lh_n s \<le> lh_n s3 \<and> lh_n s3 \<le> lh_n s + 1 \<and> pinned s3 = insert a (pinned s))"
proof -
  note O = log_okD [OF ok]
  have small: "card (pinned s) < NBUF" unfolding O(6) by (rule logged_length [OF O(2-4)])
  obtain x s1 where r: "bread 1 a s = Ret (x, s1)" "holds s1 x a" "held s1 = {x}" "view s1 = view s" "pinned s1 = pinned s"
    "io_frame s s1" "memdisk s1 = memdisk s" "disk_writes s1 = disk_writes s" "b_data (bufs s1 ! x) = view s a"
    using bread_one [OF O(1) a(1) small] by blast
  note E1 = io_frame_log [OF r(6)] and G1 = io_frame_geometry [OF r(6)]
  have "\<exists>s2 s3. log_write x (set_data x d s1) = Ret s2 \<and> brelse x s2 = Ret s3 \<and> log_ok s3 \<and> view s3 = (view s)(a := d) \<and>
      txn_frame s s3 \<and> lh_n s \<le> lh_n s3 \<and> lh_n s3 \<le> lh_n s + 1 \<and> pinned s3 = insert a (pinned s)" for d
  proof -
    let ?s = "set_data x d s1"
    have F: "io_frame s1 ?s" using only_bufs [OF set_data_spec(8) [OF r(2)]] by blast
    note E = io_frame_log [OF F] and G = io_frame_geometry [OF F]
    have x: "b_blockno (bufs ?s ! x) = a"
      using set_data_spec(1) [OF r(2), of d] by (simp add: holds_def binds_def)
    obtain bl n' where w: "log_write x ?s = Ret (upd_buf x (\<lambda>x. x\<lparr>b_dirty := True\<rparr>) (?s\<lparr>lh_block := bl, lh_n := n'\<rparr>))"
      "distinct (take (nat n') bl)" "set (take (nat n') bl) = insert a (set (logged s))" "length bl = length (lh_block s)"
      "lh_n s \<le> n'" "n' \<le> lh_n s + 1"
      using log_write_list [of ?s x] O(2,3,5) o n E E1 G G1 x by auto
    let ?t = "upd_buf x (\<lambda>x. x\<lparr>b_dirty := True\<rparr>) (?s\<lparr>lh_block := bl, lh_n := n'\<rparr>)"
    have xl: "x < length (bufs s1)" using r(2) cache_ok_length [of s1] by (auto simp: holds_def binds_def)
    have bt: "bufs ?t = (bufs s1)[x := (bufs s1 ! x)\<lparr>b_data := d, b_dirty := True\<rparr>]"
      using xl by (simp add: set_data_def)
    have mt: "my_pid ?t = my_pid s1" "disksize ?t = disksize s1" "memdisk ?t = memdisk s1" "disk_writes ?t = disk_writes s1"
      by (simp_all add: set_data_def upd_buf_def)
    note U = holds_upd [OF r(2) bt mt(1,2)]
    have u: "holds ?t x a" "view ?t = (view s)(a := d)" "held ?t = {x}" "b_dirty (bufs ?t ! x)" "pinned ?t = insert a (pinned s)"
      using U(1-3,5,7) r(3-5) mt(3) by simp_all
    obtain s3 where s3: "brelse x ?t = Ret s3" "writes [] ?t s3" "io_frame ?t s3"
      using release_one [OF u(1,3)] u(4) by blast
    note E3 = io_frame_log [OF s3(3)]
    have lt: "lh_block ?t = bl" "lh_n ?t = n'" "lg_start ?t = lg_start s" "lg_size ?t = lg_size s" "lg_outstanding ?t = lg_outstanding s"
      "lg_committing ?t = lg_committing s" "lg_dev ?t = lg_dev s" "log.more ?t = log.more s"
      using E E1 by (simp_all add: upd_buf_def)
    have fr: "txn_frame s s3"
      using E3 lt s3(2) mt r(6-8) by (simp add: txn_frame_def writes_def io_frame_def)
    have lo: "logged s3 = take (nat n') bl" using E3 lt by (simp add: logged_def)
    have "log_geometry s3" using O(2) fr E3 lt w(4) by (simp add: log_geometry_def txn_frame_def)
    moreover have "pinned s3 = set (logged s3)" using s3(2) u(5) O(6) w(3) lo by (simp add: writes_def)
    moreover have "set (logged s3) \<subseteq> {a. a < disksize s3} - log_region s3"
      using O(7) a w(3) lo txn_frame_region [OF fr] fr by (auto simp: txn_frame_def)
    ultimately have "log_ok s3"
      using s3(2) E3 lt w(2,5,6) lo O(3) n fr by (simp add: log_ok_def writes_def txn_frame_def)
    moreover have "view s3 = (view s)(a := d)" using s3(2) u(2) by (simp add: writes_def)
    moreover have "pinned s3 = insert a (pinned s)" using s3(2) u(5) by (simp add: writes_def)
    ultimately show ?thesis using w(1,5,6) s3(1) fr E3 lt by metis
  qed
  moreover have "txn_frame s s1" using E1 r(6-8) by (simp add: txn_frame_def io_frame_def)
  ultimately show ?thesis using r(1,9) by blast
qed

text \<open>Reading a block leaves everything as it was.\<close>

lemma log_read:
  assumes ok: "log_ok s" and a: "a < disksize s"
  shows "\<exists>x s1 s2. bread 1 a s = Ret (x, s1) \<and> b_data (bufs s1 ! x) = view s a \<and> txn_frame s s1 \<and> brelse x s1 = Ret s2 \<and>
    log_ok s2 \<and> view s2 = view s \<and> txn_frame s s2 \<and> lh_n s2 = lh_n s"
proof -
  note O = log_okD [OF ok]
  have small: "card (pinned s) < NBUF" unfolding O(6) by (rule logged_length [OF O(2-4)])
  obtain x s1 where r: "bread 1 a s = Ret (x, s1)" "holds s1 x a" "held s1 = {x}" "view s1 = view s" "pinned s1 = pinned s"
    "io_frame s s1" "memdisk s1 = memdisk s" "disk_writes s1 = disk_writes s" "b_data (bufs s1 ! x) = view s a"
    "b_dirty (bufs s1 ! x) \<or> view s1 a = memdisk s1 a"
    using bread_one [OF O(1) a small] by blast
  obtain s2 where s2: "brelse x s1 = Ret s2" "writes [] s1 s2" "io_frame s1 s2" using release_one [OF r(2,3,10)] by blast
  have F: "io_frame s s2" by (rule io_frame_trans [OF r(6) s2(3)])
  note E1 = io_frame_log [OF r(6)] and E = io_frame_log [OF F] and G = io_frame_geometry [OF F]
  have "txn_frame s s1" "txn_frame s s2" using E1 E r(6-8) s2(2) F by (simp_all add: txn_frame_def io_frame_def writes_def)
  moreover have "log_ok s2" using s2(2) O E G r(5) F by (simp add: log_ok_def writes_def io_frame_def)
  moreover have "view s2 = view s" using s2(2) r(4) by (simp add: writes_def)
  ultimately show ?thesis using r(1,9) s2(1) E by blast
qed

section \<open>Crashes\<close>

text \<open>A kernel that has booted with disk \<open>D\<close>: an empty buffer cache, and the same geometry of the log.\<close>

definition booted :: "'a log_scheme \<Rightarrow> (u32 \<Rightarrow> block) \<Rightarrow> 'a log_scheme \<Rightarrow> bool" where
  "booted s D r \<longleftrightarrow> quiet r \<and> pinned r = {} \<and> memdisk r = D \<and> log_geometry r \<and> lg_start r = lg_start s \<and> lg_size r = lg_size s \<and>
     disksize r = disksize s"

lemma crash_states:
  assumes ok: "log_ok s" and k: "k \<le> length (commit_writes s)"
  defines "n \<equiv> nat (lh_n s)" and "D \<equiv> apply_writes (take k (commit_writes s)) (memdisk s)"
  shows "k \<le> n \<Longrightarrow> D (lg_start s) = memdisk s (lg_start s) \<and> (\<forall>a. a \<notin> log_region s \<longrightarrow> D a = memdisk s a)"
    "n < k \<Longrightarrow> k \<le> 2 * n + 1 \<Longrightarrow> D (lg_start s) = full_head s \<and> (\<forall>i<n. D (log_block s i) = view s (logged s ! i)) \<and>
       (\<forall>a. a \<notin> log_region s \<longrightarrow> a \<notin> set (logged s) \<longrightarrow> D a = memdisk s a)"
    "2 * n + 1 < k \<Longrightarrow> D (lg_start s) = head_bytes 0 (lh_block s) (full_head s) \<and> (\<forall>a. a \<notin> log_region s \<longrightarrow> D a = view s a)"
proof -
  note O = log_okD [OF ok]
  let ?L = "log_writes s (view s) n" and ?h = "(lg_start s, full_head s)" and ?I = "install_list s"
  have ll: "length ?L = n" "length ?I = n" using logged_length(1) [OF O(2-4)] by (simp_all add: log_writes_def install_list_def n_def)
  have C: "commit_writes s = ?L @ [?h] @ ?I @ [(lg_start s, head_bytes 0 (lh_block s) (full_head s))]"
    by (simp add: commit_writes_def n_def)
  have nr: "lg_start s \<notin> set (logged s)" using O(7) log_start_facts(1) [OF O(2)] by blast
  have fI: "fst ` set (take j ?I) \<subseteq> set (logged s)" for j
    using set_take_subset [of j ?I] by (auto simp: install_list_def dest!: in_set_takeD)
  have lk: "i < n \<Longrightarrow> log_block s i \<in> log_region s" for i
    using log_writes_facts(2) [OF O(2-4) order_refl] by (auto simp: n_def)
  have lk': "i < n \<Longrightarrow> log_block s i \<noteq> lg_start s" for i
    using log_writes_facts(2) [OF O(2-4) order_refl] by (auto simp: n_def)
  note L = log_writes_facts [OF O(2-4) order_refl, folded n_def]
  show "D (lg_start s) = memdisk s (lg_start s) \<and> (\<forall>a. a \<notin> log_region s \<longrightarrow> D a = memdisk s a)" if kn: "k \<le> n"
  proof -
    have "take k (commit_writes s) = log_writes s (view s) k" using kn ll unfolding C by (simp add: log_writes_def take_map)
    then show ?thesis using log_writes_facts(4) [OF O(2-4), of k] kn by (simp add: D_def n_def)
  qed
  show "D (lg_start s) = full_head s \<and> (\<forall>i<n. D (log_block s i) = view s (logged s ! i)) \<and>
       (\<forall>a. a \<notin> log_region s \<longrightarrow> a \<notin> set (logged s) \<longrightarrow> D a = memdisk s a)" if kn: "n < k" "k \<le> 2 * n + 1"
  proof -
    have "take k (commit_writes s) = ?L @ [?h] @ take (k - n - 1) ?I"
      using kn ll unfolding C by (simp add: take_Cons' split: if_splits)
    then have D: "D = apply_writes (take (k - n - 1) ?I) ((apply_writes ?L (memdisk s))(lg_start s := full_head s))"
      by (simp add: D_def)
    have out: "apply_writes (take (k - n - 1) ?I) E a = E a" if "a \<notin> set (logged s)" for E a
      using that fI by (intro apply_writes_other) blast
    have "D (lg_start s) = full_head s" unfolding D using out [OF nr] by simp
    moreover have "D (log_block s i) = view s (logged s ! i)" if "i < n" for i
    proof -
      have "log_block s i \<notin> set (logged s)" using lk [OF that] O(7) by blast
      then show ?thesis unfolding D using out lk' [OF that] L(3) [OF that] by simp
    qed
    moreover have "D a = memdisk s a" if "a \<notin> log_region s" "a \<notin> set (logged s)" for a
    proof -
      have "a \<noteq> lg_start s" using that(1) log_start_facts(1) [OF O(2)] by auto
      then show ?thesis unfolding D using out [OF that(2)] L(4) that(1) by simp
    qed
    ultimately show ?thesis by blast
  qed
  show "D (lg_start s) = head_bytes 0 (lh_block s) (full_head s) \<and> (\<forall>a. a \<notin> log_region s \<longrightarrow> D a = view s a)" if kn: "2 * n + 1 < k"
  proof -
    have "take k (commit_writes s) = commit_writes s" using kn ll unfolding C by simp
    then have D: "D = (apply_writes ?I ((apply_writes ?L (memdisk s))(lg_start s := full_head s)))(lg_start s := head_bytes 0 (lh_block s) (full_head s))"
      by (simp add: D_def C)
    have "D a = view s a" if a: "a \<notin> log_region s" for a
    proof -
      have ns: "a \<noteq> lg_start s" using a log_start_facts(1) [OF O(2)] by auto
      show ?thesis
      proof (cases "a \<in> set (logged s)")
        case True
        have "distinct (map fst ?I)" using O(5) by (simp add: install_list_def comp_def)
        then have "apply_writes ?I E a = view s a" for E using True by (intro apply_writes_nth) (auto simp: install_list_def)
        then show ?thesis unfolding D using ns by simp
      next
        case False
        then have "apply_writes ?I E a = E a" for E by (intro apply_writes_other) (auto simp: install_list_def)
        moreover have "view s a = memdisk s a" using quiet_unpinned [OF O(1)] O(6) False by auto
        ultimately show ?thesis unfolding D using ns L(4) a by simp
      qed
    qed
    then show ?thesis by (simp add: D)
  qed
qed

lemma recover_empty:
  assumes b: "booted s D r" and h: "sint (get32 (D (lg_start s)) 0) = 0"
  shows "\<exists>r'. recover_from_log r = Ret r' \<and> (\<forall>a. a \<notin> log_region s \<longrightarrow> memdisk r' a = D a)"
proof -
  have B: "quiet r" "pinned r = {}" "log_geometry r" "memdisk r = D" "lg_start r = lg_start s" "log_region r = log_region s"
    using b by (auto simp: booted_def log_region_def)
  have "int 0 < lg_size r" using B(3) by (simp add: log_geometry_def)
  then obtain r' h' where r': "recover_from_log r = Ret r'"
    "memdisk r' = apply_writes (map (\<lambda>i. ([] ! i, memdisk r (log_block r i))) [0..<0] @ [(lg_start r, h')]) (memdisk r)"
    using recover_spec [OF B(1-3), of 0 "[]"] h B by auto
  have "lg_start s \<in> log_region s" using log_start_facts(1) [OF B(3)] B by simp
  then show ?thesis using r' B(4,5) by auto
qed

text \<open>
  (C19) Crash atomicity: \<open>end_op\<close> of the last running operation commits everything it logged, and if
  the machine stops after any number of the disk writes it makes, recovery at the next boot
  succeeds and finds, outside of the log itself, either every block as it was before the
  transaction or every block as the transaction left it.
\<close>

theorem end_op_crash_atomic:
  assumes ok: "log_ok s" and op: "lg_outstanding s = 1" "\<not> lg_committing s" "0 < lh_n s"
    and empty: "sint (get32 (memdisk s (lg_start s)) 0) = 0"
  shows "\<exists>s' W. end_op s = Ret s' \<and> disk_writes s' = rev W @ disk_writes s \<and> lh_n s' = 0 \<and> pinned s' = {} \<and>
    (\<forall>a. a \<notin> log_region s \<longrightarrow> memdisk s' a = view s a) \<and>
    (\<forall>k r. k \<le> length W \<longrightarrow> booted s (apply_writes (take k W) (memdisk s)) r \<longrightarrow>
      (\<exists>r'. recover_from_log r = Ret r' \<and>
        ((\<forall>a. a \<notin> log_region s \<longrightarrow> memdisk r' a = memdisk s a) \<or>
         (\<forall>a. a \<notin> log_region s \<longrightarrow> memdisk r' a = view s a))))"
proof -
  note O = log_okD [OF ok]
  let ?t = "s\<lparr>lg_outstanding := 0, lg_committing := True\<rparr>" and ?n = "nat (lh_n s)"
  have t: "bufs ?t = bufs s" "memdisk ?t = memdisk s" "my_pid ?t = my_pid s" "disksize ?t = disksize s" "disk_writes ?t = disk_writes s"
    by simp_all
  note T = same_bio [OF t(1-4)]
  have d: "log_geometry ?t = log_geometry s" "log_region ?t = log_region s" "logged ?t = logged s" "log_block ?t = log_block s"
    by (simp_all add: log_geometry_def log_region_def logged_def log_block_def fun_eq_iff)
  have okt: "log_ok ?t" using ok unfolding log_ok_def T d by simp
  have W: "commit_writes ?t = commit_writes s"
    unfolding commit_writes_def log_writes_def install_list_def full_head_def T d by simp
  obtain s' where s': "commit ?t = Ret s'" "writes (commit_writes s) s s'" "lh_n s' = 0"
    using commit_spec [OF okt] op(3) writes_same [OF t] W by auto
  let ?W = "commit_writes s"
  have "end_op s = Ret (s'\<lparr>lg_committing := False\<rparr>)" using op s'(1) by (simp add: end_op_def)
  moreover have len: "2 * ?n + 1 < length ?W"
    using logged_length(1) [OF O(2-4)] by (simp add: commit_writes_def log_writes_def install_list_def)
  moreover have "\<forall>a. a \<notin> log_region s \<longrightarrow> memdisk s' a = view s a"
    using crash_states(3) [OF ok order_refl len] s'(2) by (simp add: writes_def)
  moreover have "pinned (s'\<lparr>lg_committing := False\<rparr>) = {}"
  proof -
    have "set (logged s) \<subseteq> fst ` set ?W" by (force simp: commit_writes_def install_list_def)
    then have "pinned s' = {}" using s'(2) O(6) by (auto simp: writes_def)
    then show ?thesis using same_bio(3) [of "s'\<lparr>lg_committing := False\<rparr>" s'] by simp
  qed
  moreover have "\<exists>r'. recover_from_log r = Ret r' \<and>
        ((\<forall>a. a \<notin> log_region s \<longrightarrow> memdisk r' a = memdisk s a) \<or> (\<forall>a. a \<notin> log_region s \<longrightarrow> memdisk r' a = view s a))"
    if k: "k \<le> length ?W" and b: "booted s (apply_writes (take k ?W) (memdisk s)) r" for k r
  proof -
    let ?D = "apply_writes (take k ?W) (memdisk s)"
    note S = crash_states [OF ok k]
    consider "k \<le> ?n" | "?n < k" "k \<le> 2 * ?n + 1" | "2 * ?n + 1 < k" by linarith
    then show ?thesis
    proof cases
      case 1
      then show ?thesis using recover_empty [OF b] S(1) empty by metis
    next
      case 3
      have "sint (get32 (?D (lg_start s)) 0) = 0" using S(3) [OF 3] head_bytes_spec(1) [of 0] by simp
      then show ?thesis using recover_empty [OF b] S(3) [OF 3] by metis
    next
      case 2
      note D = S(2) [OF 2]
      have B: "quiet r" "pinned r = {}" "log_geometry r" "memdisk r = ?D" "lg_start r = lg_start s" "log_region r = log_region s"
        "lg_size r = lg_size s" "disksize r = disksize s" "log_block r = log_block s"
        using b by (auto simp: booted_def log_region_def log_block_def fun_eq_iff)
      have n30: "lh_n s \<le> 30" using O(2-4) by (simp add: log_geometry_def log_consts)
      note H = head_bytes_spec [OF O(3) n30, where bl = "lh_block s" and d = "view s (lg_start s)", folded full_head_def]
      have 1: "sint (get32 (memdisk r (lg_start r)) 0) = int ?n" using D H(1) O(3) B by simp
      have 2: "int ?n < lg_size r" "length (logged s) = ?n" using O(3,4) B logged_length(1) [OF O(2-4)] by simp_all
      have 3: "get32 (memdisk r (lg_start r)) (4 * of_nat (i + 1)) = logged s ! i" if "i < ?n" for i
        using D H(2) [of i] B that logged_facts(2) [OF O(2-4) that] by simp
      obtain r' h where r': "recover_from_log r = Ret r'"
        "memdisk r' = apply_writes (map (\<lambda>i. (logged s ! i, memdisk r (log_block r i))) [0..<?n] @ [(lg_start r, h)]) (memdisk r)"
        using recover_spec [OF B(1-3) 1 2 3 O(5)] O(7) B by auto
      have I: "map (\<lambda>i. (logged s ! i, memdisk r (log_block r i))) [0..<?n] = install_list s"
        using D B 2(2) by (auto simp: install_list_def list_eq_iff_nth_eq)
      have "memdisk r' a = view s a" if a: "a \<notin> log_region s" for a
      proof -
        have ns: "a \<noteq> lg_start s" using a log_start_facts(1) [OF O(2)] by auto
        have e: "memdisk r' a = apply_writes (install_list s) ?D a" using r'(2) ns B unfolding I by simp
        show ?thesis
        proof (cases "a \<in> set (logged s)")
          case True
          have "distinct (map fst (install_list s))" using O(5) by (simp add: install_list_def comp_def)
          then show ?thesis unfolding e using True by (intro apply_writes_nth) (auto simp: install_list_def)
        next
          case False
          then have "a \<notin> fst ` set (install_list s)" by (auto simp: install_list_def)
          moreover have "view s a = memdisk s a" using quiet_unpinned [OF O(1)] O(6) False by auto
          ultimately show ?thesis unfolding e using D False a by (simp add: apply_writes_other)
        qed
      qed
      then show ?thesis using r'(1) by blast
    qed
  qed
  ultimately show ?thesis
    using s'(2,3) by (intro exI [of _ "s'\<lparr>lg_committing := False\<rparr>"] exI [of _ ?W]) (auto simp: writes_def)
qed

text \<open>A disk of 100 zero blocks with its log in blocks 2 to 31, just booted.\<close>

definition demo_log :: "(u32 \<Rightarrow> block) \<Rightarrow> log" where
  "demo_log D = \<lparr>my_pid = 1, disksize = 100, memdisk = D, disk_writes = [], bufs = replicate (NBUF + 1) zero_buf,
     lg_start = 2, lg_size = 30, lg_outstanding = 1, lg_committing = False, lg_dev = 1, lh_n = 0, lh_block = replicate 30 0\<rparr>"

lemma demo_log_facts:
  shows "quiet (binit (demo_log D))" "pinned (binit (demo_log D)) = {}" "log_geometry (binit (demo_log D))" "log_ok (binit (demo_log D))"
    "view (binit (demo_log D)) = D" "memdisk (binit (demo_log D)) = D" "disksize (binit (demo_log D)) = 100"
    "lg_start (binit (demo_log D)) = 2" "lg_size (binit (demo_log D)) = 30" "lg_outstanding (binit (demo_log D)) = 1"
    "\<not> lg_committing (binit (demo_log D))" "lh_n (binit (demo_log D)) = 0"
proof -
  have "zero_bio (demo_log D)" unfolding zero_bio_def demo_log_def by simp
  note I = binit_spec [OF this]
  have F: "io_frame (demo_log D) (binit (demo_log D)) \<and> memdisk (binit (demo_log D)) = memdisk (demo_log D) \<and> disk_writes (binit (demo_log D)) = disk_writes (demo_log D)"
    by (rule only_bufs [OF I(6)])
  then have E: "io_frame (demo_log D) (binit (demo_log D))" by blast
  note L = io_frame_log [OF E] and G = io_frame_geometry [OF E]
  show f: "memdisk (binit (demo_log D)) = D" "disksize (binit (demo_log D)) = 100" "lg_start (binit (demo_log D)) = 2" "lg_size (binit (demo_log D)) = 30"
    "lg_outstanding (binit (demo_log D)) = 1" "\<not> lg_committing (binit (demo_log D))" "lh_n (binit (demo_log D)) = 0"
    using F L by (simp_all add: demo_log_def io_frame_def)
  show q: "quiet (binit (demo_log D))" using I by (simp add: quiet_def)
  show p: "pinned (binit (demo_log D)) = {}" using I(3) by (auto simp: pinned_def binds_def busy_def)
  have "log_geometry (demo_log D)" by (simp add: demo_log_def log_geometry_def log_consts)
  then show g: "log_geometry (binit (demo_log D))" using G by simp
  show "view (binit (demo_log D)) = D" using I(4) by (simp add: demo_log_def)
  have "logged (binit (demo_log D)) = []" using f by (simp add: logged_def)
  then show "log_ok (binit (demo_log D))" using q p g f by (simp add: log_ok_def)
qed

theorem end_op_crash_atomic_witness:
  "\<exists>(s :: log) s' W. view s 50 = (\<lambda>_. 9) \<and> memdisk s 50 = (\<lambda>_. 0) \<and> end_op s = Ret s' \<and> memdisk s' 50 = (\<lambda>_. 9) \<and>
    disk_writes s' = rev W @ disk_writes s \<and>
    (\<forall>k\<le>length W. \<exists>(r :: log) r'. memdisk r = apply_writes (take k W) (memdisk s) \<and> recover_from_log r = Ret r' \<and>
      (memdisk r' 50 = (\<lambda>_. 0) \<or> memdisk r' 50 = (\<lambda>_. 9)))"
proof -
  let ?D = "(\<lambda>_ _. 0) :: u32 \<Rightarrow> block"
  note D = demo_log_facts [of ?D]
  let ?s0 = "binit (demo_log ?D)"
  have reg: "50 \<notin> log_region ?s0" using D by (simp add: log_region_def)
  obtain s where s: "log_ok s" "view s = (view ?s0)(50 := (\<lambda>_. 9))" "txn_frame ?s0 s" "lh_n s \<le> 1" "pinned s = insert 50 (pinned ?s0)"
    using log_update [OF D(4), of 50] D(7,9,10,12) reg by auto
  have fr: "lg_outstanding s = 1" "\<not> lg_committing s" "lg_start s = 2" "lg_size s = 30" "disksize s = 100" "memdisk s = ?D"
    using s(3) D by (auto simp: txn_frame_def)
  have "logged s \<noteq> []" using log_okD(6) [OF s(1)] s(5) by auto
  then have n: "0 < lh_n s" using log_okD(3) [OF s(1)] by (auto simp: logged_def intro: ccontr)
  have e: "sint (get32 (memdisk s (lg_start s)) 0) = 0" by (simp add: fr get32_def)
  obtain s' W where w: "end_op s = Ret s'" "disk_writes s' = rev W @ disk_writes s" "\<forall>a. a \<notin> log_region s \<longrightarrow> memdisk s' a = view s a"
    and c: "\<forall>k r. k \<le> length W \<longrightarrow> booted s (apply_writes (take k W) (memdisk s)) r \<longrightarrow>
      (\<exists>r'. recover_from_log r = Ret r' \<and>
        ((\<forall>a. a \<notin> log_region s \<longrightarrow> memdisk r' a = memdisk s a) \<or>
         (\<forall>a. a \<notin> log_region s \<longrightarrow> memdisk r' a = view s a)))"
    using end_op_crash_atomic [OF s(1) fr(1,2) n e] by blast
  have r50: "50 \<notin> log_region s" using fr by (simp add: log_region_def)
  have v: "view s 50 = (\<lambda>_. 9)" using s(2) by simp
  have "\<exists>(r :: log) r'. memdisk r = apply_writes (take k W) (memdisk s) \<and> recover_from_log r = Ret r' \<and>
      (memdisk r' 50 = (\<lambda>_. 0) \<or> memdisk r' 50 = (\<lambda>_. 9))" if k: "k \<le> length W" for k
  proof -
    let ?r = "binit (demo_log (apply_writes (take k W) (memdisk s)))"
    have b: "booted s (apply_writes (take k W) (memdisk s)) ?r" using fr by (simp add: booted_def demo_log_facts)
    obtain r' where r': "recover_from_log ?r = Ret r'" "(\<forall>a. a \<notin> log_region s \<longrightarrow> memdisk r' a = memdisk s a) \<or>
         (\<forall>a. a \<notin> log_region s \<longrightarrow> memdisk r' a = view s a)"
      using c k b by blast
    have m: "memdisk ?r = apply_writes (take k W) (memdisk s)" by (rule demo_log_facts(6))
    show ?thesis using r' r50 v fr(6) by (intro exI [of _ ?r] exI [of _ r'] conjI m r'(1)) auto
  qed
  moreover have "memdisk s' 50 = (\<lambda>_. 9)" using w(3) r50 v by simp
  moreover have "memdisk s 50 = (\<lambda>_. 0)" by (simp add: fr)
  ultimately show ?thesis using w(1,2) v by blast
qed



end
