(* ===== verification/Fs.thy ===== *)
theory Fs
  imports Log
begin

text \<open>
  The file system of \<^verbatim>\<open>fs.c\<close>, with \<^verbatim>\<open>create\<close> and \<^verbatim>\<open>isdirempty\<close> of \<^verbatim>\<open>sysfile.c\<close>, over the
  log: the block allocator and its bitmap, inodes on disk and in the inode cache, their contents,
  directories and path names. In-memory inodes are indices of \<^verbatim>\<open>icache.inode\<close>; a null
  pointer is \<open>None\<close>. A read returns the bytes it stores at its destination, a write takes the bytes
  at its source. The device switch is an argument of the operations that use it.
\<close>

unbundle bit_operations_syntax

section \<open>Data\<close>

record superblock =
  sb_size :: u32
  sb_nblocks :: u32
  sb_ninodes :: u32
  sb_nlog :: u32
  sb_logstart :: u32
  sb_inodestart :: u32
  sb_bmapstart :: u32

record inode =
  i_dev :: u32
  i_inum :: u32
  i_ref :: int
  i_lock :: sleeplock
  i_valid :: bool
  i_type :: u16
  i_major :: u16
  i_minor :: u16
  i_nlink :: u16
  i_size :: u32
  i_addrs :: "u32 list"

record stat =
  st_type :: u16
  st_dev :: u32
  st_ino :: u32
  st_nlink :: u16
  st_size :: u32

abbreviation T_DIR :: u16 where "T_DIR \<equiv> 1"
abbreviation T_FILE :: u16 where "T_FILE \<equiv> 2"
abbreviation T_DEV :: u16 where "T_DEV \<equiv> 3"

definition ROOTINO :: u32 where "ROOTINO = 1"
definition ROOTDEV :: u32 where "ROOTDEV = 1"
definition NDIRECT :: nat where "NDIRECT = 12"
definition NINDIRECT :: nat where "NINDIRECT = 128"
definition MAXFILE :: nat where "MAXFILE = NDIRECT + NINDIRECT"
definition NINODE :: nat where "NINODE = 50"
definition NDEV :: int where "NDEV = 10"
definition DIRSIZ :: nat where "DIRSIZ = 14"
definition IPB :: nat where "IPB = 8"
definition BPB :: nat where "BPB = 4096"

record fs = log +
  sb :: superblock
  icache :: "inode list"
  my_cwd :: "nat option"
  my_killed :: bool

definition IBLOCK :: "u32 \<Rightarrow> superblock \<Rightarrow> u32" where
  "IBLOCK i x = i div 8 + sb_inodestart x"

definition BBLOCK :: "u32 \<Rightarrow> superblock \<Rightarrow> u32" where
  "BBLOCK b x = b div 4096 + sb_bmapstart x"

definition upd_inode :: "nat \<Rightarrow> (inode \<Rightarrow> inode) \<Rightarrow> 'a fs_scheme \<Rightarrow> 'a fs_scheme" where
  "upd_inode ip f s = s\<lparr>icache := (icache s)[ip := f (icache s ! ip)]\<rparr>"

section \<open>Blocks\<close>

definition superblock_of :: "block \<Rightarrow> superblock" where
  "superblock_of d = \<lparr>sb_size = get32 d 0, sb_nblocks = get32 d 4, sb_ninodes = get32 d 8, sb_nlog = get32 d 12,
     sb_logstart = get32 d 16, sb_inodestart = get32 d 20, sb_bmapstart = get32 d 24\<rparr>"

definition readsb :: "u32 \<Rightarrow> 'a fs_scheme \<Rightarrow> (superblock \<times> 'a fs_scheme) outcome" where
  "readsb dev s =
     bnd (bread dev 1 s) (\<lambda>(bp, s).
     let x = superblock_of (b_data (bufs s ! bp)) in
     bnd (brelse bp s) (\<lambda>s. Ret (x, s)))"

definition bzero :: "u32 \<Rightarrow> u32 \<Rightarrow> 'a fs_scheme \<Rightarrow> 'a fs_scheme outcome" where
  "bzero dev bno s =
     bnd (bread dev bno s) (\<lambda>(bp, s).
     bnd (log_write bp (set_data bp (\<lambda>_. 0) s)) (\<lambda>s. brelse bp s))"

text \<open>The bit of block \<open>b + bi\<close> in the block of the bitmap that starts with block \<open>b\<close>.\<close>

definition in_use :: "block \<Rightarrow> nat \<Rightarrow> bool" where
  "in_use d bi \<longleftrightarrow> d (of_nat (bi div 8)) AND push_bit (bi mod 8) 1 \<noteq> 0"

definition mark_used :: "nat \<Rightarrow> block \<Rightarrow> block" where
  "mark_used bi d = d(of_nat (bi div 8) := d (of_nat (bi div 8)) OR push_bit (bi mod 8) 1)"

definition mark_free :: "nat \<Rightarrow> block \<Rightarrow> block" where
  "mark_free bi d = d(of_nat (bi div 8) := d (of_nat (bi div 8)) AND NOT (push_bit (bi mod 8) 1))"

text \<open>The outer loop of \<open>balloc\<close>, over the first blocks \<open>b\<close> of the blocks of the bitmap.\<close>

fun balloc_scan :: "nat list \<Rightarrow> u32 \<Rightarrow> 'a fs_scheme \<Rightarrow> (u32 \<times> 'a fs_scheme) outcome" where
  "balloc_scan [] dev s = Panic ''balloc: out of blocks''"
| "balloc_scan (b # bs) dev s =
     bnd (bread dev (BBLOCK (of_nat b) (sb s)) s) (\<lambda>(bp, s).
     case find (\<lambda>bi. \<not> in_use (b_data (bufs s ! bp)) bi) [0..<min BPB (unat (sb_size (sb s)) - b)] of
       Some bi \<Rightarrow>
         bnd (log_write bp (set_data bp (mark_used bi (b_data (bufs s ! bp))) s)) (\<lambda>s.
         bnd (brelse bp s) (\<lambda>s.
         bnd (bzero dev (of_nat (b + bi)) s) (\<lambda>s. Ret (of_nat (b + bi), s))))
     | None \<Rightarrow> bnd (brelse bp s) (balloc_scan bs dev))"

definition balloc :: "u32 \<Rightarrow> 'a fs_scheme \<Rightarrow> (u32 \<times> 'a fs_scheme) outcome" where
  "balloc dev s = balloc_scan (map (\<lambda>k. BPB * k) [0..<(unat (sb_size (sb s)) + BPB - 1) div BPB]) dev s"

definition bfree :: "u32 \<Rightarrow> u32 \<Rightarrow> 'a fs_scheme \<Rightarrow> 'a fs_scheme outcome" where
  "bfree dev b s =
     bnd (bread dev (BBLOCK b (sb s)) s) (\<lambda>(bp, s).
     let bi = unat b mod BPB in
     if \<not> in_use (b_data (bufs s ! bp)) bi then Panic ''freeing free block''
     else
       bnd (log_write bp (set_data bp (mark_free bi (b_data (bufs s ! bp))) s)) (\<lambda>s. brelse bp s))"

section \<open>Inodes\<close>

definition zero_inode :: inode where
  "zero_inode = \<lparr>i_dev = 0, i_inum = 0, i_ref = 0, i_lock = initsleeplock, i_valid = False, i_type = 0, i_major = 0,
     i_minor = 0, i_nlink = 0, i_size = 0, i_addrs = replicate (NDIRECT + 1) 0\<rparr>"

definition iinit :: "u32 \<Rightarrow> 'a fs_scheme \<Rightarrow> 'a fs_scheme outcome" where
  "iinit dev s =
     (let s = s\<lparr>icache := map (\<lambda>x. x\<lparr>i_lock := initsleeplock\<rparr>) (icache s)\<rparr> in
      bnd (readsb dev s) (\<lambda>(x, s). Ret (s\<lparr>sb := x\<rparr>)))"

text \<open>The on-disk inode at a byte offset of a block: four shorts, the size, and the addresses.\<close>

definition dinode_off :: "u32 \<Rightarrow> nat" where
  "dinode_off inum = 64 * (unat inum mod IPB)"

definition put_dinode :: "nat \<Rightarrow> inode \<Rightarrow> block \<Rightarrow> block" where
  "put_dinode i x d =
     (let d = put16 (of_nat i) (i_type x) d;
          d = put16 (of_nat (i + 2)) (i_major x) d;
          d = put16 (of_nat (i + 4)) (i_minor x) d;
          d = put16 (of_nat (i + 6)) (i_nlink x) d;
          d = put32 (of_nat (i + 8)) (i_size x) d
      in fold (\<lambda>k. put32 (of_nat (i + 12 + 4 * k)) (i_addrs x ! k)) [0..<NDIRECT + 1] d)"

definition get_dinode :: "block \<Rightarrow> nat \<Rightarrow> inode \<Rightarrow> inode" where
  "get_dinode d i x =
     x\<lparr>i_type := get16 d (of_nat i), i_major := get16 d (of_nat (i + 2)), i_minor := get16 d (of_nat (i + 4)),
       i_nlink := get16 d (of_nat (i + 6)), i_size := get32 d (of_nat (i + 8)),
       i_addrs := map (\<lambda>k. get32 d (of_nat (i + 12 + 4 * k))) [0..<NDIRECT + 1]\<rparr>"

definition new_dinode :: "nat \<Rightarrow> u16 \<Rightarrow> block \<Rightarrow> block" where
  "new_dinode i type d = put16 (of_nat i) type (\<lambda>j. if i \<le> unat j \<and> unat j < i + 64 then 0 else d j)"

definition iupdate :: "nat \<Rightarrow> 'a fs_scheme \<Rightarrow> 'a fs_scheme outcome" where
  "iupdate ip s =
     (let x = icache s ! ip in
      bnd (bread (i_dev x) (IBLOCK (i_inum x) (sb s)) s) (\<lambda>(bp, s).
      bnd (log_write bp (set_data bp (put_dinode (dinode_off (i_inum x)) x (b_data (bufs s ! bp))) s)) (\<lambda>s.
      brelse bp s)))"

definition iget :: "u32 \<Rightarrow> u32 \<Rightarrow> 'a fs_scheme \<Rightarrow> (nat \<times> 'a fs_scheme) outcome" where
  "iget dev inum s =
     (case first_index (\<lambda>x. i_ref x > 0 \<and> i_dev x = dev \<and> i_inum x = inum) (icache s) of
        Some ip \<Rightarrow> Ret (ip, upd_inode ip (\<lambda>x. x\<lparr>i_ref := i_ref x + 1\<rparr>) s)
      | None \<Rightarrow>
          (case first_index (\<lambda>x. i_ref x = 0) (icache s) of
             None \<Rightarrow> Panic ''iget: no inodes''
           | Some ip \<Rightarrow>
               Ret (ip, upd_inode ip (\<lambda>x. x\<lparr>i_dev := dev, i_inum := inum, i_ref := 1, i_valid := False\<rparr>) s)))"

fun ialloc_scan :: "u32 list \<Rightarrow> u32 \<Rightarrow> u16 \<Rightarrow> 'a fs_scheme \<Rightarrow> (nat \<times> 'a fs_scheme) outcome" where
  "ialloc_scan [] dev type s = Panic ''ialloc: no inodes''"
| "ialloc_scan (inum # inums) dev type s =
     bnd (bread dev (IBLOCK inum (sb s)) s) (\<lambda>(bp, s).
     if get16 (b_data (bufs s ! bp)) (of_nat (dinode_off inum)) = 0
     then
       bnd (log_write bp (set_data bp (new_dinode (dinode_off inum) type (b_data (bufs s ! bp))) s)) (\<lambda>s.
       bnd (brelse bp s) (\<lambda>s. iget dev inum s))
     else bnd (brelse bp s) (ialloc_scan inums dev type))"

definition ialloc :: "u32 \<Rightarrow> u16 \<Rightarrow> 'a fs_scheme \<Rightarrow> (nat \<times> 'a fs_scheme) outcome" where
  "ialloc dev type s = ialloc_scan (map of_nat [1..<unat (sb_ninodes (sb s))]) dev type s"

definition idup :: "nat \<Rightarrow> 'a fs_scheme \<Rightarrow> (nat \<times> 'a fs_scheme) outcome" where
  "idup ip s = Ret (ip, upd_inode ip (\<lambda>x. x\<lparr>i_ref := i_ref x + 1\<rparr>) s)"

definition lock_inode :: "nat \<Rightarrow> 'a fs_scheme \<Rightarrow> 'a fs_scheme outcome" where
  "lock_inode ip s =
     bnd (acquiresleep (my_pid s) (i_lock (icache s ! ip))) (\<lambda>lk. Ret (upd_inode ip (\<lambda>x. x\<lparr>i_lock := lk\<rparr>) s))"

definition ilock :: "nat option \<Rightarrow> 'a fs_scheme \<Rightarrow> 'a fs_scheme outcome" where
  "ilock ipo s =
     (case ipo of
        None \<Rightarrow> Panic ''ilock''
      | Some ip \<Rightarrow>
          if i_ref (icache s ! ip) < 1 then Panic ''ilock''
          else
            bnd (lock_inode ip s) (\<lambda>s.
            if i_valid (icache s ! ip) then Ret s
            else
              let x = icache s ! ip in
              bnd (bread (i_dev x) (IBLOCK (i_inum x) (sb s)) s) (\<lambda>(bp, s).
              let d = b_data (bufs s ! bp);
                  s = upd_inode ip (get_dinode d (dinode_off (i_inum x))) s
              in bnd (brelse bp s) (\<lambda>s.
                 let s = upd_inode ip (\<lambda>x. x\<lparr>i_valid := True\<rparr>) s in
                 if i_type (icache s ! ip) = 0 then Panic ''ilock: no type'' else Ret s))))"

definition iunlock :: "nat option \<Rightarrow> 'a fs_scheme \<Rightarrow> 'a fs_scheme outcome" where
  "iunlock ipo s =
     (case ipo of
        None \<Rightarrow> Panic ''iunlock''
      | Some ip \<Rightarrow>
          if \<not> holdingsleep (my_pid s) (i_lock (icache s ! ip)) \<or> i_ref (icache s ! ip) < 1 then Panic ''iunlock''
          else Ret (upd_inode ip (\<lambda>x. x\<lparr>i_lock := releasesleep (i_lock x)\<rparr>) s))"

section \<open>Inode contents\<close>

definition set_addr :: "nat \<Rightarrow> nat \<Rightarrow> u32 \<Rightarrow> 'a fs_scheme \<Rightarrow> 'a fs_scheme" where
  "set_addr ip k a s = upd_inode ip (\<lambda>x. x\<lparr>i_addrs := (i_addrs x)[k := a]\<rparr>) s"

text \<open>\<open>addr = ip->addrs[k]\<close>, allocated when it is 0.\<close>

definition addr_or_alloc :: "nat \<Rightarrow> nat \<Rightarrow> 'a fs_scheme \<Rightarrow> (u32 \<times> 'a fs_scheme) outcome" where
  "addr_or_alloc ip k s =
     (let a = i_addrs (icache s ! ip) ! k in
      if a = 0
      then bnd (balloc (i_dev (icache s ! ip)) s) (\<lambda>(a, s). Ret (a, set_addr ip k a s))
      else Ret (a, s))"

definition bmap :: "nat \<Rightarrow> u32 \<Rightarrow> 'a fs_scheme \<Rightarrow> (u32 \<times> 'a fs_scheme) outcome" where
  "bmap ip bn s =
     (if bn < of_nat NDIRECT then addr_or_alloc ip (unat bn) s
      else
        let bn = bn - of_nat NDIRECT in
        if bn < of_nat NINDIRECT
        then
          bnd (addr_or_alloc ip NDIRECT s) (\<lambda>(addr, s).
          bnd (bread (i_dev (icache s ! ip)) addr s) (\<lambda>(bp, s).
          let a = get32 (b_data (bufs s ! bp)) (4 * ucast bn) in
          if a = 0
          then
            bnd (balloc (i_dev (icache s ! ip)) s) (\<lambda>(a, s).
            bnd (log_write bp (set_data bp (put32 (4 * ucast bn) a (b_data (bufs s ! bp))) s)) (\<lambda>s.
            bnd (brelse bp s) (\<lambda>s. Ret (a, s))))
          else bnd (brelse bp s) (\<lambda>s. Ret (a, s))))
        else Panic ''bmap: out of range'')"

definition itrunc_direct :: "nat \<Rightarrow> nat \<Rightarrow> 'a fs_scheme \<Rightarrow> 'a fs_scheme outcome" where
  "itrunc_direct ip i s =
     (let a = i_addrs (icache s ! ip) ! i in
      if a \<noteq> 0 then bnd (bfree (i_dev (icache s ! ip)) a s) (\<lambda>s. Ret (set_addr ip i 0 s)) else Ret s)"

definition itrunc_indirect :: "nat \<Rightarrow> nat \<Rightarrow> nat \<Rightarrow> 'a fs_scheme \<Rightarrow> 'a fs_scheme outcome" where
  "itrunc_indirect ip bp j s =
     (let a = get32 (b_data (bufs s ! bp)) (4 * of_nat j) in
      if a \<noteq> 0 then bfree (i_dev (icache s ! ip)) a s else Ret s)"

definition itrunc :: "nat \<Rightarrow> 'a fs_scheme \<Rightarrow> 'a fs_scheme outcome" where
  "itrunc ip s =
     bnd (for_each (itrunc_direct ip) [0..<NDIRECT] s) (\<lambda>s.
     let a = i_addrs (icache s ! ip) ! NDIRECT in
     bnd (if a \<noteq> 0
          then
            bnd (bread (i_dev (icache s ! ip)) a s) (\<lambda>(bp, s).
            bnd (for_each (itrunc_indirect ip bp) [0..<NINDIRECT] s) (\<lambda>s.
            bnd (brelse bp s) (\<lambda>s.
            bnd (bfree (i_dev (icache s ! ip)) a s) (\<lambda>s. Ret (set_addr ip NDIRECT 0 s)))))
          else Ret s) (\<lambda>s.
     iupdate ip (upd_inode ip (\<lambda>x. x\<lparr>i_size := 0\<rparr>) s)))"

definition iput :: "nat \<Rightarrow> 'a fs_scheme \<Rightarrow> 'a fs_scheme outcome" where
  "iput ip s =
     bnd (lock_inode ip s) (\<lambda>s.
     bnd (if i_valid (icache s ! ip) \<and> i_nlink (icache s ! ip) = 0 \<and> i_ref (icache s ! ip) = 1
          then
            bnd (itrunc ip s) (\<lambda>s.
            bnd (iupdate ip (upd_inode ip (\<lambda>x. x\<lparr>i_type := 0\<rparr>) s)) (\<lambda>s.
            Ret (upd_inode ip (\<lambda>x. x\<lparr>i_valid := False\<rparr>) s)))
          else Ret s) (\<lambda>s.
     let s = upd_inode ip (\<lambda>x. x\<lparr>i_lock := releasesleep (i_lock x)\<rparr>) s in
     Ret (upd_inode ip (\<lambda>x. x\<lparr>i_ref := i_ref x - 1\<rparr>) s)))"

definition iunlockput :: "nat \<Rightarrow> 'a fs_scheme \<Rightarrow> 'a fs_scheme outcome" where
  "iunlockput ip s = bnd (iunlock (Some ip) s) (iput ip)"

definition stati :: "nat \<Rightarrow> 'a fs_scheme \<Rightarrow> stat" where
  "stati ip s =
     (let x = icache s ! ip in
      \<lparr>st_type = i_type x, st_dev = i_dev x, st_ino = i_inum x, st_nlink = i_nlink x, st_size = i_size x\<rparr>)"

text \<open>\<open>devsw\<close>: the functions of the devices, where a device has them.\<close>

record 's devsw =
  dev_read :: "nat \<Rightarrow> (nat \<Rightarrow> u32 \<Rightarrow> 's \<Rightarrow> (int \<times> u8 list \<times> 's) outcome) option"
  dev_write :: "nat \<Rightarrow> (nat \<Rightarrow> u8 list \<Rightarrow> 's \<Rightarrow> (int \<times> 's) outcome) option"

function readi_loop :: "nat \<Rightarrow> u32 \<Rightarrow> nat \<Rightarrow> 'a fs_scheme \<Rightarrow> (u8 list \<times> 'a fs_scheme) outcome" where
  "readi_loop ip off n s =
     (if n = 0 then Ret ([], s)
      else
        bnd (bmap ip (off div 512) s) (\<lambda>(a, s).
        bnd (bread (i_dev (icache s ! ip)) a s) (\<lambda>(bp, s).
        let m = min n (512 - unat off mod 512);
            bytes = map (\<lambda>i. b_data (bufs s ! bp) (of_nat (unat off mod 512 + i))) [0..<m]
        in bnd (brelse bp s) (\<lambda>s.
           bnd (readi_loop ip (off + of_nat m) (n - m) s) (\<lambda>(rest, s). Ret (bytes @ rest, s))))))"
  by pat_completeness auto
termination
proof (relation "measure (\<lambda>(ip, off, n, s). n)", simp, goal_cases)
  case (1 ip off n s x aa b xa ab ba xb bytes xc)
  then have "unat off mod 512 < 512" "0 < n" by simp_all
  with 1 show ?case by simp
qed

declare readi_loop.simps [simp del]

definition readi :: "'a fs_scheme devsw \<Rightarrow> nat \<Rightarrow> u32 \<Rightarrow> u32 \<Rightarrow> 'a fs_scheme \<Rightarrow> (int \<times> u8 list \<times> 'a fs_scheme) outcome" where
  "readi dv ip off n s =
     (let x = icache s ! ip in
      if i_type x = T_DEV
      then
        if sint (i_major x) < 0 \<or> sint (i_major x) \<ge> NDEV then Ret (-1, [], s)
        else (case dev_read dv (unat (i_major x)) of None \<Rightarrow> Ret (-1, [], s) | Some f \<Rightarrow> f ip n s)
      else if off > i_size x \<or> off + n < off then Ret (-1, [], s)
      else
        let n = (if off + n > i_size x then i_size x - off else n) in
        bnd (readi_loop ip off (unat n) s) (\<lambda>(bytes, s). Ret (sint n, bytes, s)))"

text \<open>The loop of \<open>writei\<close> over the bytes still to be written, returning the offset it ends with.\<close>

definition put_bytes_at :: "nat \<Rightarrow> u8 list \<Rightarrow> block \<Rightarrow> block" where
  "put_bytes_at o' bs d = (\<lambda>j. if o' \<le> unat j \<and> unat j < o' + length bs then bs ! (unat j - o') else d j)"

function writei_loop :: "nat \<Rightarrow> u8 list \<Rightarrow> u32 \<Rightarrow> 'a fs_scheme \<Rightarrow> (u32 \<times> 'a fs_scheme) outcome" where
  "writei_loop ip src off s =
     (if src = [] then Ret (off, s)
      else
        bnd (bmap ip (off div 512) s) (\<lambda>(a, s).
        bnd (bread (i_dev (icache s ! ip)) a s) (\<lambda>(bp, s).
        let m = min (length src) (512 - unat off mod 512) in
        bnd (log_write bp (set_data bp (put_bytes_at (unat off mod 512) (take m src) (b_data (bufs s ! bp))) s)) (\<lambda>s.
        bnd (brelse bp s) (\<lambda>s.
        writei_loop ip (drop m src) (off + of_nat m) s)))))"
  by pat_completeness auto
termination
proof (relation "measure (\<lambda>(ip, src, off, s). length src)", simp, goal_cases)
  case (1 ip src off s x aa b xa ab ba xb xc xd)
  then have "unat off mod 512 < 512" "0 < length src" by simp_all
  with 1 show ?case by simp
qed

declare writei_loop.simps [simp del]

definition writei :: "'a fs_scheme devsw \<Rightarrow> nat \<Rightarrow> u8 list \<Rightarrow> u32 \<Rightarrow> 'a fs_scheme \<Rightarrow> (int \<times> 'a fs_scheme) outcome" where
  "writei dv ip src off s =
     (let x = icache s ! ip; n = (of_nat (length src) :: u32) in
      if i_type x = T_DEV
      then
        if sint (i_major x) < 0 \<or> sint (i_major x) \<ge> NDEV then Ret (-1, s)
        else (case dev_write dv (unat (i_major x)) of None \<Rightarrow> Ret (-1, s) | Some f \<Rightarrow> f ip src s)
      else if off > i_size x \<or> off + n < off then Ret (-1, s)
      else if off + n > of_nat (MAXFILE * 512) then Ret (-1, s)
      else
        bnd (writei_loop ip src off s) (\<lambda>(off, s).
        bnd (if n > 0 \<and> off > i_size (icache s ! ip)
             then iupdate ip (upd_inode ip (\<lambda>x. x\<lparr>i_size := off\<rparr>) s)
             else Ret s) (\<lambda>s. Ret (sint n, s))))"

section \<open>Directories\<close>

definition namecmp :: "cstr \<Rightarrow> cstr \<Rightarrow> int" where
  "namecmp s t = strncmp s t DIRSIZ"

text \<open>The 16 bytes of a directory entry: the inode number and the name.\<close>

definition de_inum :: "u8 list \<Rightarrow> u16" where
  "de_inum de = ucast (de ! 0) OR push_bit 8 (ucast (de ! 1))"

definition de_name :: "u8 list \<Rightarrow> cstr" where
  "de_name de = (\<lambda>i. if i < DIRSIZ then de ! (2 + i) else 0)"

definition mk_dirent :: "u16 \<Rightarrow> cstr \<Rightarrow> u8 list" where
  "mk_dirent inum name = ucast inum # ucast (drop_bit 8 inum) # map name [0..<DIRSIZ]"

text \<open>The offsets of the entries of a directory of a given size, from \<open>start\<close> on.\<close>

definition dirent_offs :: "nat \<Rightarrow> u32 \<Rightarrow> u32 list" where
  "dirent_offs start sz = map (\<lambda>k. of_nat (16 * k)) [start..<(unat sz + 15) div 16]"

text \<open>\<open>readi(dp, (char*)&de, off, sizeof(de)) != sizeof(de)\<close> panics.\<close>

definition read_dirent :: "'a fs_scheme devsw \<Rightarrow> string \<Rightarrow> nat \<Rightarrow> u32 \<Rightarrow> 'a fs_scheme \<Rightarrow> (u8 list \<times> 'a fs_scheme) outcome" where
  "read_dirent dv msg dp off s =
     bnd (readi dv dp off 16 s) (\<lambda>(r, de, s). if r \<noteq> 16 then Panic msg else Ret (de, s))"

fun dirlookup_scan :: "u32 list \<Rightarrow> 'a fs_scheme devsw \<Rightarrow> nat \<Rightarrow> cstr \<Rightarrow> 'a fs_scheme \<Rightarrow> ((nat \<times> u32) option \<times> 'a fs_scheme) outcome" where
  "dirlookup_scan [] dv dp name s = Ret (None, s)"
| "dirlookup_scan (off # offs) dv dp name s =
     bnd (read_dirent dv ''dirlookup read'' dp off s) (\<lambda>(de, s).
     if de_inum de \<noteq> 0 \<and> namecmp name (de_name de) = 0
     then bnd (iget (i_dev (icache s ! dp)) (ucast (de_inum de)) s) (\<lambda>(ip, s). Ret (Some (ip, off), s))
     else dirlookup_scan offs dv dp name s)"

text \<open>\<open>dirlookup\<close> returns the inode and the offset of the entry.\<close>

definition dirlookup :: "'a fs_scheme devsw \<Rightarrow> nat \<Rightarrow> cstr \<Rightarrow> 'a fs_scheme \<Rightarrow> ((nat \<times> u32) option \<times> 'a fs_scheme) outcome" where
  "dirlookup dv dp name s =
     (if i_type (icache s ! dp) \<noteq> T_DIR then Panic ''dirlookup not DIR''
      else dirlookup_scan (dirent_offs 0 (i_size (icache s ! dp))) dv dp name s)"

text \<open>The offset of the first free entry, or of the end of the directory.\<close>

fun dirlink_scan :: "u32 list \<Rightarrow> u32 \<Rightarrow> 'a fs_scheme devsw \<Rightarrow> nat \<Rightarrow> 'a fs_scheme \<Rightarrow> (u32 \<times> 'a fs_scheme) outcome" where
  "dirlink_scan [] end_off dv dp s = Ret (end_off, s)"
| "dirlink_scan (off # offs) end_off dv dp s =
     bnd (read_dirent dv ''dirlink read'' dp off s) (\<lambda>(de, s).
     if de_inum de = 0 then Ret (off, s) else dirlink_scan offs end_off dv dp s)"

definition dirlink :: "'a fs_scheme devsw \<Rightarrow> nat \<Rightarrow> cstr \<Rightarrow> u32 \<Rightarrow> 'a fs_scheme \<Rightarrow> (int \<times> 'a fs_scheme) outcome" where
  "dirlink dv dp name inum s =
     bnd (dirlookup dv dp name s) (\<lambda>(r, s).
     case r of
       Some (ip, _) \<Rightarrow> bnd (iput ip s) (\<lambda>s. Ret (-1, s))
     | None \<Rightarrow>
         let sz = i_size (icache s ! dp) in
         bnd (dirlink_scan (dirent_offs 0 sz) (of_nat (16 * ((unat sz + 15) div 16))) dv dp s) (\<lambda>(off, s).
         bnd (writei dv dp (mk_dirent (ucast inum) (strncpy (\<lambda>_. 0) name DIRSIZ)) off s) (\<lambda>(r, s).
         if r \<noteq> 16 then Panic ''dirlink'' else Ret (0, s))))"

section \<open>Paths\<close>

text \<open>
  A path is the list of its characters. \<open>skipelem\<close> returns the rest of the path, or nothing when
  there is no element, and the new contents of \<open>name\<close>.
\<close>

abbreviation slash :: u8 where "slash \<equiv> 0x2F"

definition elem_name :: "u8 list \<Rightarrow> cstr \<Rightarrow> cstr" where
  "elem_name s name =
     (\<lambda>i. if i < min (length s) DIRSIZ then s ! i else if i = length s \<and> length s < DIRSIZ then 0 else name i)"

definition skipelem :: "u8 list \<Rightarrow> cstr \<Rightarrow> (u8 list \<times> cstr) option" where
  "skipelem path name =
     (let path = dropWhile (\<lambda>c. c = slash) path in
      if path = [] then None
      else Some (dropWhile (\<lambda>c. c = slash) (dropWhile (\<lambda>c. c \<noteq> slash) path),
                 elem_name (takeWhile (\<lambda>c. c \<noteq> slash) path) name))"

lemma skipelem_shorter: "skipelem path name = Some (rest, name') \<Longrightarrow> length rest < length path"
proof -
  assume a: "skipelem path name = Some (rest, name')"
  let ?p = "dropWhile (\<lambda>c. c = slash) path"
  from a have p: "?p \<noteq> []" and r: "rest = dropWhile (\<lambda>c. c = slash) (dropWhile (\<lambda>c. c \<noteq> slash) ?p)"
    by (auto simp: skipelem_def Let_def split: if_splits)
  then obtain c cs where c: "?p = c # cs" by (cases ?p) auto
  then have "c \<noteq> slash" by (metis (full_types) hd_dropWhile list.sel(1) p)
  have "length rest \<le> length cs"
    unfolding r c using \<open>c \<noteq> slash\<close> by (simp add: le_trans [OF length_dropWhile_le length_dropWhile_le])
  also have "\<dots> < length ?p" by (simp add: c)
  also have "\<dots> \<le> length path" by (rule length_dropWhile_le)
  finally show ?thesis .
qed

function namex_loop :: "'a fs_scheme devsw \<Rightarrow> nat \<Rightarrow> u8 list \<Rightarrow> bool \<Rightarrow> cstr \<Rightarrow> 'a fs_scheme \<Rightarrow> (nat option \<times> cstr \<times> 'a fs_scheme) outcome" where
  "namex_loop dv ip path parent name s =
     (case skipelem path name of
        None \<Rightarrow>
          if parent then bnd (iput ip s) (\<lambda>s. Ret (None, name, s)) else Ret (Some ip, name, s)
      | Some (path', name') \<Rightarrow>
          bnd (ilock (Some ip) s) (\<lambda>s.
          if i_type (icache s ! ip) \<noteq> T_DIR then bnd (iunlockput ip s) (\<lambda>s. Ret (None, name', s))
          else if parent \<and> path' = [] then bnd (iunlock (Some ip) s) (\<lambda>s. Ret (Some ip, name', s))
          else
            bnd (dirlookup dv ip name' s) (\<lambda>(r, s).
            case r of
              None \<Rightarrow> bnd (iunlockput ip s) (\<lambda>s. Ret (None, name', s))
            | Some (next, _) \<Rightarrow> bnd (iunlockput ip s) (\<lambda>s. namex_loop dv next path' parent name' s))))"
  by pat_completeness auto
termination
  by (relation "measure (\<lambda>(dv, ip, path, parent, name, s). length path)") (auto intro: skipelem_shorter)

declare namex_loop.simps [simp del]

text \<open>\<open>namex\<close>: a process whose current directory is null would follow it.\<close>

definition namex :: "'a fs_scheme devsw \<Rightarrow> u8 list \<Rightarrow> bool \<Rightarrow> cstr \<Rightarrow> 'a fs_scheme \<Rightarrow> (nat option \<times> cstr \<times> 'a fs_scheme) outcome" where
  "namex dv path parent name s =
     bnd (if path \<noteq> [] \<and> hd path = slash then iget ROOTDEV ROOTINO s
          else (case my_cwd s of None \<Rightarrow> Fault | Some cwd \<Rightarrow> idup cwd s)) (\<lambda>(ip, s).
     namex_loop dv ip path parent name s)"

definition namei :: "'a fs_scheme devsw \<Rightarrow> u8 list \<Rightarrow> 'a fs_scheme \<Rightarrow> (nat option \<times> 'a fs_scheme) outcome" where
  "namei dv path s = bnd (namex dv path False (\<lambda>_. 0) s) (\<lambda>(ip, _, s). Ret (ip, s))"

definition nameiparent :: "'a fs_scheme devsw \<Rightarrow> u8 list \<Rightarrow> 'a fs_scheme \<Rightarrow> (nat option \<times> cstr \<times> 'a fs_scheme) outcome" where
  "nameiparent dv path s = namex dv path True (\<lambda>_. 0) s"

section \<open>Creating and unlinking\<close>

fun isdirempty_scan :: "u32 list \<Rightarrow> 'a fs_scheme devsw \<Rightarrow> nat \<Rightarrow> 'a fs_scheme \<Rightarrow> (bool \<times> 'a fs_scheme) outcome" where
  "isdirempty_scan [] dv dp s = Ret (True, s)"
| "isdirempty_scan (off # offs) dv dp s =
     bnd (read_dirent dv ''isdirempty: readi'' dp off s) (\<lambda>(de, s).
     if de_inum de \<noteq> 0 then Ret (False, s) else isdirempty_scan offs dv dp s)"

definition isdirempty :: "'a fs_scheme devsw \<Rightarrow> nat \<Rightarrow> 'a fs_scheme \<Rightarrow> (bool \<times> 'a fs_scheme) outcome" where
  "isdirempty dv dp s = isdirempty_scan (dirent_offs 2 (i_size (icache s ! dp))) dv dp s"

definition cstr :: "u8 list \<Rightarrow> cstr" where
  "cstr cs = (\<lambda>i. if i < length cs then cs ! i else 0)"

definition dot :: cstr where "dot = cstr [0x2E]"
definition dotdot :: cstr where "dotdot = cstr [0x2E, 0x2E]"

text \<open>\<open>dp->nlink++; iupdate(dp)\<close> and the like.\<close>

definition set_nlink :: "nat \<Rightarrow> (u16 \<Rightarrow> u16) \<Rightarrow> 'a fs_scheme \<Rightarrow> 'a fs_scheme outcome" where
  "set_nlink ip f s = iupdate ip (upd_inode ip (\<lambda>x. x\<lparr>i_nlink := f (i_nlink x)\<rparr>) s)"

definition create_dots :: "'a fs_scheme devsw \<Rightarrow> nat \<Rightarrow> nat \<Rightarrow> 'a fs_scheme \<Rightarrow> 'a fs_scheme outcome" where
  "create_dots dv dp ip s =
     bnd (set_nlink dp (\<lambda>n. n + 1) s) (\<lambda>s.
     bnd (dirlink dv ip dot (i_inum (icache s ! ip)) s) (\<lambda>(r, s).
     if r < 0 then Panic ''create dots''
     else
       bnd (dirlink dv ip dotdot (i_inum (icache s ! dp)) s) (\<lambda>(r, s).
       if r < 0 then Panic ''create dots'' else Ret s)))"

definition create :: "'a fs_scheme devsw \<Rightarrow> u8 list \<Rightarrow> u16 \<Rightarrow> u16 \<Rightarrow> u16 \<Rightarrow> 'a fs_scheme \<Rightarrow> (nat option \<times> 'a fs_scheme) outcome" where
  "create dv path type major minor s =
     bnd (nameiparent dv path s) (\<lambda>(dpo, name, s).
     case dpo of
       None \<Rightarrow> Ret (None, s)
     | Some dp \<Rightarrow>
         bnd (ilock (Some dp) s) (\<lambda>s.
         bnd (dirlookup dv dp name s) (\<lambda>(r, s).
         case r of
           Some (ip, _) \<Rightarrow>
             bnd (iunlockput dp s) (\<lambda>s.
             bnd (ilock (Some ip) s) (\<lambda>s.
             if type = T_FILE \<and> i_type (icache s ! ip) = T_FILE then Ret (Some ip, s)
             else bnd (iunlockput ip s) (\<lambda>s. Ret (None, s))))
         | None \<Rightarrow>
             bnd (ialloc (i_dev (icache s ! dp)) type s) (\<lambda>(ip, s).
             bnd (ilock (Some ip) s) (\<lambda>s.
             bnd (iupdate ip (upd_inode ip (\<lambda>x. x\<lparr>i_major := major, i_minor := minor, i_nlink := 1\<rparr>) s)) (\<lambda>s.
             bnd (if type = T_DIR then create_dots dv dp ip s else Ret s) (\<lambda>s.
             bnd (dirlink dv dp name (i_inum (icache s ! ip)) s) (\<lambda>(r, s).
             if r < 0 then Panic ''create: dirlink''
             else bnd (iunlockput dp s) (\<lambda>s. Ret (Some ip, s))))))))))"

text \<open>
  The body of \<open>sys_unlink\<close>, which \<open>removeSwapFile\<close> has a copy of: within a transaction, with a path
  from the caller. The label \<open>bad\<close> releases the directory.
\<close>

definition unlink_bad :: "nat \<Rightarrow> 'a fs_scheme \<Rightarrow> (int \<times> 'a fs_scheme) outcome" where
  "unlink_bad dp s = bnd (iunlockput dp s) (\<lambda>s. bnd (end_op s) (\<lambda>s. Ret (-1, s)))"

definition unlink_entry :: "'a fs_scheme devsw \<Rightarrow> nat \<Rightarrow> nat \<Rightarrow> u32 \<Rightarrow> 'a fs_scheme \<Rightarrow> (int \<times> 'a fs_scheme) outcome" where
  "unlink_entry dv dp ip off s =
     bnd (writei dv dp (replicate 16 0) off s) (\<lambda>(r, s).
     if r \<noteq> 16 then Panic ''unlink: writei''
     else
       bnd (if i_type (icache s ! ip) = T_DIR then set_nlink dp (\<lambda>n. n - 1) s else Ret s) (\<lambda>s.
       bnd (iunlockput dp s) (\<lambda>s.
       bnd (set_nlink ip (\<lambda>n. n - 1) s) (\<lambda>s.
       bnd (iunlockput ip s) (\<lambda>s.
       bnd (end_op s) (\<lambda>s. Ret (0, s)))))))"

definition unlink_path :: "'a fs_scheme devsw \<Rightarrow> u8 list \<Rightarrow> 'a fs_scheme \<Rightarrow> (int \<times> 'a fs_scheme) outcome" where
  "unlink_path dv path s =
     bnd (begin_op s) (\<lambda>s.
     bnd (nameiparent dv path s) (\<lambda>(dpo, name, s).
     case dpo of
       None \<Rightarrow> bnd (end_op s) (\<lambda>s. Ret (-1, s))
     | Some dp \<Rightarrow>
         bnd (ilock (Some dp) s) (\<lambda>s.
         if namecmp name dot = 0 \<or> namecmp name dotdot = 0 then unlink_bad dp s
         else
           bnd (dirlookup dv dp name s) (\<lambda>(r, s).
           case r of
             None \<Rightarrow> unlink_bad dp s
           | Some (ip, off) \<Rightarrow>
               bnd (ilock (Some ip) s) (\<lambda>s.
               if sint (i_nlink (icache s ! ip)) < 1 then Panic ''unlink: nlink < 1''
               else
                 bnd (if i_type (icache s ! ip) = T_DIR then isdirempty dv ip s else Ret (True, s)) (\<lambda>(empty, s).
                 if \<not> empty then bnd (iunlockput ip s) (unlink_bad dp)
                 else unlink_entry dv dp ip off s))))))"

section \<open>Numbers as strings\<close>

text \<open>
  \<open>itoa\<close> writes the digits of a number that is not negative. The most negative \<^verbatim>\<open>int\<close> has no
  counterpart, and the digits would come from outside of the array.
\<close>

fun digits :: "nat \<Rightarrow> u8 list" where
  "digits n = (if n < 10 then [of_nat (48 + n)] else digits (n div 10) @ [of_nat (48 + n mod 10)])"

declare digits.simps [simp del]

definition itoa :: "int \<Rightarrow> u8 list outcome" where
  "itoa i =
     (if i = - (2 ^ 31) then Fault
      else if i < 0 then Ret (0x2D # digits (nat (- i)))
      else Ret (digits (nat i)))"

text \<open>The name of a process's swap file, \<^verbatim>\<open>/.swap\<close> and its pid, in an array of 14 characters.\<close>

definition swap_path :: "int \<Rightarrow> u8 list outcome" where
  "swap_path pid =
     bnd (itoa pid) (\<lambda>ds. if length ds > 7 then Fault else Ret ([0x2F, 0x2E, 0x73, 0x77, 0x61, 0x70] @ ds))"

section \<open>Numbers and names\<close>

definition undigits :: "u8 list \<Rightarrow> nat" where
  "undigits ds = foldl (\<lambda>a c. 10 * a + (unat c - 48)) 0 ds"

lemma unat_digit: "k < 10 \<Longrightarrow> unat (of_nat (48 + k) :: u8) = 48 + k"
  by (simp add: unat_of_nat del: of_nat_add)

lemma undigits_digits [simp]: "undigits (digits n) = n"
proof (induction n rule: digits.induct)
  case (1 n)
  show ?case
  proof (cases "n < 10")
    case True
    then show ?thesis by (subst digits.simps) (simp add: undigits_def unat_digit del: of_nat_add)
  next
    case False
    have "undigits (digits (n div 10) @ [of_nat (48 + n mod 10)]) = 10 * undigits (digits (n div 10)) + n mod 10"
      by (simp add: undigits_def unat_digit del: of_nat_add)
    then show ?thesis using 1 False by (subst digits.simps) simp
  qed
qed

lemma digits_set: "set (digits n) \<subseteq> {0x30..0x39}"
proof (induction n rule: digits.induct)
  case (1 n)
  have d: "of_nat (48 + k) \<in> {0x30..(0x39 :: u8)}" if "k < 10" for k
    using unat_digit [OF that] that by (simp add: word_le_nat_alt del: of_nat_add)
  show ?case
  proof (cases "n < 10")
    case True
    then show ?thesis using d [of n] by (subst digits.simps) (simp del: of_nat_add)
  next
    case False
    then show ?thesis using 1 d [of "n mod 10"] by (subst digits.simps) (simp del: of_nat_add)
  qed
qed

lemma digits_length: "n < 10 ^ k \<Longrightarrow> 0 < k \<Longrightarrow> length (digits n) \<le> k"
proof (induction n arbitrary: k rule: digits.induct)
  case (1 n)
  show ?case
  proof (cases "n < 10")
    case True
    then show ?thesis using 1(3) by (subst digits.simps) simp
  next
    case False
    then obtain j where k: "k = Suc j" "0 < j" using 1(2,3) by (cases k; cases "k - 1") auto
    then have "n div 10 < 10 ^ j" using 1(2) by (simp add: less_mult_imp_div_less mult.commute)
    then show ?thesis using 1(1) [OF False _ k(2)] False k by (subst digits.simps) simp
  qed
qed



section \<open>Inodes on disk\<close>

lemma dinode_off_lt: "dinode_off i + 64 \<le> 512"
proof -
  have "unat i mod IPB < 8" by (simp add: IPB_def)
  then show ?thesis by (simp add: dinode_off_def)
qed

lemma dinode_off_apart: "dinode_off i \<noteq> dinode_off j \<Longrightarrow> dinode_off i + 64 \<le> dinode_off j \<or> dinode_off j + 64 \<le> dinode_off i"
  by (auto simp: dinode_off_def)

lemma get32_fold_other:
  assumes "\<And>k. k \<in> set ks \<Longrightarrow> f k + 3 < i \<or> i + 3 < f k" "\<And>k. k \<in> set ks \<Longrightarrow> f k + 3 < 512" "i + 3 < 512"
  shows "get32 (fold (\<lambda>k. put32 (byte (f k)) (v k)) ks d) (byte i) = get32 d (byte i)"
  using assms
proof (induction ks arbitrary: d)
  case (Cons k ks)
  have "get32 (put32 (byte (f k)) (v k) d) (byte i) = get32 d (byte i)" for d
    using Cons.prems by (intro get32_put32_other) auto
  then show ?case using Cons by simp
qed simp

lemma get16_fold_other:
  assumes "\<And>k. k \<in> set ks \<Longrightarrow> f k + 3 < i \<or> i + 1 < f k" "\<And>k. k \<in> set ks \<Longrightarrow> f k + 3 < 512" "i + 1 < 512"
  shows "get16 (fold (\<lambda>k. put32 (byte (f k)) (v k)) ks d) (byte i) = get16 d (byte i)"
  using assms
proof (induction ks arbitrary: d)
  case (Cons k ks)
  have "get16 (put32 (byte (f k)) (v k) d) (byte i) = get16 d (byte i)" for d
    using Cons.prems by (intro get16_put32_other) auto
  then show ?case using Cons by simp
qed simp

lemma get32_fold_same:
  assumes "k < n" "\<And>k. k < n \<Longrightarrow> i + 4 * k + 3 < 512"
  shows "get32 (fold (\<lambda>k. put32 (byte (i + 4 * k)) (v k)) [0..<n] d) (byte (i + 4 * k)) = v k"
  using assms
proof (induction n)
  case (Suc n)
  show ?case
  proof (cases "k = n")
    case True
    then show ?thesis by (simp del: of_nat_add)
  next
    case False
    then have "k < n" using Suc.prems(1) by simp
    moreover from this have "get32 (put32 (byte (i + 4 * n)) (v n) e) (byte (i + 4 * k)) = get32 e (byte (i + 4 * k))" for e
      using Suc.prems by (intro get32_put32_other) auto
    ultimately show ?thesis using Suc by (simp del: of_nat_add)
  qed
qed simp

lemmas field_other = get32_put32_other get32_put16_other get16_put32_other get16_put16_other

lemma put_dinode_fold:
  "put_dinode i x d = fold (\<lambda>k. put32 (byte ((i + 12) + 4 * k)) (i_addrs x ! k)) [0..<NDIRECT + 1]
     (put32 (byte (i + 8)) (i_size x) (put16 (byte (i + 6)) (i_nlink x) (put16 (byte (i + 4)) (i_minor x)
     (put16 (byte (i + 2)) (i_major x) (put16 (byte i) (i_type x) d)))))"
  unfolding put_dinode_def Let_def ..

lemma put_dinode_elsewhere:
  assumes i: "i + 64 \<le> 512" and j: "j + 64 \<le> 512" and ij: "i + 64 \<le> j \<or> j + 64 \<le> i"
  shows "get_dinode (put_dinode i x d) j y = get_dinode d j y"
proof -
  have a: "get32 (put_dinode i x d) (byte m) = get32 d (byte m)" if "j \<le> m" "m + 4 \<le> j + 64" for m
  proof -
    have "get32 (put_dinode i x d) (byte m) = get32 (put32 (byte (i + 8)) (i_size x) (put16 (byte (i + 6)) (i_nlink x) (put16 (byte (i + 4)) (i_minor x)
     (put16 (byte (i + 2)) (i_major x) (put16 (byte i) (i_type x) d))))) (byte m)"
      unfolding put_dinode_fold using assms that by (intro get32_fold_other) (auto simp: NDIRECT_def)
    also have "\<dots> = get32 d (byte m)"
      using assms that by (subst field_other, linarith, linarith, linarith)+ simp
    finally show ?thesis .
  qed
  have b: "get16 (put_dinode i x d) (byte m) = get16 d (byte m)" if "j \<le> m" "m + 2 \<le> j + 64" for m
  proof -
    have "get16 (put_dinode i x d) (byte m) = get16 (put32 (byte (i + 8)) (i_size x) (put16 (byte (i + 6)) (i_nlink x) (put16 (byte (i + 4)) (i_minor x)
     (put16 (byte (i + 2)) (i_major x) (put16 (byte i) (i_type x) d))))) (byte m)"
      unfolding put_dinode_fold using assms that by (intro get16_fold_other) (auto simp: NDIRECT_def)
    also have "\<dots> = get16 d (byte m)"
      using assms that by (subst field_other, linarith, linarith, linarith)+ simp
    finally show ?thesis .
  qed
  have "map (\<lambda>k. get32 (put_dinode i x d) (byte (j + 12 + 4 * k))) [0..<NDIRECT + 1] = map (\<lambda>k. get32 d (byte (j + 12 + 4 * k))) [0..<NDIRECT + 1]"
    by (rule map_cong [OF refl], rule a) (auto simp: NDIRECT_def)
  then show ?thesis
    using b [of j] b [of "j + 2"] b [of "j + 4"] b [of "j + 6"] a [of "j + 8"] unfolding get_dinode_def by simp
qed

lemma put_dinode_same:
  assumes i: "i + 64 \<le> 512" and len: "length (i_addrs x) = NDIRECT + 1"
  shows "get_dinode (put_dinode i x d) i y = y\<lparr>i_type := i_type x, i_major := i_major x, i_minor := i_minor x,
    i_nlink := i_nlink x, i_size := i_size x, i_addrs := i_addrs x\<rparr>"
proof -
  let ?g = "put_dinode i x d"
  let ?h = "put32 (byte (i + 8)) (i_size x) (put16 (byte (i + 6)) (i_nlink x) (put16 (byte (i + 4)) (i_minor x)
     (put16 (byte (i + 2)) (i_major x) (put16 (byte i) (i_type x) d))))"
  have f: "get16 ?g (byte (i + m)) = get16 ?h (byte (i + m))" if "m \<le> 6" for m
    unfolding put_dinode_fold using i that by (intro get16_fold_other) (auto simp: NDIRECT_def)
  have h: "get16 ?g (byte i) = i_type x" "get16 ?g (byte (i + 2)) = i_major x" "get16 ?g (byte (i + 4)) = i_minor x"
    "get16 ?g (byte (i + 6)) = i_nlink x"
    using f [of 0] f [of 2] f [of 4] f [of 6] i
    by (simp_all add: field_other del: of_nat_add add_2_eq_Suc add_2_eq_Suc')
  have h5: "get32 ?g (byte (i + 8)) = i_size x"
    unfolding put_dinode_fold using i by (subst get32_fold_other) (auto simp: NDIRECT_def simp del: of_nat_add)
  have "get32 ?g (byte (i + 12 + 4 * k)) = i_addrs x ! k" if "k < NDIRECT + 1" for k
    unfolding put_dinode_fold using that i by (intro get32_fold_same) (auto simp: NDIRECT_def)
  then have "map (\<lambda>k. get32 ?g (byte (i + 12 + 4 * k))) [0..<NDIRECT + 1] = i_addrs x"
    using len by (intro nth_equalityI) (auto simp del: of_nat_add upt_Suc)
  then show ?thesis unfolding get_dinode_def h h5 by simp
qed

text \<open>
  (C21) The inodes of a block: storing an inode and reading it back gives all of its fields, and the
  other seven inodes of the block are undisturbed.
\<close>

theorem dinode_roundtrip:
  assumes "length (i_addrs x) = NDIRECT + 1"
  shows "get_dinode (put_dinode (dinode_off i) x d) (dinode_off j) y =
    (if unat i mod 8 = unat j mod 8
     then y\<lparr>i_type := i_type x, i_major := i_major x, i_minor := i_minor x, i_nlink := i_nlink x, i_size := i_size x, i_addrs := i_addrs x\<rparr>
     else get_dinode d (dinode_off j) y)"
proof (cases "unat i mod 8 = unat j mod 8")
  case True
  then have "dinode_off j = dinode_off i" by (simp add: dinode_off_def IPB_def)
  then show ?thesis using True put_dinode_same [OF dinode_off_lt assms] by simp
next
  case False
  then have "dinode_off i \<noteq> dinode_off j" by (simp add: dinode_off_def IPB_def)
  then show ?thesis using False put_dinode_elsewhere [OF dinode_off_lt dinode_off_lt dinode_off_apart] by simp
qed

theorem dinode_roundtrip_witness:
  "get_dinode (put_dinode (dinode_off 9) (zero_inode\<lparr>i_type := 2, i_size := 70000\<rparr>) (\<lambda>_. 0)) (dinode_off 17) zero_inode =
    zero_inode\<lparr>i_type := 2, i_size := 70000\<rparr>"
  using dinode_roundtrip [of "zero_inode\<lparr>i_type := 2, i_size := 70000\<rparr>" 9 "\<lambda>_. 0" 17 zero_inode]
  by (simp add: zero_inode_def NDIRECT_def)

section \<open>Path elements\<close>

text \<open>The elements of a path: the maximal stretches without a slash.\<close>

fun path_elems_from :: "u8 list \<Rightarrow> u8 list \<Rightarrow> u8 list list" where
  "path_elems_from acc [] = (if acc = [] then [] else [acc])"
| "path_elems_from acc (c # cs) =
     (if c = slash then (if acc = [] then path_elems_from [] cs else acc # path_elems_from [] cs)
      else path_elems_from (acc @ [c]) cs)"

abbreviation path_elems :: "u8 list \<Rightarrow> u8 list list" where
  "path_elems \<equiv> path_elems_from []"

lemma path_elems_dropWhile [simp]: "path_elems (dropWhile (\<lambda>c. c = slash) p) = path_elems p"
  by (induction p) auto

lemma path_elems_from_split:
  "acc \<noteq> [] \<or> (p \<noteq> [] \<and> hd p \<noteq> slash) \<Longrightarrow>
   path_elems_from acc p = (acc @ takeWhile (\<lambda>c. c \<noteq> slash) p) # path_elems (dropWhile (\<lambda>c. c \<noteq> slash) p)"
proof (induction p arbitrary: acc)
  case (Cons c p)
  show ?case
  proof (cases "c = slash")
    case True
    then show ?thesis using Cons.prems by simp
  next
    case False
    then show ?thesis using Cons.IH [of "acc @ [c]"] by simp
  qed
qed simp

lemma path_elems_Nil: "path_elems p = [] \<longleftrightarrow> dropWhile (\<lambda>c. c = slash) p = []"
proof -
  let ?q = "dropWhile (\<lambda>c. c = slash) p"
  have "?q \<noteq> [] \<Longrightarrow> hd ?q \<noteq> slash" by (rule hd_dropWhile)
  then have "?q \<noteq> [] \<Longrightarrow> path_elems ?q \<noteq> []" using path_elems_from_split [of "[]" ?q] by simp
  then show ?thesis using path_elems_dropWhile [of p] by fastforce
qed

text \<open>
  (C22) \<open>skipelem\<close> splits a path into its elements: it returns nothing exactly when there is none, and
  else it copies the first one to \<open>name\<close>, cut to \<open>DIRSIZ\<close> characters, and returns a path of the
  others, which is empty exactly when there are no others; \<open>nameiparent\<close> relies on the latter.
\<close>

theorem skipelem_elements:
  "case skipelem path name of
     None \<Rightarrow> path_elems path = []
   | Some (rest, name') \<Rightarrow> \<exists>e. path_elems path = e # path_elems rest \<and> (rest = [] \<longleftrightarrow> path_elems rest = []) \<and>
       (\<forall>i<DIRSIZ. i < length e \<longrightarrow> name' i = e ! i) \<and> (length e < DIRSIZ \<longrightarrow> name' (length e) = 0)"
proof -
  let ?q = "dropWhile (\<lambda>c. c = slash) path"
  show ?thesis
  proof (cases "?q = []")
    case True
    then show ?thesis using path_elems_Nil [of path] by (simp add: skipelem_def)
  next
    case False
    let ?e = "takeWhile (\<lambda>c. c \<noteq> slash) ?q" and ?r = "dropWhile (\<lambda>c. c = slash) (dropWhile (\<lambda>c. c \<noteq> slash) ?q)"
    have "path_elems path = ?e # path_elems ?r"
      using path_elems_from_split [of "[]" ?q] hd_dropWhile [OF False] False by simp
    moreover have "?r = [] \<longleftrightarrow> path_elems ?r = []" using path_elems_Nil [of ?r] by simp
    ultimately show ?thesis using False by (auto simp: skipelem_def elem_name_def Let_def)
  qed
qed

theorem skipelem_elements_witness:
  "\<exists>name'. skipelem [0x2F, 0x61, 0x2F, 0x2F, 0x62] (\<lambda>_. 0) = Some ([0x62], name') \<and> name' 0 = 0x61 \<and> name' 1 = 0"
  using skipelem_elements [of "[0x2F, 0x61, 0x2F, 0x2F, 0x62]" "\<lambda>_. 0"]
  by (auto simp: skipelem_def DIRSIZ_def)

end
