(* ===== verification/Pipe.thy ===== *)
theory Pipe
  imports Log
begin

text \<open>
  The pipes of \<^verbatim>\<open>pipe.c\<close>. A pipe is the record of its fields; its page is kept apart. The
  critical sections of \<open>pipewrite\<close> and \<open>piperead\<close>, from taking the lock or waking up to returning or
  going to sleep, are functions on the pipe, and a step relation interleaves the critical
  sections of any number of readers and writers with the wake-ups they send.
\<close>

section \<open>Pipes\<close>

definition PIPESIZE :: u32 where "PIPESIZE = 512"

text \<open>\<open>data\<close> has 512 bytes, so that an index modulo \<open>PIPESIZE\<close> is a number of 9 bits.\<close>

record pipe =
  pi_data :: "9 word \<Rightarrow> u8"
  nread :: u32
  nwrite :: u32
  readopen :: bool
  writeopen :: bool

definition new_pipe :: "pipe \<Rightarrow> pipe" where
  "new_pipe p = p\<lparr>readopen := True, writeopen := True, nwrite := 0, nread := 0\<rparr>"

definition pipe_full :: "pipe \<Rightarrow> bool" where
  "pipe_full p \<longleftrightarrow> nwrite p = nread p + PIPESIZE"

definition put_byte :: "u8 \<Rightarrow> pipe \<Rightarrow> pipe" where
  "put_byte c p = p\<lparr>pi_data := (pi_data p)(ucast (nwrite p) := c), nwrite := nwrite p + 1\<rparr>"

text \<open>What a critical section ends with: it returns, or sleeps and goes on with the bytes that are left.\<close>

datatype write_end = WDone | WFail "u8 list" | WSleep "u8 list"
datatype read_end = RDone "u8 list" | RFail | RSleep

fun write_turns :: "bool \<Rightarrow> u8 list \<Rightarrow> pipe \<Rightarrow> write_end \<times> pipe" where
  "write_turns killed [] p = (WDone, p)"
| "write_turns killed (c # cs) p =
     (if pipe_full p then (if \<not> readopen p \<or> killed then WFail (c # cs) else WSleep (c # cs), p)
      else write_turns killed cs (put_byte c p))"

fun read_turns :: "nat \<Rightarrow> pipe \<Rightarrow> u8 list \<times> pipe" where
  "read_turns 0 p = ([], p)"
| "read_turns (Suc n) p =
     (if nread p = nwrite p then ([], p)
      else let (cs, p') = read_turns n (p\<lparr>nread := nread p + 1\<rparr>) in (pi_data p (ucast (nread p)) # cs, p'))"

definition read_section :: "bool \<Rightarrow> nat \<Rightarrow> pipe \<Rightarrow> read_end \<times> pipe" where
  "read_section killed n p =
     (if nread p = nwrite p \<and> writeopen p then (if killed then RFail else RSleep, p)
      else let (cs, p') = read_turns n p in (RDone cs, p'))"

text \<open>The calls of a process nobody else interferes with. One that sleeps does not return.\<close>

definition pipewrite :: "bool \<Rightarrow> u8 list \<Rightarrow> pipe \<Rightarrow> (int \<times> pipe) outcome" where
  "pipewrite killed cs p =
     (case write_turns killed cs p of
        (WDone, p') \<Rightarrow> Ret (int (length cs), p')
      | (WFail _, p') \<Rightarrow> Ret (-1, p')
      | (WSleep _, p') \<Rightarrow> Hang)"

definition piperead :: "bool \<Rightarrow> nat \<Rightarrow> pipe \<Rightarrow> (int \<times> u8 list \<times> pipe) outcome" where
  "piperead killed n p =
     (case read_section killed n p of
        (RDone cs, p') \<Rightarrow> Ret (int (length cs), cs, p')
      | (RFail, p') \<Rightarrow> Ret (-1, [], p')
      | (RSleep, p') \<Rightarrow> Hang)"

text \<open>\<open>pipeclose\<close> closes one end; the pipe is freed when both are closed.\<close>

definition close_end :: "bool \<Rightarrow> pipe \<Rightarrow> pipe \<times> bool" where
  "close_end writable p =
     (let p = (if writable then p\<lparr>writeopen := False\<rparr> else p\<lparr>readopen := False\<rparr>)
      in (p, \<not> readopen p \<and> \<not> writeopen p))"

section \<open>Processes that share a pipe\<close>

text \<open>
  Each process is outside, about to run a critical section of \<open>pipewrite\<close> or \<open>piperead\<close>, or asleep in
  it. \<open>sent\<close> and \<open>rcvd\<close> are the bytes put in and taken out so far.
\<close>

datatype pstat = Idle | Writing "u8 list" | WAsleep "u8 list" | Reading nat | RAsleep nat

record shared =
  sh_pipe :: pipe
  sh_stat :: "nat \<Rightarrow> pstat"
  sh_killed :: "nat \<Rightarrow> bool"
  sent :: "u8 list"
  rcvd :: "u8 list"

text \<open>\<open>wakeup(&p->nread)\<close> and \<open>wakeup(&p->nwrite)\<close>.\<close>

fun wake_reader :: "pstat \<Rightarrow> pstat" where
  "wake_reader (RAsleep n) = Reading n"
| "wake_reader s = s"

fun wake_writer :: "pstat \<Rightarrow> pstat" where
  "wake_writer (WAsleep cs) = Writing cs"
| "wake_writer s = s"

fun is_reader :: "pstat \<Rightarrow> bool" where
  "is_reader (Reading n) \<longleftrightarrow> True"
| "is_reader (RAsleep n) \<longleftrightarrow> True"
| "is_reader _ \<longleftrightarrow> False"

fun is_writer :: "pstat \<Rightarrow> bool" where
  "is_writer (Writing cs) \<longleftrightarrow> True"
| "is_writer (WAsleep cs) \<longleftrightarrow> True"
| "is_writer _ \<longleftrightarrow> False"

text \<open>A process has its end of the pipe open while it is in a call on it.\<close>

inductive pipe_step :: "shared \<Rightarrow> shared \<Rightarrow> bool" where
  call_write: "sh_stat s i = Idle \<Longrightarrow> writeopen (sh_pipe s) \<Longrightarrow> pipe_step s (s\<lparr>sh_stat := (sh_stat s)(i := Writing cs)\<rparr>)"
| call_read: "sh_stat s i = Idle \<Longrightarrow> readopen (sh_pipe s) \<Longrightarrow> pipe_step s (s\<lparr>sh_stat := (sh_stat s)(i := Reading n)\<rparr>)"
| write_done: "sh_stat s i = Writing cs \<Longrightarrow> write_turns (sh_killed s i) cs (sh_pipe s) = (WDone, p) \<Longrightarrow>
    pipe_step s (s\<lparr>sh_pipe := p, sh_stat := (wake_reader \<circ> sh_stat s)(i := Idle), sent := sent s @ cs\<rparr>)"
| write_sleep: "sh_stat s i = Writing cs \<Longrightarrow> write_turns (sh_killed s i) cs (sh_pipe s) = (WSleep rest, p) \<Longrightarrow>
    pipe_step s (s\<lparr>sh_pipe := p, sh_stat := (wake_reader \<circ> sh_stat s)(i := WAsleep rest),
      sent := sent s @ take (length cs - length rest) cs\<rparr>)"
| write_fail: "sh_stat s i = Writing cs \<Longrightarrow> write_turns (sh_killed s i) cs (sh_pipe s) = (WFail rest, p) \<Longrightarrow>
    pipe_step s (s\<lparr>sh_pipe := p, sh_stat := (sh_stat s)(i := Idle), sent := sent s @ take (length cs - length rest) cs\<rparr>)"
| read_done: "sh_stat s i = Reading n \<Longrightarrow> read_section (sh_killed s i) n (sh_pipe s) = (RDone cs, p) \<Longrightarrow>
    pipe_step s (s\<lparr>sh_pipe := p, sh_stat := (wake_writer \<circ> sh_stat s)(i := Idle), rcvd := rcvd s @ cs\<rparr>)"
| read_sleep: "sh_stat s i = Reading n \<Longrightarrow> read_section (sh_killed s i) n (sh_pipe s) = (RSleep, p) \<Longrightarrow>
    pipe_step s (s\<lparr>sh_stat := (sh_stat s)(i := RAsleep n)\<rparr>)"
| read_fail: "sh_stat s i = Reading n \<Longrightarrow> read_section (sh_killed s i) n (sh_pipe s) = (RFail, p) \<Longrightarrow>
    pipe_step s (s\<lparr>sh_stat := (sh_stat s)(i := Idle)\<rparr>)"
| close_write: "(\<And>i. \<not> is_writer (sh_stat s i)) \<Longrightarrow>
    pipe_step s (s\<lparr>sh_pipe := fst (close_end True (sh_pipe s)), sh_stat := wake_reader \<circ> sh_stat s\<rparr>)"
| close_read: "(\<And>i. \<not> is_reader (sh_stat s i)) \<Longrightarrow>
    pipe_step s (s\<lparr>sh_pipe := fst (close_end False (sh_pipe s)), sh_stat := wake_writer \<circ> sh_stat s\<rparr>)"
| kill: "pipe_step s (s\<lparr>sh_killed := (sh_killed s)(i := True),
    sh_stat := (sh_stat s)(i := wake_reader (wake_writer (sh_stat s i)))\<rparr>)"

definition zero_pipe :: pipe where
  "zero_pipe = \<lparr>pi_data = (\<lambda>_. 0), nread = 0, nwrite = 0, readopen = False, writeopen = False\<rparr>"

definition sharing :: "pipe \<Rightarrow> shared" where
  "sharing p = \<lparr>sh_pipe = new_pipe p, sh_stat = (\<lambda>_. Idle), sh_killed = (\<lambda>_. False), sent = [], rcvd = []\<rparr>"

section \<open>A pipe is a bounded queue\<close>

definition pipe_size :: "pipe \<Rightarrow> nat" where
  "pipe_size p = unat (nwrite p - nread p)"

definition contents :: "pipe \<Rightarrow> u8 list" where
  "contents p = map (\<lambda>k. pi_data p (ucast (nread p + of_nat k))) [0..<pipe_size p]"

definition pipe_ok :: "pipe \<Rightarrow> bool" where
  "pipe_ok p \<longleftrightarrow> pipe_size p \<le> 512"

lemma length_contents [simp]: "length (contents p) = pipe_size p"
  by (simp add: contents_def)

lemma pipe_empty_iff: "nread p = nwrite p \<longleftrightarrow> pipe_size p = 0"
  by (auto simp: pipe_size_def unat_eq_0)

lemma pipe_full_iff: "pipe_full p \<longleftrightarrow> pipe_size p = 512"
proof -
  have "pipe_full p \<longleftrightarrow> nwrite p - nread p = 512" by (auto simp: pipe_full_def PIPESIZE_def algebra_simps)
  also have "\<dots> \<longleftrightarrow> pipe_size p = 512" by (simp add: pipe_size_def word_unat_eq_iff)
  finally show ?thesis .
qed

lemma ucast_9_add: "(ucast (a + of_nat k :: u32) :: 9 word) = ucast a + of_nat k"
proof -
  have "(ucast (a + b :: u32) :: 9 word) = ucast a + ucast b" for a b :: u32
    by (rule word_unat_eq_iff [THEN iffD2]) (simp add: unat_word_ariths unsigned_ucast_eq take_bit_eq_mod mod_mod_cancel mod_add_eq)
  moreover have "(ucast (of_nat k :: u32) :: 9 word) = of_nat k"
    by (simp add: word_unat_eq_iff unsigned_ucast_eq unat_of_nat take_bit_eq_mod mod_mod_cancel)
  ultimately show ?thesis by simp
qed

lemma put_byte_contents:
  assumes "pipe_size p < 512"
  shows "contents (put_byte c p) = contents p @ [c]" "pipe_ok (put_byte c p)" "nread (put_byte c p) = nread p"
    "readopen (put_byte c p) = readopen p" "writeopen (put_byte c p) = writeopen p"
proof -
  let ?n = "pipe_size p"
  have nw: "nwrite p = nread p + of_nat ?n" by (simp add: pipe_size_def)
  have "unat (nwrite p - nread p + 1) = ?n + 1"
    using assms by (subst unat_add_small) (simp_all add: pipe_size_def)
  then have sz: "pipe_size (put_byte c p) = ?n + 1" by (simp add: pipe_size_def put_byte_def algebra_simps)
  then show "pipe_ok (put_byte c p)" using assms by (simp add: pipe_ok_def)
  have old: "pi_data (put_byte c p) (ucast (nread p + of_nat k)) = pi_data p (ucast (nread p + of_nat k))" if "k < ?n" for k
    using that assms byte_neq [of k ?n] by (simp add: put_byte_def nw ucast_9_add)
  show "contents (put_byte c p) = contents p @ [c]"
    using old by (simp add: contents_def sz) (simp add: put_byte_def nw)
qed (simp_all add: put_byte_def)

lemma write_turns_spec:
  assumes "pipe_ok p" "write_turns killed cs p = (e, p')"
  shows "\<exists>cs1 cs2. cs = cs1 @ cs2 \<and> contents p' = contents p @ cs1 \<and> pipe_ok p' \<and> readopen p' = readopen p \<and>
    writeopen p' = writeopen p \<and>
    (case e of WDone \<Rightarrow> cs2 = [] | WFail rest \<Rightarrow> rest = cs2 \<and> pipe_full p' \<and> (\<not> readopen p' \<or> killed)
     | WSleep rest \<Rightarrow> rest = cs2 \<and> pipe_full p' \<and> readopen p' \<and> \<not> killed)"
  using assms
proof (induction cs arbitrary: p)
  case Nil
  then show ?case by auto
next
  case (Cons c cs)
  show ?case
  proof (cases "pipe_full p")
    case True
    then show ?thesis using Cons.prems by (intro exI [of _ "[]"] exI [of _ "c # cs"]) (auto split: if_splits)
  next
    case False
    then have "pipe_size p < 512" using Cons.prems(1) by (auto simp: pipe_ok_def pipe_full_iff)
    note B = put_byte_contents [OF this, where c = c]
    have "write_turns killed cs (put_byte c p) = (e, p')" using Cons.prems(2) False by simp
    from Cons.IH [OF B(2) this] show ?thesis using B by (metis append_Cons append_Nil append_assoc)
  qed
qed

lemma read_turns_spec:
  assumes "read_turns n p = (cs, p')"
  shows "contents p = cs @ contents p' \<and> length cs = min n (pipe_size p) \<and> p' = p\<lparr>nread := nread p + of_nat (length cs)\<rparr>"
  using assms
proof (induction n arbitrary: p cs)
  case 0
  then show ?case by simp
next
  case (Suc n)
  show ?case
  proof (cases "pipe_size p = 0")
    case True
    then show ?thesis using Suc.prems by (simp add: pipe_empty_iff)
  next
    case False
    let ?p = "p\<lparr>nread := nread p + 1\<rparr>"
    obtain cs' where r: "read_turns n ?p = (cs', p')" and cs: "cs = pi_data p (ucast (nread p)) # cs'"
      using Suc.prems False by (auto simp: pipe_empty_iff split: prod.splits)
    have "unat (nwrite p - nread p - 1) = pipe_size p - 1"
      using False unat_minus_one [of "nwrite p - nread p"] by (auto simp: pipe_size_def unat_eq_0)
    then have sz: "pipe_size p = Suc (pipe_size ?p)" using False by (simp add: pipe_size_def algebra_simps)
    have "contents p = pi_data p (ucast (nread p)) # contents ?p"
      unfolding contents_def sz by (simp add: upt_conv_Cons map_Suc_upt [symmetric] comp_def algebra_simps del: upt_Suc map_Suc_upt)
    then show ?thesis using Suc.IH [OF r] cs sz by (cases p) (auto simp: algebra_simps)
  qed
qed

lemma read_section_spec:
  assumes "read_section killed n p = (e, p')" "pipe_ok p"
  shows "case e of
      RDone cs \<Rightarrow> contents p = cs @ contents p' \<and> pipe_ok p' \<and> (pipe_size p \<noteq> 0 \<or> \<not> writeopen p) \<and> readopen p' = readopen p \<and> writeopen p' = writeopen p
    | RFail \<Rightarrow> p' = p \<and> killed
    | RSleep \<Rightarrow> p' = p \<and> pipe_size p = 0 \<and> writeopen p \<and> \<not> killed"
proof (cases "pipe_size p = 0 \<and> writeopen p")
  case True
  then show ?thesis using assms by (auto simp: read_section_def pipe_empty_iff)
next
  case False
  obtain cs where r: "read_turns n p = (cs, p')" "e = RDone cs"
    using assms False by (auto simp: read_section_def pipe_empty_iff split: prod.splits)
  note R = read_turns_spec [OF r(1)]
  have "pipe_size p' \<le> pipe_size p" using R by (metis le_add2 length_append length_contents)
  moreover have "readopen p' = readopen p" "writeopen p' = writeopen p" using R by (metis pipe.select_convs pipe.surjective pipe.update_convs(2))+
  ultimately show ?thesis using R r(2) assms(2) False by (auto simp: pipe_ok_def)
qed

section \<open>Interleavings\<close>

definition sharing_inv :: "shared \<Rightarrow> bool" where
  "sharing_inv s \<longleftrightarrow> pipe_ok (sh_pipe s) \<and> sent s = rcvd s @ contents (sh_pipe s) \<and>
     (\<forall>i cs. sh_stat s i = WAsleep cs \<longrightarrow> pipe_full (sh_pipe s) \<and> readopen (sh_pipe s)) \<and>
     (\<forall>i. is_reader (sh_stat s i) \<longrightarrow> readopen (sh_pipe s)) \<and>
     ((\<forall>i. \<not> sh_killed s i) \<longrightarrow> (\<forall>i n. sh_stat s i = RAsleep n \<longrightarrow> pipe_size (sh_pipe s) = 0 \<and> writeopen (sh_pipe s)))"

lemma wake_reader_simps [simp]: "is_reader (wake_reader s) = is_reader s" "wake_reader s \<noteq> RAsleep n" "wake_reader s = WAsleep cs \<longleftrightarrow> s = WAsleep cs"
  by (cases s; simp)+

lemma wake_writer_simps [simp]: "is_reader (wake_writer s) = is_reader s" "wake_writer s \<noteq> WAsleep cs" "wake_writer s = RAsleep n \<longleftrightarrow> s = RAsleep n"
  by (cases s; simp)+

lemma close_end_simps:
  "contents (fst (close_end w p)) = contents p" "pipe_size (fst (close_end w p)) = pipe_size p"
  "pipe_full (fst (close_end w p)) = pipe_full p" "readopen (fst (close_end True p)) = readopen p"
  "writeopen (fst (close_end False p)) = writeopen p"
  by (simp_all add: close_end_def contents_def pipe_size_def pipe_full_def)

lemma sharing_inv_sharing: "sharing_inv (sharing p)"
  by (simp add: sharing_inv_def sharing_def new_pipe_def pipe_ok_def pipe_size_def contents_def)

lemma sharing_inv_step:
  assumes "pipe_step s t" "sharing_inv s"
  shows "sharing_inv t"
  using assms
proof (induction rule: pipe_step.induct)
  case (write_done s i cs p)
  then obtain "contents p = contents (sh_pipe s) @ cs" "pipe_ok p" "readopen p = readopen (sh_pipe s)"
    using write_turns_spec [OF _ write_done(2)] by (auto simp: sharing_inv_def)
  moreover have "pipe_full p" if "pipe_full (sh_pipe s)"
    using that calculation(1,2) by (metis le_add1 le_antisym length_append length_contents pipe_full_iff pipe_ok_def)
  ultimately show ?case using write_done by (auto simp: sharing_inv_def)
next
  case (write_sleep s i cs rest p)
  then obtain cs1 where "cs = cs1 @ rest" "contents p = contents (sh_pipe s) @ cs1" "pipe_ok p" "pipe_full p" "readopen p"
    using write_turns_spec [OF _ write_sleep(2)] by (auto simp: sharing_inv_def)
  then show ?case using write_sleep by (auto simp: sharing_inv_def)
next
  case (write_fail s i cs rest p)
  then obtain cs1 where "cs = cs1 @ rest" "contents p = contents (sh_pipe s) @ cs1" "pipe_ok p" "pipe_full p"
    "readopen p = readopen (sh_pipe s)" "writeopen p = writeopen (sh_pipe s)" "\<not> readopen p \<or> sh_killed s i"
    using write_turns_spec [OF _ write_fail(2)] by (auto simp: sharing_inv_def)
  moreover have "sh_stat s j \<noteq> RAsleep n" if "\<not> readopen (sh_pipe s)" for j n
    using that write_fail(3) unfolding sharing_inv_def by (metis is_reader.simps(2))
  ultimately show ?case using write_fail by (auto simp: sharing_inv_def)
next
  case (read_done s i n cs p)
  then have "contents (sh_pipe s) = cs @ contents p" "pipe_ok p" "readopen p = readopen (sh_pipe s)" "writeopen p = writeopen (sh_pipe s)"
    using read_section_spec [OF read_done(2)] by (auto simp: sharing_inv_def)
  moreover from this(1) have "pipe_size p = 0" if "pipe_size (sh_pipe s) = 0"
    using that by (metis add_is_0 length_append length_contents)
  ultimately show ?case using read_done by (auto simp: sharing_inv_def)
next
  case (read_sleep s i n p)
  then have "readopen (sh_pipe s)" unfolding sharing_inv_def by (metis is_reader.simps(1))
  then show ?case using read_sleep read_section_spec [OF read_sleep(2)] by (auto simp: sharing_inv_def)
next
  case (kill s i)
  then show ?case by (auto simp: sharing_inv_def split: if_splits)
qed (auto simp: sharing_inv_def close_end_simps pipe_ok_def split: if_splits)

lemma sharing_inv_reachable: "pipe_step\<^sup>*\<^sup>* (sharing p) s \<Longrightarrow> sharing_inv s"
  by (induction rule: rtranclp_induct) (auto intro: sharing_inv_sharing sharing_inv_step)

text \<open>
  (C24) A pipe is a queue of at most 512 bytes, however its readers and writers are interleaved: the
  bytes received so far and the bytes in the pipe are together the bytes sent so far, in their
  order, also when the counters \<open>nread\<close> and \<open>nwrite\<close> wrap around.
\<close>

theorem pipe_fifo:
  assumes "pipe_step\<^sup>*\<^sup>* (sharing p) s"
  shows "sent s = rcvd s @ contents (sh_pipe s) \<and> length (contents (sh_pipe s)) \<le> unat PIPESIZE"
  using sharing_inv_reachable [OF assms] by (simp add: sharing_inv_def pipe_ok_def PIPESIZE_def)

theorem pipe_fifo_witness:
  "\<exists>s. pipe_step\<^sup>*\<^sup>* (sharing zero_pipe) s \<and> sent s = [7, 8] \<and> [7, 8] = rcvd s @ contents (sh_pipe s)"
proof -
  let ?s = "(sharing zero_pipe)\<lparr>sh_stat := (sh_stat (sharing zero_pipe))(0 := Writing [7, 8])\<rparr>"
  let ?q = "put_byte 8 (put_byte 7 (new_pipe zero_pipe))"
  let ?t = "?s\<lparr>sh_pipe := ?q, sh_stat := (wake_reader \<circ> sh_stat ?s)(0 := Idle), sent := sent ?s @ [7, 8]\<rparr>"
  have "pipe_step (sharing zero_pipe) ?s" by (rule pipe_step.call_write) (simp_all add: sharing_def new_pipe_def)
  moreover have "pipe_step ?s ?t"
    by (rule pipe_step.write_done) (simp_all add: sharing_def new_pipe_def pipe_full_def put_byte_def PIPESIZE_def)
  ultimately have r: "pipe_step\<^sup>*\<^sup>* (sharing zero_pipe) ?t" by (meson rtranclp.rtrancl_into_rtrancl rtranclp.rtrancl_refl)
  have "sent ?t = [7, 8]" by (simp add: sharing_def)
  with pipe_fifo [OF r] r show ?thesis by (intro exI [of _ ?t]) auto
qed

text \<open>
  (C25) No wake-up is lost while no process is killed: a reader sleeps only on an empty pipe that is
  open for writing, and a writer only on a full one that is open for reading. So a reader and a
  writer never both sleep, waiting for one another.
\<close>

theorem pipe_no_lost_wakeup:
  assumes "pipe_step\<^sup>*\<^sup>* (sharing p) s" "\<And>i. \<not> sh_killed s i"
  shows "(sh_stat s i = RAsleep n \<longrightarrow> contents (sh_pipe s) = [] \<and> writeopen (sh_pipe s) \<and> (\<forall>j cs. sh_stat s j \<noteq> WAsleep cs)) \<and>
    (sh_stat s i = WAsleep cs \<longrightarrow> pipe_full (sh_pipe s) \<and> readopen (sh_pipe s) \<and> (\<forall>j n. sh_stat s j \<noteq> RAsleep n))"
proof -
  have I: "sharing_inv s" by (rule sharing_inv_reachable [OF assms(1)])
  have w: "pipe_size (sh_pipe s) = 512 \<and> readopen (sh_pipe s)" if "sh_stat s j = WAsleep cs" for j cs
    using I that by (auto simp: sharing_inv_def pipe_full_iff)
  have r: "pipe_size (sh_pipe s) = 0 \<and> writeopen (sh_pipe s)" if "sh_stat s j = RAsleep n" for j n
    using I that assms(2) by (auto simp: sharing_inv_def)
  have e: "contents (sh_pipe s) = [] \<longleftrightarrow> pipe_size (sh_pipe s) = 0" by (metis length_0_conv length_contents)
  have nw: "sh_stat s k \<noteq> WAsleep cs'" if "sh_stat s j = RAsleep m" for j k m cs' using r [OF that] w [of k cs'] by auto
  have "sh_stat s i = RAsleep n \<longrightarrow> contents (sh_pipe s) = [] \<and> writeopen (sh_pipe s) \<and> (\<forall>j cs. sh_stat s j \<noteq> WAsleep cs)"
    using r [of i n] nw [of i n] e by auto
  moreover have "sh_stat s i = WAsleep cs \<longrightarrow> pipe_full (sh_pipe s) \<and> readopen (sh_pipe s) \<and> (\<forall>j n. sh_stat s j \<noteq> RAsleep n)"
    using w [of i cs] nw pipe_full_iff [of "sh_pipe s"] by auto
  ultimately show ?thesis by blast
qed

lemma one_reader_asleep:
  "pipe_step\<^sup>*\<^sup>* (sharing p) ((sharing p)\<lparr>sh_stat := (\<lambda>_. Idle)(0 := RAsleep n)\<rparr>)" (is "pipe_step\<^sup>*\<^sup>* _ ?t")
proof -
  let ?s = "(sharing p)\<lparr>sh_stat := (sh_stat (sharing p))(0 := Reading n)\<rparr>"
  have "pipe_step (sharing p) ?s" by (rule pipe_step.call_read) (simp_all add: sharing_def new_pipe_def)
  moreover have "pipe_step ?s (?s\<lparr>sh_stat := (sh_stat ?s)(0 := RAsleep n)\<rparr>)"
    by (rule pipe_step.read_sleep [where n = n and p = "new_pipe p"]) (simp_all add: sharing_def new_pipe_def read_section_def)
  moreover have "?s\<lparr>sh_stat := (sh_stat ?s)(0 := RAsleep n)\<rparr> = ?t" by (simp add: sharing_def)
  ultimately show ?thesis by (metis (no_types) rtranclp.rtrancl_into_rtrancl rtranclp.rtrancl_refl)
qed

theorem pipe_no_lost_wakeup_witness:
  "\<exists>s. pipe_step\<^sup>*\<^sup>* (sharing zero_pipe) s \<and> sh_stat s 0 = RAsleep 5 \<and> contents (sh_pipe s) = [] \<and> writeopen (sh_pipe s)"
proof -
  let ?t = "(sharing zero_pipe)\<lparr>sh_stat := (\<lambda>_. Idle)(0 := RAsleep 5)\<rparr>"
  have "\<not> sh_killed ?t i" for i by (simp add: sharing_def)
  moreover have "sh_stat ?t 0 = RAsleep 5" by simp
  ultimately show ?thesis using pipe_no_lost_wakeup [OF one_reader_asleep [of zero_pipe 5], where i = 0 and n = 5] one_reader_asleep [of zero_pipe 5] by blast
qed

text \<open>
  (C26) A killed writer can lose a wake-up: when it has filled the pipe it returns at once, without the
  \<open>wakeup(&p->nread)\<close> that the other two ways out of the loop have. A reader that went to sleep on
  the empty pipe sleeps on, though the pipe is full and nobody else is in a call.
\<close>

theorem pipe_kill_loses_wakeup:
  "\<exists>s. pipe_step\<^sup>*\<^sup>* (sharing p) s \<and> pipe_full (sh_pipe s) \<and> sh_stat s = (\<lambda>_. Idle)(0 := RAsleep 1)"
proof -
  let ?cs = "replicate 513 0 :: u8 list"
  let ?s = "(sharing p)\<lparr>sh_stat := (\<lambda>_. Idle)(0 := RAsleep 1)\<rparr>"
  let ?t = "?s\<lparr>sh_stat := (sh_stat ?s)(1 := Writing ?cs)\<rparr>"
  let ?u = "?t\<lparr>sh_killed := (sh_killed ?t)(1 := True), sh_stat := (sh_stat ?t)(1 := wake_reader (wake_writer (sh_stat ?t 1)))\<rparr>"
  have ok: "pipe_ok (new_pipe p)" "contents (new_pipe p) = []" by (simp_all add: new_pipe_def pipe_ok_def pipe_size_def contents_def)
  obtain e q where w: "write_turns True ?cs (new_pipe p) = (e, q)" by fastforce
  obtain cs1 cs2 where c: "?cs = cs1 @ cs2" "contents q = contents (new_pipe p) @ cs1" "pipe_ok q"
    "case e of WDone \<Rightarrow> cs2 = [] | WFail rest \<Rightarrow> rest = cs2 \<and> pipe_full q \<and> (\<not> readopen q \<or> True)
     | WSleep rest \<Rightarrow> rest = cs2 \<and> pipe_full q \<and> readopen q \<and> \<not> True"
    using write_turns_spec [OF ok(1) w] by blast
  have "length cs1 = pipe_size q" using c(2) ok(2) by (metis append_Nil length_contents)
  moreover have "length cs1 + length cs2 = 513" using c(1) by (metis length_append length_replicate)
  ultimately have "cs2 \<noteq> []" using c(3) by (auto simp: pipe_ok_def)
  then obtain rest where r: "e = WFail rest" "pipe_full q" using c(4) by (cases e) auto
  have "pipe_step ?s ?t" by (rule pipe_step.call_write) (simp_all add: sharing_def new_pipe_def)
  moreover have "pipe_step ?t ?u" by (rule pipe_step.kill)
  moreover have "pipe_step ?u (?u\<lparr>sh_pipe := q, sh_stat := (sh_stat ?u)(1 := Idle), sent := sent ?u @ take (length ?cs - length rest) ?cs\<rparr>)"
    by (rule pipe_step.write_fail [where cs = ?cs]) (use w r in \<open>simp_all add: sharing_def\<close>)
  ultimately have "pipe_step\<^sup>*\<^sup>* (sharing p) (?u\<lparr>sh_pipe := q, sh_stat := (sh_stat ?u)(1 := Idle), sent := sent ?u @ take (length ?cs - length rest) ?cs\<rparr>)"
    using one_reader_asleep [of p 1] by (meson rtranclp.rtrancl_into_rtrancl)
  then show ?thesis using r(2) by (intro exI conjI) (auto simp: fun_eq_iff)
qed

end
