(* ===== verification/Kalloc.thy ===== *)
theory Kalloc
  imports Strings
begin

text \<open>
  The physical page allocator \<open>src/kalloc.c\<close>. The state \<open>kst\<close> is the byte memory, the
  address \<open>end\<close> of the kernel image (fixed by the linker) and the fields of \<open>kmem\<close>: the
  free list is linked through \<open>runs[].next\<close>, and \<open>runs[].refcount\<close> counts the users of each
  page. Shown here: the free list is a finite chain of unused pages (\<open>kmem_inv\<close>), every
  operation keeps it so, and what each operation does to the pages in use and to memory.
\<close>

section \<open>State\<close>

record run =
  run_next :: "nat option"
  refcount :: u32

record kst =
  mem :: bmem
  kend :: addr
  kmem_locked :: bool
  use_lock :: bool
  freelist :: "nat option"
  runs :: "nat \<Rightarrow> run"

section \<open>Operations\<close>

text \<open>
  \<open>acquire(&kmem.lock)\<close> and \<open>release(&kmem.lock)\<close> under \<open>if(kmem.use_lock)\<close>, as one CPU sees
  them: acquiring a lock this CPU holds, or releasing one it does not hold, panics.
\<close>

definition kmem_acquire :: "kst \<Rightarrow> kst outcome" where
  "kmem_acquire s =
     (if use_lock s then if kmem_locked s then Panic ''acquire'' else Ret (s\<lparr>kmem_locked := True\<rparr>)
      else Ret s)"

definition kmem_release :: "kst \<Rightarrow> kst outcome" where
  "kmem_release s =
     (if use_lock s then if kmem_locked s then Ret (s\<lparr>kmem_locked := False\<rparr>) else Panic ''release''
      else Ret s)"

text \<open>The index \<open>V2P(v) / PGSIZE\<close> into \<open>kmem.runs\<close>, and \<open>P2V((r - kmem.runs) * PGSIZE)\<close>.\<close>

definition frame_of :: "addr \<Rightarrow> nat" where
  "frame_of v = unat (V2P v div PGSIZE)"

definition frame_addr :: "nat \<Rightarrow> addr" where
  "frame_addr i = P2V (of_nat i * PGSIZE)"

definition kfree :: "addr \<Rightarrow> kst \<Rightarrow> kst outcome" where
  "kfree v s =
     (if v mod PGSIZE \<noteq> 0 \<or> v < kend s \<or> V2P v \<ge> PHYSTOP then Panic ''kfree''
      else bnd (kmem_acquire (s\<lparr>mem := memset (mem s) v 1 PGSIZE\<rparr>)) (\<lambda>s.
        let r = frame_of v in
        if refcount (runs s r) \<noteq> 1 then Panic ''kfree: freeing a shared page''
        else kmem_release
          (s\<lparr>runs := (runs s)(r := \<lparr>run_next = freelist s, refcount = 0\<rparr>), freelist := Some r\<rparr>)))"

definition kfree_nocheck :: "addr \<Rightarrow> kst \<Rightarrow> kst outcome" where
  "kfree_nocheck v s =
     (if v mod PGSIZE \<noteq> 0 \<or> v < kend s \<or> V2P v \<ge> PHYSTOP then Panic ''kfree_nocheck''
      else bnd (kmem_acquire (s\<lparr>mem := memset (mem s) v 1 PGSIZE\<rparr>)) (\<lambda>s.
        let r = frame_of v in
        kmem_release
          (s\<lparr>runs := (runs s)(r := \<lparr>run_next = freelist s, refcount = 0\<rparr>), freelist := Some r\<rparr>)))"

definition kalloc :: "kst \<Rightarrow> (addr \<times> kst) outcome" where
  "kalloc s =
     bnd (kmem_acquire s) (\<lambda>s.
     let r = freelist s;
         s = (case r of None \<Rightarrow> s
              | Some i \<Rightarrow> s\<lparr>freelist := run_next (runs s i),
                            runs := (runs s)(i := (runs s i)\<lparr>refcount := 1\<rparr>)\<rparr>)
     in bnd (kmem_release s) (\<lambda>s.
        Ret (case r of None \<Rightarrow> 0 | Some i \<Rightarrow> frame_addr i, s)))"

text \<open>
  \<open>refDec\<close>, \<open>refInc\<close> and \<open>getRefs\<close> do not check their argument: an address outside the
  direct map of physical memory indexes \<open>runs\<close> out of its bounds.
\<close>

definition refDec :: "addr \<Rightarrow> kst \<Rightarrow> kst outcome" where
  "refDec v s =
     bnd (kmem_acquire s) (\<lambda>s.
     let r = frame_of v in
     if MAXPAGES \<le> r then Fault
     else kmem_release (s\<lparr>runs := (runs s)(r := (runs s r)\<lparr>refcount := refcount (runs s r) - 1\<rparr>)\<rparr>))"

definition refInc :: "addr \<Rightarrow> kst \<Rightarrow> kst outcome" where
  "refInc v s =
     bnd (kmem_acquire s) (\<lambda>s.
     let r = frame_of v in
     if MAXPAGES \<le> r then Fault
     else kmem_release (s\<lparr>runs := (runs s)(r := (runs s r)\<lparr>refcount := refcount (runs s r) + 1\<rparr>)\<rparr>))"

definition getRefs :: "addr \<Rightarrow> kst \<Rightarrow> u32 outcome" where
  "getRefs v s = (if MAXPAGES \<le> frame_of v then Fault else Ret (refcount (runs s (frame_of v))))"

partial_function (option) count_free :: "(nat \<Rightarrow> run) \<Rightarrow> nat option \<Rightarrow> nat \<Rightarrow> nat option" where
  "count_free rs r c = (case r of None \<Rightarrow> Some c | Some i \<Rightarrow> count_free rs (run_next (rs i)) (c + 1))"

definition getNumOfFreePages :: "kst \<Rightarrow> nat option" where
  "getNumOfFreePages s = count_free (runs s) (freelist s) 0"

lemma kfree_nocheck_RetD:
  "kfree_nocheck v s = Ret s' \<Longrightarrow> page_aligned v \<and> kend s \<le> v \<and> V2P v < PHYSTOP"
  by (auto simp: kfree_nocheck_def page_aligned_def split: if_splits)

lemma V2P_lt_PHYSTOP: "V2P v < PHYSTOP \<Longrightarrow> 0x80000000 \<le> unat v \<and> unat v < 0x8E000000"
proof -
  assume "V2P v < PHYSTOP"
  then have lt: "unat (V2P v) < 0xE000000" by (simp add: word_less_nat_alt)
  have "unat v = unat (V2P v + KERNBASE)" by (simp add: V2P_def)
  also have "\<dots> = unat (V2P v) + 0x80000000" using lt by (subst unat_add_small) auto
  finally show ?thesis using lt by simp
qed

function freerange_loop :: "addr \<Rightarrow> addr \<Rightarrow> kst \<Rightarrow> kst outcome" where
  "freerange_loop p vend s =
     (if p + PGSIZE \<le> vend
      then bnd (kfree_nocheck p s) (\<lambda>s. freerange_loop (p + PGSIZE) vend s)
      else Ret s)"
  by pat_completeness auto
termination
proof (relation "measure (\<lambda>(p, vend, s). unat vend - unat p)")
  fix p vend :: addr and s s' :: kst
  assume le: "p + PGSIZE \<le> vend" and r: "kfree_nocheck p s = Ret s'"
  have "unat p < 0x8E000000" using kfree_nocheck_RetD [OF r] V2P_lt_PHYSTOP by blast
  then have "unat (p + PGSIZE) = unat p + 4096" by (subst unat_add_small) auto
  with le show "((p + PGSIZE, vend, s'), p, vend, s) \<in> measure (\<lambda>(p, vend, s). unat vend - unat p)"
    by (auto simp: word_le_nat_alt)
qed simp

definition freerange :: "addr \<Rightarrow> addr \<Rightarrow> kst \<Rightarrow> kst outcome" where
  "freerange vstart vend s = freerange_loop (PGROUNDUP vstart) vend s"

definition kinit1 :: "addr \<Rightarrow> addr \<Rightarrow> kst \<Rightarrow> kst outcome" where
  "kinit1 vstart vend s = freerange vstart vend (s\<lparr>kmem_locked := False, use_lock := False\<rparr>)"

definition kinit2 :: "addr \<Rightarrow> addr \<Rightarrow> kst \<Rightarrow> kst outcome" where
  "kinit2 vstart vend s = bnd (freerange vstart vend s) (\<lambda>s. Ret (s\<lparr>use_lock := True\<rparr>))"

declare freerange_loop.simps [simp del]

section \<open>The operations without the lock\<close>

text \<open>Called with the lock free, every operation leaves it free; these are its effects.\<close>

definition valid_page :: "addr \<Rightarrow> addr \<Rightarrow> bool" where
  "valid_page e v \<longleftrightarrow> page_aligned v \<and> e \<le> v \<and> V2P v < PHYSTOP"

definition pushed :: "nat \<Rightarrow> kst \<Rightarrow> kst" where
  "pushed r s = s\<lparr>runs := (runs s)(r := \<lparr>run_next = freelist s, refcount = 0\<rparr>), freelist := Some r\<rparr>"

definition junked :: "addr \<Rightarrow> kst \<Rightarrow> kst" where
  "junked v s = s\<lparr>mem := memset (mem s) v 1 PGSIZE\<rparr>"

definition set_refs :: "nat \<Rightarrow> u32 \<Rightarrow> kst \<Rightarrow> kst" where
  "set_refs r c s = s\<lparr>runs := (runs s)(r := (runs s r)\<lparr>refcount := c\<rparr>)\<rparr>"

lemma kmem_unlocked_id: "\<not> kmem_locked s \<Longrightarrow> s\<lparr>kmem_locked := False\<rparr> = s"
  by (cases s) simp

lemma kfree_nocheck_unlocked:
  assumes "\<not> kmem_locked s"
  shows "kfree_nocheck v s =
    (if valid_page (kend s) v then Ret (pushed (frame_of v) (junked v s)) else Panic ''kfree_nocheck'')"
  using assms
  by (cases s) (auto simp: kfree_nocheck_def Let_def kmem_acquire_def kmem_release_def pushed_def junked_def
      valid_page_def page_aligned_def not_le not_less)

lemma kfree_unlocked:
  assumes "\<not> kmem_locked s"
  shows "kfree v s =
    (if \<not> valid_page (kend s) v then Panic ''kfree''
     else if refcount (runs s (frame_of v)) \<noteq> 1 then Panic ''kfree: freeing a shared page''
     else Ret (pushed (frame_of v) (junked v s)))"
  using assms
  by (cases s) (auto simp: kfree_def Let_def kmem_acquire_def kmem_release_def pushed_def junked_def
      valid_page_def page_aligned_def not_le not_less)

lemma kalloc_unlocked:
  assumes "\<not> kmem_locked s"
  shows "kalloc s =
    (case freelist s of None \<Rightarrow> Ret (0, s)
     | Some i \<Rightarrow> Ret (frame_addr i, set_refs i 1 (s\<lparr>freelist := run_next (runs s i)\<rparr>)))"
  using assms
  by (cases s) (auto simp: kalloc_def Let_def kmem_acquire_def kmem_release_def set_refs_def split: option.split)

lemma refInc_unlocked:
  assumes "\<not> kmem_locked s"
  shows "refInc v s = (if MAXPAGES \<le> frame_of v then Fault
    else Ret (set_refs (frame_of v) (refcount (runs s (frame_of v)) + 1) s))"
  using assms by (cases s) (auto simp: refInc_def Let_def kmem_acquire_def kmem_release_def set_refs_def)

lemma refDec_unlocked:
  assumes "\<not> kmem_locked s"
  shows "refDec v s = (if MAXPAGES \<le> frame_of v then Fault
    else Ret (set_refs (frame_of v) (refcount (runs s (frame_of v)) - 1) s))"
  using assms by (cases s) (auto simp: refDec_def Let_def kmem_acquire_def kmem_release_def set_refs_def)

lemmas kmem_unlocked = kfree_nocheck_unlocked kfree_unlocked kalloc_unlocked refInc_unlocked refDec_unlocked

lemma effects_fields [simp]:
  "mem (pushed r s) = mem s" "kend (pushed r s) = kend s" "kmem_locked (pushed r s) = kmem_locked s"
  "use_lock (pushed r s) = use_lock s" "freelist (pushed r s) = Some r"
  "runs (pushed r s) = (runs s)(r := \<lparr>run_next = freelist s, refcount = 0\<rparr>)"
  "mem (junked v s) = memset (mem s) v 1 PGSIZE" "kend (junked v s) = kend s"
  "kmem_locked (junked v s) = kmem_locked s" "use_lock (junked v s) = use_lock s"
  "freelist (junked v s) = freelist s" "runs (junked v s) = runs s"
  "mem (set_refs r c s) = mem s" "kend (set_refs r c s) = kend s"
  "kmem_locked (set_refs r c s) = kmem_locked s" "use_lock (set_refs r c s) = use_lock s"
  "freelist (set_refs r c s) = freelist s"
  "runs (set_refs r c s) = (runs s)(r := (runs s r)\<lparr>refcount := c\<rparr>)"
  by (simp_all add: pushed_def junked_def set_refs_def)

section \<open>Frames\<close>

lemma unat_V2P_page: "valid_page e v \<Longrightarrow> unat (V2P v) = unat v - 0x80000000"
  using V2P_lt_PHYSTOP [of v] by (auto simp: valid_page_def V2P_def unat_sub word_le_nat_alt)

lemma frame_of_lt: "V2P v < PHYSTOP \<Longrightarrow> frame_of v < MAXPAGES"
  by (simp add: frame_of_def unat_div_distrib word_less_nat_alt less_mult_imp_div_less)

lemma frame_of_valid [simp]: "valid_page e v \<Longrightarrow> frame_of v < MAXPAGES"
  by (simp add: valid_page_def frame_of_lt)

lemma unat_frame: "i < MAXPAGES \<Longrightarrow> unat (of_nat i * PGSIZE :: u32) = i * 4096"
  by (simp add: unat_word_ariths)

lemma frame_of_addr [simp]: "i < MAXPAGES \<Longrightarrow> frame_of (frame_addr i) = i"
  by (simp add: frame_of_def frame_addr_def unat_div_distrib unat_frame)

lemma frame_addr_of: "page_aligned v \<Longrightarrow> V2P v < PHYSTOP \<Longrightarrow> frame_addr (frame_of v) = v"
proof -
  assume v: "page_aligned v" "V2P v < PHYSTOP"
  have lt: "frame_of v < MAXPAGES" using v by (simp add: frame_of_lt)
  from v have "unat (V2P v) mod 4096 = 0" by (simp add: page_aligned_iff [symmetric])
  then have "unat (of_nat (frame_of v) * PGSIZE :: u32) = unat (V2P v)"
    using unat_frame [OF lt] div_mult_mod_eq [of "unat (V2P v)" 4096]
    by (simp add: frame_of_def unat_div_distrib)
  then show ?thesis by (simp add: frame_addr_def word_unat_eq_iff [symmetric])
qed

lemma frame_addr_valid [simp]: "valid_page e v \<Longrightarrow> frame_addr (frame_of v) = v"
  by (simp add: valid_page_def frame_addr_of)

lemma page_aligned_frame_addr [simp]: "page_aligned (frame_addr i)"
proof -
  have "4096 dvd uint (of_nat i * 4096 :: u32)" by (simp add: uint_word_ariths dvd_mod)
  then show ?thesis by (simp add: frame_addr_def page_aligned_dvd [symmetric])
qed

lemma unat_frame_addr: "i < MAXPAGES \<Longrightarrow> unat (frame_addr i) = 0x80000000 + i * 4096"
  unfolding frame_addr_def P2V_def by (subst unat_add_small) (auto simp: unat_frame)

lemma frame_addr_nonzero [simp]: "i < MAXPAGES \<Longrightarrow> frame_addr i \<noteq> 0"
  using unat_frame_addr [of i] by auto

lemma frame_addr_inj: "i < MAXPAGES \<Longrightarrow> j < MAXPAGES \<Longrightarrow> frame_addr i = frame_addr j \<longleftrightarrow> i = j"
  by (metis frame_of_addr)

lemma V2P_frame_addr: "i < MAXPAGES \<Longrightarrow> V2P (frame_addr i) < PHYSTOP"
  by (simp add: frame_addr_def word_less_nat_alt unat_frame)

section \<open>The free list\<close>

text \<open>\<open>chain rs r xs\<close>: following \<open>next\<close> from \<open>r\<close> visits exactly the frames \<open>xs\<close> and ends.\<close>

fun chain :: "(nat \<Rightarrow> run) \<Rightarrow> nat option \<Rightarrow> nat list \<Rightarrow> bool" where
  "chain rs r [] \<longleftrightarrow> r = None"
| "chain rs r (x # xs) \<longleftrightarrow> r = Some x \<and> chain rs (run_next (rs x)) xs"

lemma chain_None [simp]: "chain rs None xs \<longleftrightarrow> xs = []"
  by (cases xs) auto

lemma chain_Some: "chain rs (Some i) xs \<longleftrightarrow> (\<exists>ys. xs = i # ys \<and> chain rs (run_next (rs i)) ys)"
  by (cases xs) auto

lemma chain_upd [simp]: "i \<notin> set xs \<Longrightarrow> chain (rs(i := x)) r xs = chain rs r xs"
  by (induction xs arbitrary: r) auto

lemma chain_upd_refs [simp]: "chain (rs(i := (rs i)\<lparr>refcount := c\<rparr>)) r xs = chain rs r xs"
  by (induction xs arbitrary: r) auto

lemma chain_unique: "chain rs r xs \<Longrightarrow> chain rs r ys \<Longrightarrow> xs = ys"
  by (induction xs arbitrary: r ys) (auto simp: chain_Some)

lemma chain_append_nth: "chain rs r (xs @ y # ys) \<Longrightarrow> chain rs (Some y) (y # ys)"
  by (induction xs arbitrary: r) auto

lemma chain_distinct: "chain rs r xs \<Longrightarrow> distinct xs"
proof (induction xs arbitrary: r)
  case (Cons x xs)
  then have ch: "chain rs (run_next (rs x)) xs" by simp
  have "x \<notin> set xs"
  proof
    assume "x \<in> set xs"
    then obtain us vs where xs: "xs = us @ x # vs" by (auto simp: in_set_conv_decomp)
    with ch have "chain rs (Some x) (x # vs)" by (auto dest: chain_append_nth)
    with ch have "chain rs (run_next (rs x)) vs" by simp
    with ch have "xs = vs" by (rule chain_unique)
    with xs show False by simp
  qed
  with Cons.IH [OF ch] show ?case by simp
qed simp

text \<open>
  The invariant of the allocator: its lock is free; the free list is a finite chain of valid
  frames above the kernel image, each with reference count 0.
\<close>

definition free_frame :: "kst \<Rightarrow> nat \<Rightarrow> bool" where
  "free_frame s i \<longleftrightarrow> i < MAXPAGES \<and> kend s \<le> frame_addr i \<and> refcount (runs s i) = 0"

definition free_frames :: "kst \<Rightarrow> nat list \<Rightarrow> bool" where
  "free_frames s xs \<longleftrightarrow> \<not> kmem_locked s \<and> chain (runs s) (freelist s) xs \<and> (\<forall>i\<in>set xs. free_frame s i)"

definition kmem_inv :: "kst \<Rightarrow> bool" where
  "kmem_inv s \<longleftrightarrow> (\<exists>xs. free_frames s xs)"

text \<open>The pages in use: those with a nonzero reference count.\<close>

definition allocated :: "kst \<Rightarrow> addr set" where
  "allocated s = {frame_addr i |i. i < MAXPAGES \<and> refcount (runs s i) \<noteq> 0}"

lemma free_frames_unlocked: "free_frames s xs \<Longrightarrow> \<not> kmem_locked s"
  by (simp add: free_frames_def)

lemma free_frames_distinct: "free_frames s xs \<Longrightarrow> distinct xs"
  by (auto simp: free_frames_def dest: chain_distinct)

lemma free_frames_unique: "free_frames s xs \<Longrightarrow> free_frames s ys \<Longrightarrow> xs = ys"
  by (auto simp: free_frames_def dest: chain_unique)

lemma kmem_inv_unlocked: "kmem_inv s \<Longrightarrow> \<not> kmem_locked s"
  by (auto simp: kmem_inv_def free_frames_def)

lemma allocated_iff: "i < MAXPAGES \<Longrightarrow> frame_addr i \<in> allocated s \<longleftrightarrow> refcount (runs s i) \<noteq> 0"
  by (auto simp: allocated_def frame_addr_inj)

lemma allocated_page_aligned: "v \<in> allocated s \<Longrightarrow> page_aligned v"
  by (auto simp: allocated_def)

lemma allocated_nonzero: "v \<in> allocated s \<Longrightarrow> v \<noteq> 0"
  by (auto simp: allocated_def)

lemma allocated_frame: "v \<in> allocated s \<Longrightarrow> frame_of v < MAXPAGES \<and> refcount (runs s (frame_of v)) \<noteq> 0
    \<and> frame_addr (frame_of v) = v"
  by (auto simp: allocated_def)

lemma allocated_set_refs:
  assumes "i < MAXPAGES"
  shows "allocated (set_refs i c s) =
    (if c = 0 then allocated s - {frame_addr i} else insert (frame_addr i) (allocated s))"
  using assms by (auto simp: allocated_def frame_addr_inj split: if_splits)

lemma allocated_pushed:
  assumes "i < MAXPAGES"
  shows "allocated (pushed i s) = allocated s - {frame_addr i}"
  using assms by (auto simp: allocated_def frame_addr_inj split: if_splits)

lemma allocated_fields [simp]:
  "allocated (s\<lparr>mem := m\<rparr>) = allocated s" "allocated (s\<lparr>freelist := f\<rparr>) = allocated s"
  "allocated (junked v s) = allocated s"
  by (simp_all add: allocated_def)

subsection \<open>Allocation\<close>

lemma kalloc_free_frames:
  assumes "free_frames s xs"
  shows "kalloc s = (case xs of [] \<Rightarrow> Ret (0, s)
    | x # ys \<Rightarrow> Ret (frame_addr x, set_refs x 1 (s\<lparr>freelist := run_next (runs s x)\<rparr>)))"
    and "xs = x # ys \<Longrightarrow> free_frames (set_refs x 1 (s\<lparr>freelist := run_next (runs s x)\<rparr>)) ys"
proof -
  note u = free_frames_unlocked [OF assms] and d = free_frames_distinct [OF assms]
  show "kalloc s = (case xs of [] \<Rightarrow> Ret (0, s)
    | x # ys \<Rightarrow> Ret (frame_addr x, set_refs x 1 (s\<lparr>freelist := run_next (runs s x)\<rparr>)))"
    using assms by (cases xs) (simp_all add: kalloc_unlocked [OF u] free_frames_def)
  show "free_frames (set_refs x 1 (s\<lparr>freelist := run_next (runs s x)\<rparr>)) ys" if "xs = x # ys"
    using assms d that by (auto simp: free_frames_def free_frame_def)
qed

lemma kalloc_cases:
  assumes "kmem_inv s"
  obtains (none) "freelist s = None" "kalloc s = Ret (0, s)"
  | (some) x s' where "freelist s = Some x" "x < MAXPAGES" "kend s \<le> frame_addr x"
      "frame_addr x \<notin> allocated s" "kalloc s = Ret (frame_addr x, s')"
      "s' = set_refs x 1 (s\<lparr>freelist := run_next (runs s x)\<rparr>)" "kmem_inv s'"
      "allocated s' = insert (frame_addr x) (allocated s)" "mem s' = mem s" "kend s' = kend s"
proof -
  from assms obtain xs where xs: "free_frames s xs" by (auto simp: kmem_inv_def)
  show ?thesis
  proof (cases xs)
    case Nil
    with xs kalloc_free_frames(1) [OF xs] show ?thesis by (intro none) (auto simp: free_frames_def)
  next
    case (Cons x ys)
    let ?s = "set_refs x 1 (s\<lparr>freelist := run_next (runs s x)\<rparr>)"
    from xs Cons have x: "x < MAXPAGES" "kend s \<le> frame_addr x" "refcount (runs s x) = 0" "freelist s = Some x"
      by (auto simp: free_frames_def free_frame_def)
    show ?thesis
    proof (rule some [of x ?s])
      show "kmem_inv ?s" using kalloc_free_frames(2) [OF xs Cons] by (auto simp: kmem_inv_def)
      show "allocated ?s = insert (frame_addr x) (allocated s)"
        using x by (simp add: allocated_set_refs)
    qed (use x xs Cons kalloc_free_frames(1) [OF xs] in \<open>auto simp: allocated_iff\<close>)
  qed
qed

subsection \<open>Freeing\<close>

lemma pushed_free_frames:
  assumes "free_frames s xs" "valid_page (kend s) v" "frame_of v \<notin> set xs"
  shows "free_frames (pushed (frame_of v) (junked v s)) (frame_of v # xs)"
  using assms by (auto simp: free_frames_def free_frame_def) (simp add: valid_page_def)

lemma kfree_free_frames:
  assumes s: "free_frames s xs" and v: "valid_page (kend s) v" and one: "refcount (runs s (frame_of v)) = 1"
  shows "kfree v s = Ret (pushed (frame_of v) (junked v s))"
    and "free_frames (pushed (frame_of v) (junked v s)) (frame_of v # xs)"
proof -
  show "kfree v s = Ret (pushed (frame_of v) (junked v s))"
    using v one by (simp add: kfree_unlocked [OF free_frames_unlocked [OF s]])
  have "frame_of v \<notin> set xs" using s one by (auto simp: free_frames_def free_frame_def)
  with s v show "free_frames (pushed (frame_of v) (junked v s)) (frame_of v # xs)"
    by (rule pushed_free_frames)
qed

lemma kfree_RetD:
  assumes inv: "kmem_inv s" and r: "kfree v s = Ret s'"
  shows "valid_page (kend s) v" "refcount (runs s (frame_of v)) = 1" "v \<in> allocated s"
    "s' = pushed (frame_of v) (junked v s)" "kmem_inv s'" "allocated s' = allocated s - {v}"
    "mem s' = memset (mem s) v 1 PGSIZE" "kend s' = kend s"
proof -
  from inv obtain xs where xs: "free_frames s xs" by (auto simp: kmem_inv_def)
  show v: "valid_page (kend s) v" and one: "refcount (runs s (frame_of v)) = 1"
    and s': "s' = pushed (frame_of v) (junked v s)"
    using r by (auto simp: kfree_unlocked [OF kmem_inv_unlocked [OF inv]] split: if_splits)
  show "v \<in> allocated s" using allocated_iff [OF frame_of_valid [OF v], of s] v one by simp
  show "kmem_inv s'" using kfree_free_frames(2) [OF xs v one] s' by (auto simp: kmem_inv_def)
  show "allocated s' = allocated s - {v}"
    using frame_of_valid [OF v] by (simp add: s' allocated_pushed frame_addr_valid [OF v])
  show "mem s' = memset (mem s) v 1 PGSIZE" "kend s' = kend s" by (simp_all add: s')
qed

lemma set_refs_free_frames:
  assumes "free_frames s xs" "i \<notin> set xs"
  shows "free_frames (set_refs i c s) xs"
  using assms by (auto simp: free_frames_def free_frame_def)

lemma set_refs_kmem_inv:
  assumes "kmem_inv s" "refcount (runs s i) \<noteq> 0"
  shows "kmem_inv (set_refs i c s)"
proof -
  from assms(1) obtain xs where xs: "free_frames s xs" by (auto simp: kmem_inv_def)
  with assms(2) have "i \<notin> set xs" by (auto simp: free_frames_def free_frame_def)
  with xs show ?thesis by (auto simp: kmem_inv_def intro: set_refs_free_frames)
qed

lemma refInc_allocated:
  assumes "kmem_inv s" "v \<in> allocated s"
  shows "refInc v s = Ret (set_refs (frame_of v) (refcount (runs s (frame_of v)) + 1) s)"
    and "kmem_inv (set_refs (frame_of v) (refcount (runs s (frame_of v)) + 1) s)"
  using assms by (auto simp: refInc_unlocked kmem_inv_unlocked set_refs_kmem_inv dest: allocated_frame)

lemma refDec_allocated:
  assumes "kmem_inv s" "v \<in> allocated s"
  shows "refDec v s = Ret (set_refs (frame_of v) (refcount (runs s (frame_of v)) - 1) s)"
    and "kmem_inv (set_refs (frame_of v) (refcount (runs s (frame_of v)) - 1) s)"
  using assms by (auto simp: refDec_unlocked kmem_inv_unlocked set_refs_kmem_inv dest: allocated_frame)

lemma getRefs_allocated:
  "v \<in> allocated s \<Longrightarrow> getRefs v s = Ret (refcount (runs s (frame_of v)))"
  by (auto simp: getRefs_def dest: allocated_frame)

subsection \<open>Counting the free pages\<close>

lemma count_free_chain: "chain rs r xs \<Longrightarrow> count_free rs r c = Some (c + length xs)"
  by (induction xs arbitrary: r c) (simp_all add: count_free.simps)

lemma getNumOfFreePages_eq: "free_frames s xs \<Longrightarrow> getNumOfFreePages s = Some (length xs)"
  using count_free_chain [of "runs s" "freelist s" xs 0] by (simp add: getNumOfFreePages_def free_frames_def)

subsection \<open>Initialisation\<close>

text \<open>The pages \<open>p, p + PGSIZE, \<dots>\<close> that fit below \<open>vend\<close>, last first: the free list \<open>freerange\<close> builds.\<close>

fun page_run :: "addr \<Rightarrow> nat \<Rightarrow> nat list" where
  "page_run p 0 = []"
| "page_run p (Suc n) = page_run (p + PGSIZE) n @ [frame_of p]"

lemma freerange_loop_free_frames:
  assumes "free_frames s xs" "page_aligned p" "kend s \<le> p" "p \<le> vend" "vend \<le> 0x8E000000"
    "KERNBASE \<le> p" "\<forall>i\<in>set xs. unat (frame_addr i) < unat p"
  shows "\<exists>s'. freerange_loop p vend s = Ret s' \<and>
    free_frames s' (page_run p (unat (vend - p) div 4096) @ xs) \<and> kend s' = kend s \<and> use_lock s' = use_lock s"
  using assms
proof (induction "unat (vend - p) div 4096" arbitrary: p s xs)
  case 0
  have "unat (vend - p) = unat vend - unat p" using 0 by (simp add: unat_sub)
  moreover have "unat p + 4096 < 4294967296" using 0 by (simp add: word_le_nat_alt)
  ultimately have "\<not> p + PGSIZE \<le> vend"
    using 0 by (simp add: word_le_nat_alt unat_add_small)
  with 0 show ?case by (simp add: freerange_loop.simps [of p])
next
  case (Suc n)
  have d: "unat (vend - p) = unat vend - unat p" using Suc.prems by (simp add: unat_sub)
  have small: "unat p + 4096 < 4294967296" and vend: "unat vend \<le> 0x8E000000" and kb: "0x80000000 \<le> unat p"
    using Suc.prems by (simp_all add: word_le_nat_alt)
  then have p4: "unat (p + PGSIZE) = unat p + 4096" by (simp add: unat_add_small)
  have room: "unat p + 4096 \<le> unat vend"
  proof (rule ccontr)
    assume "\<not> unat p + 4096 \<le> unat vend"
    then have "unat (vend - p) div 4096 = 0" using d by simp
    with Suc.hyps(2) show False by simp
  qed
  have V: "unat (V2P p) = unat p - 0x80000000" using kb by (simp add: V2P_def unat_sub word_le_nat_alt)
  have vp: "valid_page (kend s) p"
    using Suc.prems V room vend kb by (simp add: valid_page_def word_less_nat_alt)
  have fa: "frame_addr (frame_of p) = p" using vp by simp
  have notin: "frame_of p \<notin> set xs" using Suc.prems(7) fa by force
  let ?s = "pushed (frame_of p) (junked p s)"
  have free: "free_frames ?s (frame_of p # xs)" by (rule pushed_free_frames [OF Suc.prems(1) vp notin])
  have step: "kfree_nocheck p s = Ret ?s"
    using vp by (simp add: kfree_nocheck_unlocked [OF free_frames_unlocked [OF Suc.prems(1)]])
  have d4: "unat (vend - (p + PGSIZE)) = unat (vend - p) - 4096"
    using room p4 d by (simp add: unat_sub word_le_nat_alt)
  have "unat (vend - p) div 4096 = Suc (unat (vend - (p + PGSIZE)) div 4096)"
    unfolding d4 using room d by (subst le_div_geq) auto
  with Suc.hyps(2) have n: "n = unat (vend - (p + PGSIZE)) div 4096" by simp
  have "\<exists>s'. freerange_loop (p + PGSIZE) vend ?s = Ret s' \<and>
    free_frames s' (page_run (p + PGSIZE) (unat (vend - (p + PGSIZE)) div 4096) @ (frame_of p # xs)) \<and>
    kend s' = kend ?s \<and> use_lock s' = use_lock ?s"
  proof (rule Suc.hyps(1) [OF n free])
    show "page_aligned (p + PGSIZE)" using Suc.prems(2) by simp
    show "kend ?s \<le> p + PGSIZE" using Suc.prems(3) p4 by (simp add: word_le_nat_alt)
    show "p + PGSIZE \<le> vend" using room p4 by (simp add: word_le_nat_alt)
    show "KERNBASE \<le> p + PGSIZE" using kb p4 by (simp add: word_le_nat_alt)
    show "\<forall>i\<in>set (frame_of p # xs). unat (frame_addr i) < unat (p + PGSIZE)"
      using Suc.prems(7) p4 fa by force
  qed (rule Suc.prems(5))
  then obtain s' where s': "freerange_loop (p + PGSIZE) vend ?s = Ret s'"
    "free_frames s' (page_run (p + PGSIZE) n @ (frame_of p # xs))" "kend s' = kend s" "use_lock s' = use_lock s"
    by (auto simp: n)
  have "freerange_loop p vend s = Ret s'"
    using step s'(1) room p4 by (simp add: freerange_loop.simps [of p] word_le_nat_alt)
  moreover have "page_run p (unat (vend - p) div 4096) = page_run (p + PGSIZE) n @ [frame_of p]"
    by (simp flip: Suc.hyps(2))
  ultimately show ?case using s' by auto
qed

section \<open>Properties\<close>

text \<open>
  (C1) With the free list intact, \<open>kalloc\<close> always returns. It returns 0 and changes nothing when
  no page is free; otherwise it returns a page of physical memory above the kernel image that
  was not in use, now in use with reference count 1, and no byte of memory has changed.
\<close>

theorem kalloc_fresh_page:
  assumes "kmem_inv s"
  shows "\<exists>a s'. kalloc s = Ret (a, s') \<and> kmem_inv s' \<and> mem s' = mem s \<and>
    (if freelist s = None then a = 0 \<and> s' = s
     else valid_page (kend s) a \<and> a \<notin> allocated s \<and> allocated s' = insert a (allocated s)
       \<and> getRefs a s' = Ret 1)"
  using assms
proof (cases rule: kalloc_cases)
  case none
  with assms show ?thesis by auto
next
  case (some x s')
  then have "valid_page (kend s) (frame_addr x)" by (simp add: valid_page_def V2P_frame_addr)
  moreover have "getRefs (frame_addr x) s' = Ret 1" using some by (simp add: getRefs_def)
  ultimately show ?thesis using some by auto
qed

text \<open>Two frames: frame 1024 free, frame 1025 in use once; the kernel image ends at frame 1024.\<close>

definition two_frames :: kst where
  "two_frames = \<lparr>mem = (\<lambda>_. 0), kend = 0x80400000, kmem_locked = False, use_lock = True,
     freelist = Some 1024,
     runs = (\<lambda>_. \<lparr>run_next = None, refcount = 0\<rparr>)(1025 := \<lparr>run_next = None, refcount = 1\<rparr>)\<rparr>"

lemma two_frames_free: "free_frames two_frames [1024]"
  by (simp add: free_frames_def free_frame_def two_frames_def frame_addr_def P2V_def)

lemma two_frames_inv: "kmem_inv two_frames"
  using two_frames_free by (auto simp: kmem_inv_def)

theorem kalloc_fresh_page_witness:
  "kmem_inv two_frames \<and> (\<exists>s'. kalloc two_frames = Ret (0x80400000, s') \<and> kmem_inv s')"
proof -
  have "kalloc two_frames = Ret (0x80400000, set_refs 1024 1 (two_frames\<lparr>freelist := None\<rparr>))"
    by (simp add: kalloc_free_frames(1) [OF two_frames_free] frame_addr_def P2V_def)
      (simp add: two_frames_def)
  with kalloc_fresh_page [OF two_frames_inv] two_frames_inv show ?thesis by auto
qed

text \<open>
  (C2) \<open>kfree\<close> of a page in use exactly once returns it to the allocator: the page is no
  longer in use, its 4096 bytes hold the junk value 1 and no other byte changed, the free list
  stays intact, and the next \<open>kalloc\<close> hands the same page out again.
\<close>

theorem kfree_then_kalloc:
  assumes inv: "kmem_inv s" and v: "valid_page (kend s) v" and one: "refcount (runs s (frame_of v)) = 1"
  shows "\<exists>s' s''. kfree v s = Ret s' \<and> kmem_inv s' \<and> allocated s' = allocated s - {v}
    \<and> mem s' = (\<lambda>x. if x - v < PGSIZE then 1 else mem s x)
    \<and> kalloc s' = Ret (v, s'') \<and> allocated s'' = allocated s"
proof -
  from inv obtain xs where xs: "free_frames s xs" by (auto simp: kmem_inv_def)
  let ?s = "pushed (frame_of v) (junked v s)"
  note f = kfree_free_frames [OF xs v one]
  have D: "kmem_inv ?s" "allocated ?s = allocated s - {v}" "v \<in> allocated s" "kmem_inv ?s"
    using kfree_RetD [OF inv f(1)] by auto
  obtain s'' where s'': "kalloc ?s = Ret (v, s'')" "allocated s'' = insert v (allocated ?s)"
    using D(1)
  proof (cases rule: kalloc_cases)
    case (some x s')
    then show ?thesis using that [of s'] frame_addr_valid [OF v] by simp
  qed simp
  have "insert v (allocated s - {v}) = allocated s" using D(3) by auto
  with f(1) D s'' show ?thesis by (auto simp: memset_eq)
qed

lemma two_frames_1025: "valid_page (kend two_frames) 0x80401000"
  "frame_of 0x80401000 = 1025" "refcount (runs two_frames 1025) = 1"
  by (simp_all add: valid_page_def page_aligned_def two_frames_def V2P_def frame_of_def)

theorem kfree_then_kalloc_witness:
  "kmem_inv two_frames \<and> valid_page (kend two_frames) 0x80401000 \<and>
   (\<exists>s' s''. kfree 0x80401000 two_frames = Ret s' \<and> kalloc s' = Ret (0x80401000, s''))"
  using kfree_then_kalloc [OF two_frames_inv two_frames_1025(1)] two_frames_inv two_frames_1025 by auto

text \<open>
  (C3) A second \<open>kfree\<close> of the same page, and a \<open>kfree\<close> of a page shared by several
  mappings, are caught: with the free list intact, \<open>kfree\<close> of a valid page whose reference
  count is not 1 panics, and after a successful \<open>kfree\<close> the count is 0.
\<close>

theorem kfree_catches_double_free:
  assumes "kmem_inv s" and "valid_page (kend s) v"
  shows "if refcount (runs s (frame_of v)) = 1
    then \<exists>s'. kfree v s = Ret s' \<and> kfree v s' = Panic ''kfree: freeing a shared page''
    else kfree v s = Panic ''kfree: freeing a shared page''"
  using assms by (simp add: kfree_unlocked kmem_inv_unlocked)

theorem kfree_catches_double_free_witness:
  "\<exists>s'. kfree 0x80401000 two_frames = Ret s' \<and>
     kfree 0x80401000 s' = Panic ''kfree: freeing a shared page''"
  using kfree_catches_double_free [OF two_frames_inv two_frames_1025(1)] two_frames_1025 by simp

text \<open>
  (C4) \<open>getNumOfFreePages\<close> terminates and returns the number of free pages; it goes down by one
  with a successful \<open>kalloc\<close> and up by one with \<open>kfree\<close>.
\<close>

theorem free_page_count:
  assumes "free_frames s xs"
  shows "getNumOfFreePages s = Some (length xs)
    \<and> (\<forall>a s'. kalloc s = Ret (a, s') \<longrightarrow> getNumOfFreePages s' = Some (length xs - (if a = 0 then 0 else 1)))
    \<and> (\<forall>v s'. kfree v s = Ret s' \<longrightarrow> getNumOfFreePages s' = Some (length xs + 1))"
proof (intro conjI allI impI)
  show "getNumOfFreePages s = Some (length xs)" by (rule getNumOfFreePages_eq [OF assms])
next
  fix a s' assume k: "kalloc s = Ret (a, s')"
  show "getNumOfFreePages s' = Some (length xs - (if a = 0 then 0 else 1))"
  proof (cases xs)
    case Nil
    with k kalloc_free_frames(1) [OF assms] getNumOfFreePages_eq [OF assms] show ?thesis by simp
  next
    case (Cons x ys)
    then have "x < MAXPAGES" using assms by (auto simp: free_frames_def free_frame_def)
    with Cons k kalloc_free_frames [OF assms] show ?thesis
      by (auto simp: getNumOfFreePages_eq)
  qed
next
  fix v s' assume k: "kfree v s = Ret s'"
  have inv: "kmem_inv s" using assms by (auto simp: kmem_inv_def)
  show "getNumOfFreePages s' = Some (length xs + 1)"
    using getNumOfFreePages_eq [OF kfree_free_frames(2) [OF assms kfree_RetD(1,2) [OF inv k]]]
      kfree_RetD(4) [OF inv k] by simp
qed

theorem free_page_count_witness:
  "getNumOfFreePages two_frames = Some 1 \<and>
   (\<exists>s'. kalloc two_frames = Ret (0x80400000, s') \<and> getNumOfFreePages s' = Some 0)"
proof -
  have k: "kalloc two_frames = Ret (0x80400000, set_refs 1024 1 (two_frames\<lparr>freelist := None\<rparr>))"
    by (simp add: kalloc_free_frames(1) [OF two_frames_free] frame_addr_def P2V_def)
      (simp add: two_frames_def)
  show ?thesis using free_page_count [OF two_frames_free] k by simp
qed

text \<open>
  (C5) \<open>freerange\<close>, and so the boot-time \<open>kinit1\<close>, terminates and puts exactly the whole pages
  between its bounds on the free list, each once, the highest first.
\<close>

theorem kinit1_frees_range:
  assumes "freelist s = None" and "kend s \<le> PGROUNDUP vstart" and "KERNBASE \<le> PGROUNDUP vstart"
    and "PGROUNDUP vstart \<le> vend" and "vend \<le> P2V PHYSTOP"
  shows "\<exists>s'. kinit1 vstart vend s = Ret s' \<and>
    free_frames s' (page_run (PGROUNDUP vstart) (unat (vend - PGROUNDUP vstart) div 4096))"
proof -
  let ?s = "s\<lparr>kmem_locked := False, use_lock := False\<rparr>"
  have "free_frames ?s []" using assms(1) by (simp add: free_frames_def)
  with freerange_loop_free_frames [of ?s "[]" "PGROUNDUP vstart" vend] assms show ?thesis
    by (auto simp: kinit1_def freerange_def P2V_def)
qed

theorem kinit1_frees_range_witness:
  "\<exists>s'. kinit1 0x80400123 0x80403456 (two_frames\<lparr>freelist := None\<rparr>) = Ret s' \<and>
     free_frames s' [1026, 1025]"
proof -
  have r: "PGROUNDUP 0x80400123 = 0x80401000" by (simp add: PGROUNDUP_def)
  have run: "page_run 0x80401000 (Suc (Suc 0)) = [1026, 1025]"
    by (simp add: frame_of_def V2P_def)
  have n: "unat (0x80403456 - 0x80401000 :: u32) div 4096 = Suc (Suc 0)" by simp
  have "\<exists>s'. kinit1 0x80400123 0x80403456 (two_frames\<lparr>freelist := None\<rparr>) = Ret s' \<and>
    free_frames s' (page_run 0x80401000 (unat (0x80403456 - 0x80401000 :: u32) div 4096))"
    using kinit1_frees_range [of "two_frames\<lparr>freelist := None\<rparr>" "0x80400123" "0x80403456"]
    unfolding r by (simp add: two_frames_def P2V_def)
  then show ?thesis unfolding n run .
qed

end
