(* ===== verification/Vm.thy ===== *)
theory Vm
  imports Kalloc
begin

text \<open>
  The page-table operations of \<open>vm.c\<close> that need no process: \<open>walkpgdir\<close>, \<open>mappages\<close>,
  \<open>inituvm\<close>, \<open>clearpteu\<close>, \<open>uva2ka\<close>, \<open>copyout\<close>. Page directories and page tables live in the byte
  memory of the allocator state \<open>kst\<close> and are read and written a word at a time, as the code does.

  The lemmas read a page directory as a function from virtual addresses to page-table entries
  (\<open>pte_val\<close>). \<open>walkpgdir\<close> with \<open>alloc\<close> adds page tables and leaves that function alone; \<open>mappages\<close>
  changes it on exactly the pages of its range; \<open>copyout\<close> writes exactly the bytes that the
  user addresses of its range name.
\<close>

unbundle bit_operations_syntax

section \<open>Operations\<close>

definition walkpgdir :: "addr \<Rightarrow> addr \<Rightarrow> bool \<Rightarrow> kst \<Rightarrow> (addr \<times> kst) outcome" where
  "walkpgdir pgdir va alloc s =
     (let pde = pgdir + 4 * PDX va; e = load32 (mem s) pde in
      if has e PTE_P then Ret (P2V (PTE_ADDR e) + 4 * PTX va, s)
      else if \<not> alloc then Ret (0, s)
      else bnd (kalloc s) (\<lambda>(pgtab, s).
        if pgtab = 0 then Ret (0, s)
        else
          let m = memset (mem s) pgtab 0 PGSIZE;
              m = store32 m pde (V2P pgtab OR PTE_P OR PTE_W OR PTE_U)
          in Ret (pgtab + 4 * PTX va, s\<lparr>mem := m\<rparr>)))"

text \<open>
  \<open>mappages\<close>: one turn of its loop, and the loop. Both ends of the range are page aligned, so the
  loop, which stops when \<open>a == last\<close>, makes \<open>(last - a) / PGSIZE\<close> turns and then one more.
\<close>

definition mappages_turn :: "addr \<Rightarrow> addr \<Rightarrow> u32 \<Rightarrow> u32 \<Rightarrow> kst \<Rightarrow> (int \<times> kst) outcome" where
  "mappages_turn pgdir a pa perm s =
     bnd (walkpgdir pgdir a True s) (\<lambda>(pte, s).
     if pte = 0 then Ret (-1, s)
     else if has (load32 (mem s) pte) PTE_P then Panic ''remap''
     else Ret (0, s\<lparr>mem := store32 (mem s) pte (pa OR perm OR PTE_P)\<rparr>))"

primrec mappages_loop :: "nat \<Rightarrow> addr \<Rightarrow> addr \<Rightarrow> u32 \<Rightarrow> u32 \<Rightarrow> kst \<Rightarrow> (int \<times> kst) outcome" where
  "mappages_loop 0 pgdir a pa perm s = mappages_turn pgdir a pa perm s"
| "mappages_loop (Suc n) pgdir a pa perm s =
     bnd (mappages_turn pgdir a pa perm s) (\<lambda>(r, s).
     if r < 0 then Ret (r, s)
     else mappages_loop n pgdir (a + PGSIZE) (pa + PGSIZE) perm s)"

definition mappages :: "addr \<Rightarrow> addr \<Rightarrow> u32 \<Rightarrow> u32 \<Rightarrow> u32 \<Rightarrow> kst \<Rightarrow> (int \<times> kst) outcome" where
  "mappages pgdir va sz pa perm s =
     (let a = PGROUNDDOWN va; lst = PGROUNDDOWN (va + sz - 1)
      in mappages_loop (unat ((lst - a) div PGSIZE)) pgdir a pa perm s)"

text \<open>\<open>memmove\<close> of a buffer given by its bytes \<open>bs\<close> to the address \<open>a\<close>.\<close>

definition put_bytes :: "bmem \<Rightarrow> addr \<Rightarrow> u8 list \<Rightarrow> bmem" where
  "put_bytes m a bs = (\<lambda>x. if unat (x - a) < length bs then bs ! unat (x - a) else m x)"

definition inituvm :: "addr \<Rightarrow> u8 list \<Rightarrow> kst \<Rightarrow> kst outcome" where
  "inituvm pgdir init s =
     (if length init \<ge> 4096 then Panic ''inituvm: more than a page''
      else bnd (kalloc s) (\<lambda>(page, s).
        if page = 0 then Fault
        else let s = s\<lparr>mem := memset (mem s) page 0 PGSIZE\<rparr> in
        bnd (mappages pgdir 0 PGSIZE (V2P page) (PTE_W OR PTE_U) s) (\<lambda>(_, s).
        Ret (s\<lparr>mem := put_bytes (mem s) page init\<rparr>))))"

definition clearpteu :: "addr \<Rightarrow> addr \<Rightarrow> kst \<Rightarrow> kst outcome" where
  "clearpteu pgdir uva s =
     bnd (walkpgdir pgdir uva False s) (\<lambda>(pte, s).
     if pte = 0 then Panic ''clearpteu''
     else Ret (s\<lparr>mem := store32 (mem s) pte (load32 (mem s) pte AND NOT PTE_U)\<rparr>))"

text \<open>\<open>uva2ka\<close> follows the entry pointer without a test for 0.\<close>

definition uva2ka :: "addr \<Rightarrow> addr \<Rightarrow> kst \<Rightarrow> addr outcome" where
  "uva2ka pgdir uva s =
     bnd (walkpgdir pgdir uva False s) (\<lambda>(pte, s).
     if pte = 0 then Fault
     else let e = load32 (mem s) pte in
       if \<not> has e PTE_P then Ret 0
       else if \<not> has e PTE_U then Ret 0
       else Ret (P2V (PTE_ADDR e)))"

text \<open>
  \<open>copyout\<close>: the bytes still to copy are the list \<open>buf\<close> (\<open>len\<close> is its length); each turn fills the
  rest of one page.
\<close>

function copyout :: "addr \<Rightarrow> addr \<Rightarrow> u8 list \<Rightarrow> kst \<Rightarrow> (int \<times> kst) outcome" where
  "copyout pgdir va buf s =
     (if buf = [] then Ret (0, s)
      else
        let va0 = PGROUNDDOWN va in
        bnd (uva2ka pgdir va0 s) (\<lambda>pa0.
        if pa0 = 0 then Ret (-1, s)
        else
          let room = PGSIZE - (va - va0);
              n = (if unat room > length buf then length buf else unat room);
              s = s\<lparr>mem := put_bytes (mem s) (pa0 + (va - va0)) (take n buf)\<rparr>
          in copyout pgdir (va0 + PGSIZE) (drop n buf) s))"
  by pat_completeness auto
termination
proof (relation "measure (\<lambda>(pgdir, va, buf, s). length buf)")
  fix va va0 room n and buf :: "u8 list"
  show "wf (measure (\<lambda>(pgdir :: addr, va :: addr, buf :: u8 list, s :: kst). length buf))" by simp
  fix pgdir s xa sa
  assume "buf \<noteq> []" "va0 = PGROUNDDOWN va" "room = PGSIZE - (va - va0)"
    "n = (if unat room > length buf then length buf else unat room)"
  moreover have "room \<noteq> 0"
  proof
    assume "room = 0"
    then have "va - va0 = PGSIZE" using calculation by simp
    then have "unat (va - PGROUNDDOWN va) = 4096" using calculation by simp
    moreover have "unat (va - PGROUNDDOWN va) = unat va mod 4096"
      by (simp add: unat_sub PGROUNDDOWN_le unat_PGROUNDDOWN)
    moreover have "unat va mod 4096 < 4096" by simp
    ultimately show False by linarith
  qed
  then have "0 < unat room" by (simp add: unat_gt_0)
  ultimately show "((pgdir, va0 + PGSIZE, drop n buf, sa), pgdir, va, buf, s)
      \<in> measure (\<lambda>(pgdir :: addr, va :: addr, buf :: u8 list, s :: kst). length buf)"
    by auto
qed

declare copyout.simps [simp del]

section \<open>Pages and words\<close>

lemma unat_ge_page: "page_aligned a \<Longrightarrow> a \<noteq> 0 \<Longrightarrow> 4096 \<le> unat a"
  unfolding page_aligned_iff by (metis dvd_imp_le mod_0_imp_dvd unat_gt_0)

lemma unat_page_top: "page_aligned a \<Longrightarrow> unat a \<le> 4294963200"
proof -
  assume "page_aligned a"
  then obtain k where k: "unat a = 4096 * k" unfolding page_aligned_iff by (auto simp: dvd_def dest!: mod_0_imp_dvd)
  with unat_lt_32 [of a] have "k < 1048576" by simp
  with k show ?thesis by simp
qed

lemma unat_entry: "page_aligned p \<Longrightarrow> unat i < 1024 \<Longrightarrow> unat (p + 4 * i) = unat p + 4 * unat i"
  using unat_page_top [of p] by (simp add: unat_word_ariths)

lemma entry_in_page:
  assumes "page_aligned p" "page_aligned q" "unat i < 1024"
  shows "p + 4 * i - q < 4096 \<longleftrightarrow> p = q"
proof
  assume lt: "p + 4 * i - q < 4096"
  have "unat (p - q + 4 * i) = unat (p - q) + 4 * unat i"
    using assms by (intro unat_entry) auto
  moreover have eq: "p + 4 * i - q = p - q + 4 * i" by simp
  ultimately have "unat (p - q) < 4096" using lt unfolding eq word_less_nat_alt by simp
  with assms unat_ge_page [of "p - q"] show "p = q" by force
next
  assume "p = q"
  with assms(3) show "p + 4 * i - q < 4096" by (simp add: word_less_nat_alt unat_word_ariths)
qed

lemma entry_eq:
  assumes "page_aligned p" "page_aligned q" "unat i < 1024" "unat j < 1024"
  shows "p + 4 * i = q + 4 * j \<longleftrightarrow> p = q \<and> i = j"
proof
  assume eq: "p + 4 * i = q + 4 * j"
  have "p + 4 * i - q < 4096" unfolding eq using assms(4) by (simp add: word_less_nat_alt unat_word_ariths)
  then have "p = q" using entry_in_page [OF assms(1,2,3)] by simp
  moreover have "unat i = unat j"
    using arg_cong [OF eq, of unat] assms \<open>p = q\<close> by (simp add: unat_entry)
  ultimately show "p = q \<and> i = j" by (simp add: word_unat_eq_iff)
qed simp

lemma word_aligned_entry [simp]: "page_aligned p \<Longrightarrow> word_aligned (p + 4 * i)"
  by (simp add: page_aligned_word_aligned)

text \<open>The words of a page are made of its bytes.\<close>

definition same_page :: "bmem \<Rightarrow> bmem \<Rightarrow> addr \<Rightarrow> bool" where
  "same_page m m' q \<longleftrightarrow> (\<forall>x. x - q < 4096 \<longrightarrow> m' x = m x)"

lemma same_page_refl [simp]: "same_page m m q"
  by (simp add: same_page_def)

lemma same_page_trans: "same_page m m' q \<Longrightarrow> same_page m' m'' q \<Longrightarrow> same_page m m'' q"
  by (simp add: same_page_def)

lemma word_in_page:
  assumes "word_aligned d" "j < 4"
  shows "d + of_nat j < 4096 \<longleftrightarrow> d < (4096 :: u32)"
proof -
  have "unat (d + of_nat j) = unat d + j" by (rule word_aligned_unat_add [OF assms])
  moreover have "unat d mod 4 = 0" using assms(1) by (simp add: word_aligned_iff)
  ultimately show ?thesis using assms(2) by (simp add: word_less_nat_alt) presburger
qed

lemma word_aligned_diff_page: "word_aligned a \<Longrightarrow> page_aligned p \<Longrightarrow> word_aligned (a - p)"
  using page_aligned_word_aligned [of p] by (simp add: word_aligned_dvd uint_word_ariths dvd_mod)

lemma bytes_in_page:
  assumes "word_aligned a" "page_aligned p" "j < 4"
  shows "a + of_nat j - p < 4096 \<longleftrightarrow> a - p < 4096"
proof -
  have eq: "a + of_nat j - p = a - p + of_nat j" by simp
  show ?thesis unfolding eq by (rule word_in_page [OF word_aligned_diff_page [OF assms(1,2)] assms(3)])
qed

lemma load32_cong:
  assumes "\<And>j. j < 4 \<Longrightarrow> m (a + of_nat j) = m' (a + of_nat j)"
  shows "load32 m a = load32 m' a"
  using assms [of 0] assms [of 1] assms [of 2] assms [of 3] by (simp add: load32_def)

lemma same_page_load32:
  assumes "same_page m m' q" "page_aligned q" "word_aligned a" "a - q < 4096"
  shows "load32 m' a = load32 m a"
  using assms bytes_in_page [OF assms(3,2)] by (intro load32_cong) (simp add: same_page_def)

lemma same_page_entry:
  assumes "same_page m m' q" "page_aligned q" "unat i < 1024"
  shows "load32 m' (q + 4 * i) = load32 m (q + 4 * i)"
  using assms entry_in_page [of q q i] by (intro same_page_load32) auto

lemma load32_memset_page:
  assumes "page_aligned p" "word_aligned a"
  shows "load32 (memset m p 0 4096) a = (if a - p < 4096 then 0 else load32 m a)"
proof (cases "a - p < 4096")
  case True
  have "memset m p 0 4096 (a + of_nat j) = 0" if "j < 4" for j
    using True bytes_in_page [OF assms(2,1) that] by (simp add: memset_eq)
  from this [of 0] this [of 1] this [of 2] this [of 3] True show ?thesis by (simp add: load32_def)
next
  case False
  have "memset m p 0 4096 (a + of_nat j) = m (a + of_nat j)" if "j < 4" for j
    using False bytes_in_page [OF assms(2,1) that] by (simp add: memset_eq)
  with False show ?thesis by (auto intro: load32_cong)
qed

lemma unat_in_page: "page_aligned p \<Longrightarrow> x - p < 4096 \<Longrightarrow> unat x = unat p + unat (x - p)"
proof -
  assume p: "page_aligned p" and "x - p < 4096"
  then have "unat p + unat (x - p) < 4294967296"
    using unat_page_top [OF p] by (simp add: word_less_nat_alt)
  then have "unat (p + (x - p)) = unat p + unat (x - p)" by (rule unat_add_small)
  then show ?thesis by simp
qed

lemma pages_disjoint:
  assumes "page_aligned p" "page_aligned q" "x - p < 4096" "x - q < 4096"
  shows "p = q"
proof -
  have lt: "unat (x - p) < 4096" "unat (x - q) < 4096" using assms(3,4) by (simp_all add: word_less_nat_alt)
  have "unat p + unat (x - p) = unat q + unat (x - q)"
    using unat_in_page [OF assms(1,3)] unat_in_page [OF assms(2,4)] by simp
  moreover obtain k l where "unat p = 4096 * k" "unat q = 4096 * l"
    using assms(1,2) unfolding page_aligned_iff by (auto simp: dvd_def dest!: mod_0_imp_dvd)
  ultimately have kl: "4096 * k + unat (x - p) = 4096 * l + unat (x - q)" "unat p = 4096 * k" "unat q = 4096 * l"
    by simp_all
  from arg_cong [OF kl(1), of "\<lambda>x. x div 4096"] lt have "k = l" by simp
  with kl have "unat p = unat q" by simp
  then show ?thesis by (simp add: word_unat_eq_iff)
qed

lemma same_page_memset:
  assumes "page_aligned p" "page_aligned q" "p \<noteq> q"
  shows "same_page m (memset m p c 4096) q"
  using assms pages_disjoint [OF assms(1,2)] by (auto simp: same_page_def memset_eq)

lemma same_page_store32:
  assumes "page_aligned p" "page_aligned q" "p \<noteq> q" "unat i < 1024"
  shows "same_page m (store32 m (p + 4 * i) v) q"
proof -
  have no: "p + 4 * i + of_nat j \<noteq> x" if "x - q < 4096" "j < 4" for x j
    using that bytes_in_page [of "p + 4 * i" q j] entry_in_page [OF assms(1,2,4)] assms by auto
  from no [of _ 0] no [of _ 1] no [of _ 2] no [of _ 3] show ?thesis
    by (auto simp: same_page_def store32_def)
qed

section \<open>Address spaces\<close>

text \<open>
  What a page directory means: the directory entry of an address, the page table it names, and
  the page-table entry (0 where there is no table).
\<close>

definition pde_val :: "bmem \<Rightarrow> addr \<Rightarrow> addr \<Rightarrow> u32" where
  "pde_val m pgdir va = load32 m (pgdir + 4 * PDX va)"

definition table :: "bmem \<Rightarrow> addr \<Rightarrow> addr \<Rightarrow> addr" where
  "table m pgdir va = P2V (PTE_ADDR (pde_val m pgdir va))"

definition has_table :: "bmem \<Rightarrow> addr \<Rightarrow> addr \<Rightarrow> bool" where
  "has_table m pgdir va \<longleftrightarrow> has (pde_val m pgdir va) PTE_P"

definition pte_val :: "bmem \<Rightarrow> addr \<Rightarrow> addr \<Rightarrow> u32" where
  "pte_val m pgdir va = (if has_table m pgdir va then load32 m (table m pgdir va + 4 * PTX va) else 0)"

text \<open>
  A well-formed page directory: it and its page tables are pages in use, and no page serves two
  purposes among them.
\<close>

definition pgdir_ok :: "kst \<Rightarrow> addr \<Rightarrow> bool" where
  "pgdir_ok s pgdir \<longleftrightarrow> pgdir \<in> allocated s \<and>
     (\<forall>va. has_table (mem s) pgdir va \<longrightarrow>
        table (mem s) pgdir va \<in> allocated s \<and> table (mem s) pgdir va \<noteq> pgdir) \<and>
     (\<forall>va va'. has_table (mem s) pgdir va \<longrightarrow> has_table (mem s) pgdir va' \<longrightarrow>
        table (mem s) pgdir va = table (mem s) pgdir va' \<longrightarrow> PDX va = PDX va')"

text \<open>The pages a page directory is made of.\<close>

definition pt_pages :: "bmem \<Rightarrow> addr \<Rightarrow> addr set" where
  "pt_pages m pgdir = insert pgdir {table m pgdir va |va. has_table m pgdir va}"

lemma page_aligned_table [simp]: "page_aligned (table m pgdir va)"
  by (simp add: table_def)

lemma pgdir_ok_aligned: "pgdir_ok s pgdir \<Longrightarrow> page_aligned pgdir"
  unfolding pgdir_ok_def by (blast dest: allocated_page_aligned)

lemma pgdir_ok_allocated: "pgdir_ok s pgdir \<Longrightarrow> pgdir \<in> allocated s"
  unfolding pgdir_ok_def by blast

lemma pgdir_ok_table:
  "pgdir_ok s pgdir \<Longrightarrow> has_table (mem s) pgdir va \<Longrightarrow>
   table (mem s) pgdir va \<in> allocated s \<and> table (mem s) pgdir va \<noteq> pgdir"
  unfolding pgdir_ok_def by blast

lemma pgdir_ok_table_inj:
  "pgdir_ok s pgdir \<Longrightarrow> has_table (mem s) pgdir va \<Longrightarrow> has_table (mem s) pgdir va' \<Longrightarrow>
   table (mem s) pgdir va = table (mem s) pgdir va' \<Longrightarrow> PDX va = PDX va'"
  unfolding pgdir_ok_def by blast

lemma has_table_PDX: "PDX va = PDX va' \<Longrightarrow> has_table m pgdir va = has_table m pgdir va'"
  and table_PDX: "PDX va = PDX va' \<Longrightarrow> table m pgdir va = table m pgdir va'"
  by (simp_all add: has_table_def table_def pde_val_def)

lemma same_page_pde:
  "same_page m m' pgdir \<Longrightarrow> page_aligned pgdir \<Longrightarrow> pde_val m' pgdir va = pde_val m pgdir va"
  by (simp add: pde_val_def same_page_entry)

lemma same_page_has_table:
  "same_page m m' pgdir \<Longrightarrow> page_aligned pgdir \<Longrightarrow> has_table m' pgdir va = has_table m pgdir va"
  by (simp add: has_table_def same_page_pde)

lemma same_page_table:
  "same_page m m' pgdir \<Longrightarrow> page_aligned pgdir \<Longrightarrow> table m' pgdir va = table m pgdir va"
  by (simp add: table_def same_page_pde)

lemma same_page_pte:
  assumes "page_aligned pgdir" "same_page m m' pgdir"
    "has_table m pgdir va \<Longrightarrow> same_page m m' (table m pgdir va)"
  shows "pte_val m' pgdir va = pte_val m pgdir va"
  using assms by (simp add: pte_val_def same_page_has_table same_page_table same_page_entry)

lemma pte_val_frame:
  assumes "page_aligned pgdir" "\<And>q. q \<in> pt_pages m pgdir \<Longrightarrow> same_page m m' q"
  shows "pte_val m' pgdir va = pte_val m pgdir va"
  using assms by (intro same_page_pte) (auto simp: pt_pages_def)

lemma walkpgdir_eq:
  "walkpgdir pgdir va alloc s =
     (if has_table (mem s) pgdir va then Ret (table (mem s) pgdir va + 4 * PTX va, s)
      else if \<not> alloc then Ret (0, s)
      else bnd (kalloc s) (\<lambda>(pgtab, s).
        if pgtab = 0 then Ret (0, s)
        else Ret (pgtab + 4 * PTX va,
          s\<lparr>mem := store32 (memset (mem s) pgtab 0 PGSIZE) (pgdir + 4 * PDX va)
                    (V2P pgtab OR PTE_P OR PTE_W OR PTE_U)\<rparr>)))"
  unfolding walkpgdir_def Let_def has_table_def table_def pde_val_def by (rule refl)

lemma entry_nonzero:
  assumes "q \<in> allocated s" "unat i < 1024"
  shows "q + 4 * i \<noteq> 0"
proof
  assume "q + 4 * i = 0"
  then have "unat q + 4 * unat i = 0"
    using unat_entry [OF allocated_page_aligned [OF assms(1)] assms(2)] by simp
  with allocated_nonzero [OF assms(1)] show False by (simp add: unat_eq_0)
qed

text \<open>Without \<open>alloc\<close>, the walk is a lookup.\<close>

lemma walkpgdir_lookup:
  "walkpgdir pgdir va False s =
     Ret (if has_table (mem s) pgdir va then table (mem s) pgdir va + 4 * PTX va else 0, s)"
  by (simp add: walkpgdir_eq)

text \<open>With \<open>alloc\<close>: the new directory entry, read back.\<close>

definition new_table_mem :: "bmem \<Rightarrow> addr \<Rightarrow> addr \<Rightarrow> addr \<Rightarrow> bmem" where
  "new_table_mem m pgdir va pgtab =
     store32 (memset m pgtab 0 PGSIZE) (pgdir + 4 * PDX va) (V2P pgtab OR PTE_P OR PTE_W OR PTE_U)"

lemma new_pde:
  assumes "page_aligned pgtab"
  shows "has (V2P pgtab OR PTE_P OR PTE_W OR PTE_U) PTE_P"
    and "P2V (PTE_ADDR (V2P pgtab OR PTE_P OR PTE_W OR PTE_U)) = pgtab"
proof -
  have "has PTE_P PTE_P" by (simp add: has_def)
  then show "has (V2P pgtab OR PTE_P OR PTE_W OR PTE_U) PTE_P" unfolding has_or by blast
  have "PTE_ADDR (V2P pgtab OR (PTE_P OR PTE_W OR PTE_U)) = V2P pgtab"
    by (rule PTE_ADDR_OR) (use assms in simp_all)
  then show "P2V (PTE_ADDR (V2P pgtab OR PTE_P OR PTE_W OR PTE_U)) = pgtab"
    by (simp only: P2V_V2P)
qed

lemma new_pde_val:
  assumes pg: "page_aligned pgdir" and a: "page_aligned a" and ne: "a \<noteq> pgdir"
  shows "pde_val (new_table_mem m pgdir va a) pgdir va' =
     (if PDX va' = PDX va then V2P a OR PTE_P OR PTE_W OR PTE_U else pde_val m pgdir va')"
proof (cases "PDX va' = PDX va")
  case True
  then show ?thesis by (simp add: pde_val_def new_table_mem_def)
next
  case False
  then have "pgdir + 4 * PDX va \<noteq> pgdir + 4 * PDX va'" using entry_eq [OF pg pg, of "PDX va" "PDX va'"] by auto
  then show ?thesis
    using False entry_in_page [OF pg a, of "PDX va'"] ne pg
    by (simp add: pde_val_def new_table_mem_def load32_memset_page [OF a])
qed

lemma new_has_table:
  assumes pg: "page_aligned pgdir" and a: "page_aligned a" and ne: "a \<noteq> pgdir"
  shows "has_table (new_table_mem m pgdir va a) pgdir va' \<longleftrightarrow> PDX va' = PDX va \<or> has_table m pgdir va'"
  using new_pde(1) [OF a] by (simp only: has_table_def new_pde_val [OF assms] split: if_split) blast

lemma new_table:
  assumes pg: "page_aligned pgdir" and a: "page_aligned a" and ne: "a \<noteq> pgdir"
  shows "table (new_table_mem m pgdir va a) pgdir va' = (if PDX va' = PDX va then a else table m pgdir va')"
  using new_pde(2) [OF a] by (simp only: table_def new_pde_val [OF assms] split: if_split) blast

lemma new_same_page:
  assumes pg: "page_aligned pgdir" and a: "page_aligned a"
    and "page_aligned q" "q \<noteq> pgdir" "q \<noteq> a"
  shows "same_page m (new_table_mem m pgdir va a) q"
  unfolding new_table_mem_def using assms pg a
  by (intro same_page_trans [OF same_page_memset [OF a] same_page_store32 [OF pg]]) auto


text \<open>
  \<open>extends pgdir s s'\<close>: \<open>s'\<close> is \<open>s\<close> with page tables possibly added to \<open>pgdir\<close>: the allocator and
  the directory are intact, no page was freed or changed its reference count, and every page in
  use outside the directory's own pages holds what it held.
\<close>

definition extends :: "addr \<Rightarrow> kst \<Rightarrow> kst \<Rightarrow> bool" where
  "extends pgdir s s' \<longleftrightarrow> kmem_inv s' \<and> pgdir_ok s' pgdir \<and> kend s' = kend s \<and>
     allocated s \<subseteq> allocated s' \<and>
     (\<forall>q\<in>allocated s. refcount (runs s' (frame_of q)) = refcount (runs s (frame_of q))) \<and>
     pt_pages (mem s') pgdir \<subseteq> pt_pages (mem s) pgdir \<union> (allocated s' - allocated s) \<and>
     (\<forall>q\<in>allocated s - pt_pages (mem s) pgdir. same_page (mem s) (mem s') q)"

lemma extends_refl: "kmem_inv s \<Longrightarrow> pgdir_ok s pgdir \<Longrightarrow> extends pgdir s s"
  by (simp add: extends_def)

lemma extends_trans:
  assumes "extends pgdir s s'" "extends pgdir s' s''"
  shows "extends pgdir s s''"
  unfolding extends_def
proof (intro conjI ballI)
  show "kmem_inv s''" "pgdir_ok s'' pgdir" "kend s'' = kend s" "allocated s \<subseteq> allocated s''"
    using assms by (auto simp: extends_def)
  fix q assume q: "q \<in> allocated s"
  then show "refcount (runs s'' (frame_of q)) = refcount (runs s (frame_of q))"
    using assms by (auto simp: extends_def)
next
  show "pt_pages (mem s'') pgdir \<subseteq> pt_pages (mem s) pgdir \<union> (allocated s'' - allocated s)"
    using assms unfolding extends_def by blast
next
  fix q assume q: "q \<in> allocated s - pt_pages (mem s) pgdir"
  then have "same_page (mem s) (mem s') q" "q \<in> allocated s' - pt_pages (mem s') pgdir"
    using assms(1) unfolding extends_def by blast+
  then show "same_page (mem s) (mem s'') q"
    using assms(2) unfolding extends_def by (blast intro: same_page_trans)
qed

lemma pt_pages_new:
  assumes pg: "page_aligned pgdir" and a: "page_aligned a" and ne: "a \<noteq> pgdir"
  shows "pt_pages (new_table_mem m pgdir va a) pgdir \<subseteq> insert a (pt_pages m pgdir)"
proof
  fix q assume "q \<in> pt_pages (new_table_mem m pgdir va a) pgdir"
  then consider "q = pgdir" | va' where "q = table (new_table_mem m pgdir va a) pgdir va'"
      "has_table (new_table_mem m pgdir va a) pgdir va'"
    unfolding pt_pages_def by blast
  then show "q \<in> insert a (pt_pages m pgdir)"
  proof cases
    case 2
    then show ?thesis
      using new_has_table [OF assms, of m va va'] new_table [OF assms, of m va va']
      by (cases "PDX va' = PDX va") (auto simp: pt_pages_def)
  qed (simp add: pt_pages_def)
qed

lemma walk_new_table:
  assumes inv: "kmem_inv s" and ok: "pgdir_ok s pgdir" and no: "\<not> has_table (mem s) pgdir va"
    and x: "x < MAXPAGES" "frame_addr x \<notin> allocated s"
    and s1: "s1 = set_refs x 1 (s\<lparr>freelist := run_next (runs s x)\<rparr>)" "kmem_inv s1"
      "allocated s1 = insert (frame_addr x) (allocated s)"
    and s': "s' = s1\<lparr>mem := new_table_mem (mem s) pgdir va (frame_addr x)\<rparr>"
  shows "extends pgdir s s'" and "pte_val (mem s') pgdir va' = pte_val (mem s) pgdir va'"
    and "has_table (mem s') pgdir va" and "table (mem s') pgdir va = frame_addr x"
proof -
  let ?a = "frame_addr x" and ?m = "new_table_mem (mem s) pgdir va (frame_addr x)"
  note pg = pgdir_ok_aligned [OF ok] and al = pgdir_ok_allocated [OF ok]
  have ne: "?a \<noteq> pgdir" using x al by auto
  note H = new_has_table [OF pg page_aligned_frame_addr ne, of "mem s" va]
    and T = new_table [OF pg page_aligned_frame_addr ne, of "mem s" va]
  show "has_table (mem s') pgdir va" "table (mem s') pgdir va = ?a"
    by (simp_all add: s' H T)
  have tne: "table (mem s) pgdir w \<noteq> ?a" "table (mem s) pgdir w \<noteq> pgdir" if "has_table (mem s) pgdir w" for w
    using pgdir_ok_table [OF ok that] x by auto
  show "pte_val (mem s') pgdir va' = pte_val (mem s) pgdir va'"
  proof (cases "PDX va' = PDX va")
    case True
    have "load32 ?m (?a + 4 * PTX va') = load32 (memset (mem s) ?a 0 4096) (?a + 4 * PTX va')"
      using same_page_store32 [OF pg page_aligned_frame_addr ne [symmetric], of "PDX va"]
      by (simp add: new_table_mem_def same_page_entry)
    also have "\<dots> = 0" using entry_in_page [of ?a ?a "PTX va'"] by (simp add: load32_memset_page)
    finally show ?thesis
      using True no has_table_PDX [OF True, of "mem s" pgdir] by (simp add: pte_val_def s' H T)
  next
    case False
    show ?thesis
    proof (cases "has_table (mem s) pgdir va'")
      case True
      with False tne [OF True] show ?thesis
        by (simp add: pte_val_def s' H T same_page_entry [OF new_same_page [OF pg]])
    qed (use False in \<open>simp add: pte_val_def s' H\<close>)
  qed
  have mem': "mem s' = ?m" and al': "allocated s' = insert ?a (allocated s)" and kend': "kend s' = kend s"
    and runs': "runs s' = (runs s)(x := (runs s x)\<lparr>refcount := 1\<rparr>)"
    by (simp_all add: s' s1(3)) (simp_all add: s1(1))
  have ok': "pgdir_ok s' pgdir"
    unfolding pgdir_ok_def al' mem'
  proof (intro conjI allI impI)
    show "pgdir \<in> insert ?a (allocated s)" using al by simp
    fix w assume w: "has_table ?m pgdir w"
    show "table ?m pgdir w \<in> insert ?a (allocated s)" "table ?m pgdir w \<noteq> pgdir"
      using w H T pgdir_ok_table [OF ok] ne by (cases "PDX w = PDX va"; auto)+
    fix v assume "has_table ?m pgdir v" "table ?m pgdir w = table ?m pgdir v"
    with w show "PDX w = PDX v"
      unfolding H T using tne pgdir_ok_table_inj [OF ok] by (metis (full_types))
  qed
  have inv': "kmem_inv s'" using s1(2) by (simp add: s' kmem_inv_def free_frames_def free_frame_def)
  show "extends pgdir s s'"
    unfolding extends_def
  proof (intro conjI ballI)
    show "allocated s \<subseteq> allocated s'" by (auto simp: al')
    show "pt_pages (mem s') pgdir \<subseteq> pt_pages (mem s) pgdir \<union> (allocated s' - allocated s)"
      using pt_pages_new [OF pg page_aligned_frame_addr ne, of "mem s" va] x(2) by (auto simp: mem' al')
  next
    fix q assume "q \<in> allocated s"
    then have "frame_of q \<noteq> x" using x allocated_frame by fastforce
    then show "refcount (runs s' (frame_of q)) = refcount (runs s (frame_of q))" by (simp add: runs')
  next
    fix q assume "q \<in> allocated s - pt_pages (mem s) pgdir"
    then show "same_page (mem s) (mem s') q"
      unfolding mem' using x(2)
      by (intro new_same_page [OF pg]) (auto simp: pt_pages_def intro: allocated_page_aligned)
  qed (fact inv' ok' kend')+
qed

lemma walkpgdir_alloc:
  assumes inv: "kmem_inv s" and ok: "pgdir_ok s pgdir"
  obtains (fail) "walkpgdir pgdir va True s = Ret (0, s)" "freelist s = None" "\<not> has_table (mem s) pgdir va"
  | (walked) s' where "walkpgdir pgdir va True s = Ret (table (mem s') pgdir va + 4 * PTX va, s')"
      "table (mem s') pgdir va + 4 * PTX va \<noteq> 0" "extends pgdir s s'" "has_table (mem s') pgdir va"
      "\<And>va'. pte_val (mem s') pgdir va' = pte_val (mem s) pgdir va'"
proof (cases "has_table (mem s) pgdir va")
  case True
  show ?thesis
  proof (rule that(2) [of s])
    show "walkpgdir pgdir va True s = Ret (table (mem s) pgdir va + 4 * PTX va, s)"
      using True by (simp add: walkpgdir_eq)
    show "table (mem s) pgdir va + 4 * PTX va \<noteq> 0"
      using pgdir_ok_table [OF ok True] by (intro entry_nonzero [of _ s]) auto
  qed (use True inv ok in \<open>auto intro: extends_refl\<close>)
next
  case False
  from inv show ?thesis
  proof (cases rule: kalloc_cases)
    case none
    with False show ?thesis by (intro that(1)) (simp_all add: walkpgdir_eq)
  next
    case (some x s1)
    let ?s = "s1\<lparr>mem := new_table_mem (mem s) pgdir va (frame_addr x)\<rparr>"
    note W = walk_new_table [OF inv ok False some(2,4,6,7,8) refl]
    have "walkpgdir pgdir va True s = Ret (frame_addr x + 4 * PTX va, ?s)"
      using False some by (simp add: walkpgdir_eq new_table_mem_def)
    moreover have "frame_addr x + 4 * PTX va \<noteq> 0"
      using some(8) by (intro entry_nonzero [of _ s1]) auto
    ultimately show ?thesis using W by (intro that(2) [of ?s]) simp_all
  qed
qed

section \<open>Writing a page-table entry\<close>

lemma PDX_PTX_iff: "PDX a = PDX b \<and> PTX a = PTX b \<longleftrightarrow> PGROUNDDOWN a = PGROUNDDOWN b"
proof -
  have div4: "x div 4194304 = x div 4096 div 1024" for x :: nat by (simp flip: div_mult2_eq)
  have "PDX a = PDX b \<and> PTX a = PTX b \<longleftrightarrow> unat a div 4096 = unat b div 4096"
    unfolding word_unat_eq_iff unat_PDX unat_PTX div4 by (metis div_mult_mod_eq)
  also have "\<dots> \<longleftrightarrow> PGROUNDDOWN a = PGROUNDDOWN b"
    by (simp add: word_unat_eq_iff unat_PGROUNDDOWN minus_mod_eq_mult_div)
  finally show ?thesis .
qed

lemma pte_val_round: "PGROUNDDOWN a = PGROUNDDOWN b \<Longrightarrow> pte_val m pgdir a = pte_val m pgdir b"
  using PDX_PTX_iff [of a b] by (simp add: pte_val_def has_table_def table_def pde_val_def)

definition set_pte :: "bmem \<Rightarrow> addr \<Rightarrow> addr \<Rightarrow> u32 \<Rightarrow> bmem" where
  "set_pte m pgdir va v = store32 m (table m pgdir va + 4 * PTX va) v"

lemma set_pte_same_page:
  "page_aligned q \<Longrightarrow> q \<noteq> table m pgdir va \<Longrightarrow> same_page m (set_pte m pgdir va v) q"
  unfolding set_pte_def by (intro same_page_store32) auto

lemma set_pte_lemmas:
  assumes ok: "pgdir_ok s pgdir" and t: "has_table (mem s) pgdir va"
  shows "has_table (set_pte (mem s) pgdir va v) pgdir w = has_table (mem s) pgdir w"
    and "table (set_pte (mem s) pgdir va v) pgdir w = table (mem s) pgdir w"
    and "pt_pages (set_pte (mem s) pgdir va v) pgdir = pt_pages (mem s) pgdir"
    and "pte_val (set_pte (mem s) pgdir va v) pgdir w =
      (if PGROUNDDOWN w = PGROUNDDOWN va then v else pte_val (mem s) pgdir w)"
proof -
  let ?m = "set_pte (mem s) pgdir va v"
  note pg = pgdir_ok_aligned [OF ok]
  have sp: "same_page (mem s) ?m pgdir"
    using pgdir_ok_table [OF ok t] pg by (intro set_pte_same_page) auto
  show H: "has_table ?m pgdir w = has_table (mem s) pgdir w" for w by (rule same_page_has_table [OF sp pg])
  show T: "table ?m pgdir w = table (mem s) pgdir w" for w by (rule same_page_table [OF sp pg])
  show "pt_pages ?m pgdir = pt_pages (mem s) pgdir" by (simp add: pt_pages_def H T)
  show "pte_val ?m pgdir w = (if PGROUNDDOWN w = PGROUNDDOWN va then v else pte_val (mem s) pgdir w)"
  proof (cases "has_table (mem s) pgdir w")
    case False
    then have "PDX w \<noteq> PDX va" using t has_table_PDX by blast
    with False show ?thesis using PDX_PTX_iff [of w va] by (auto simp: pte_val_def H)
  next
    case True
    have *: "table (mem s) pgdir va + 4 * PTX va = table (mem s) pgdir w + 4 * PTX w \<longleftrightarrow>
        PGROUNDDOWN w = PGROUNDDOWN va"
      using pgdir_ok_table_inj [OF ok t True] table_PDX [of w va "mem s" pgdir]
      by (auto simp: entry_eq PDX_PTX_iff [symmetric])
    have "load32 ?m (table (mem s) pgdir w + 4 * PTX w) =
        (if PGROUNDDOWN w = PGROUNDDOWN va then v else load32 (mem s) (table (mem s) pgdir w + 4 * PTX w))"
      unfolding set_pte_def * [symmetric] by auto
    with True show ?thesis by (simp add: pte_val_def H T)
  qed
qed

lemma extends_set_pte:
  assumes inv: "kmem_inv s" and ok: "pgdir_ok s pgdir" and t: "has_table (mem s) pgdir va"
  shows "extends pgdir s (s\<lparr>mem := set_pte (mem s) pgdir va v\<rparr>)"
proof -
  note L = set_pte_lemmas [OF ok t, of v]
  have "pgdir_ok (s\<lparr>mem := set_pte (mem s) pgdir va v\<rparr>) pgdir"
  proof -
    have m: "mem (s\<lparr>mem := set_pte (mem s) pgdir va v\<rparr>) = set_pte (mem s) pgdir va v" by simp
    show ?thesis using ok unfolding pgdir_ok_def m L allocated_fields .
  qed
  moreover have "kmem_inv (s\<lparr>mem := set_pte (mem s) pgdir va v\<rparr>)"
    using inv by (simp add: kmem_inv_def free_frames_def free_frame_def)
  moreover have "same_page (mem s) (set_pte (mem s) pgdir va v) q"
    if "q \<in> allocated s - pt_pages (mem s) pgdir" for q
    using that t by (intro set_pte_same_page) (auto simp: pt_pages_def intro: allocated_page_aligned)
  ultimately show ?thesis by (simp add: extends_def L)
qed

section \<open>mappages\<close>

definition map_range :: "nat \<Rightarrow> addr \<Rightarrow> u32 \<Rightarrow> u32 \<Rightarrow> (addr \<Rightarrow> u32) \<Rightarrow> addr \<Rightarrow> u32" where
  "map_range k a pa perm old va =
     (if unat (PGROUNDDOWN va - a) < 4096 * k then (pa + (PGROUNDDOWN va - a)) OR perm OR PTE_P else old va)"

lemma mappages_turn_cases:
  assumes inv: "kmem_inv s" and ok: "pgdir_ok s pgdir" and a: "page_aligned a"
    and free: "\<not> has (pte_val (mem s) pgdir a) PTE_P"
  obtains (fail) "mappages_turn pgdir a pa perm s = Ret (-1, s)" "freelist s = None"
  | (mapped) s' where "mappages_turn pgdir a pa perm s = Ret (0, s')" "extends pgdir s s'"
      "pte_val (mem s') pgdir = map_range 1 a pa perm (pte_val (mem s) pgdir)"
  using inv ok
proof (cases rule: walkpgdir_alloc [where va = a])
  case fail
  then show ?thesis by (intro that(1)) (simp_all add: mappages_turn_def)
next
  case (walked s1)
  let ?v = "pa OR perm OR PTE_P" and ?s = "s1\<lparr>mem := set_pte (mem s1) pgdir a (pa OR perm OR PTE_P)\<rparr>"
  have s1: "kmem_inv s1" "pgdir_ok s1 pgdir" using walked(3) by (simp_all add: extends_def)
  have "load32 (mem s1) (table (mem s1) pgdir a + 4 * PTX a) = pte_val (mem s1) pgdir a"
    using walked(4) by (simp add: pte_val_def)
  with walked free have "mappages_turn pgdir a pa perm s = Ret (0, ?s)"
    by (simp add: mappages_turn_def set_pte_def)
  moreover have "extends pgdir s ?s"
    using walked(3) extends_set_pte [OF s1 walked(4)] by (rule extends_trans)
  moreover have "pte_val (mem ?s) pgdir = map_range 1 a pa perm (pte_val (mem s) pgdir)"
  proof
    fix w
    have "unat (PGROUNDDOWN w - a) < 4096 \<longleftrightarrow> PGROUNDDOWN w = a"
      using unat_ge_page [of "PGROUNDDOWN w - a"] a by force
    then show "pte_val (mem ?s) pgdir w = map_range 1 a pa perm (pte_val (mem s) pgdir) w"
      using a by (simp add: set_pte_lemmas(4) [OF s1(2) walked(4)] walked(5) map_range_def)
  qed
  ultimately show ?thesis by (rule that(2))
qed

lemma map_range_Suc:
  assumes a: "page_aligned a" and k: "Suc k \<le> 1048576"
  shows "map_range k (a + PGSIZE) (pa + PGSIZE) perm (map_range 1 a pa perm old) = map_range (Suc k) a pa perm old"
proof
  fix w
  let ?d = "PGROUNDDOWN w - a"
  have d': "PGROUNDDOWN w - (a + PGSIZE) = ?d - PGSIZE" by simp
  have pa': "pa + PGSIZE + (?d - PGSIZE) = pa + ?d" by simp
  show "map_range k (a + PGSIZE) (pa + PGSIZE) perm (map_range 1 a pa perm old) w = map_range (Suc k) a pa perm old w"
  proof (cases "?d = 0")
    case True
    have "unat (?d - PGSIZE) = 4294963200" unfolding True by simp
    with k True show ?thesis unfolding map_range_def d' pa' by simp
  next
    case False
    then have ge: "4096 \<le> unat ?d" using a by (intro unat_ge_page) auto
    then have "unat (?d - PGSIZE) = unat ?d - 4096" by (simp add: unat_sub word_le_nat_alt)
    with ge show ?thesis unfolding map_range_def d' pa' by auto
  qed
qed

lemma mappages_loop_cases:
  assumes inv: "kmem_inv s" and ok: "pgdir_ok s pgdir" and a: "page_aligned a" and n: "n < 1048576"
    and free: "\<And>w. unat (PGROUNDDOWN w - a) < 4096 * Suc n \<Longrightarrow> \<not> has (pte_val (mem s) pgdir w) PTE_P"
  shows "\<exists>r k s'. mappages_loop n pgdir a pa perm s = Ret (r, s') \<and> extends pgdir s s' \<and>
    pte_val (mem s') pgdir = map_range k a pa perm (pte_val (mem s) pgdir) \<and>
    (r = 0 \<and> k = Suc n \<or> r = -1 \<and> k \<le> n \<and> freelist s' = None)"
  using assms
proof (induction n arbitrary: s a pa)
  case 0
  have "\<not> has (pte_val (mem s) pgdir a) PTE_P" using 0(3) by (intro 0(5)) simp
  with 0(1-3) show ?case
  proof (cases rule: mappages_turn_cases [where pa = pa and perm = perm])
    case fail
    have "map_range 0 a pa perm (pte_val (mem s) pgdir) = pte_val (mem s) pgdir"
      by (rule ext) (simp add: map_range_def)
    with fail 0 show ?thesis by (auto intro: extends_refl)
  next
    case (mapped s')
    then show ?thesis by (intro exI [of _ 0] exI [of _ "Suc 0"] exI [of _ s']) simp
  qed
next
  case (Suc n)
  have free0: "\<not> has (pte_val (mem s) pgdir a) PTE_P" using Suc.prems(3) by (intro Suc.prems(5)) simp
  show ?case
    using Suc.prems(1-3) free0
  proof (cases rule: mappages_turn_cases [where pa = pa and perm = perm])
    case fail
    have "map_range 0 a pa perm (pte_val (mem s) pgdir) = pte_val (mem s) pgdir"
      by (rule ext) (simp add: map_range_def)
    with fail Suc.prems show ?thesis
      by (intro exI [of _ "-1"] exI [of _ 0] exI [of _ s]) (simp add: extends_refl)
  next
    case (mapped s1)
    let ?a = "a + PGSIZE" and ?pa = "pa + PGSIZE"
    have s1: "kmem_inv s1" "pgdir_ok s1 pgdir" using mapped(2) by (simp_all add: extends_def)
    have free1: "\<not> has (pte_val (mem s1) pgdir w) PTE_P" if w: "unat (PGROUNDDOWN w - ?a) < 4096 * Suc n" for w
    proof -
      let ?d = "PGROUNDDOWN w - a"
      have d': "PGROUNDDOWN w - ?a = ?d - PGSIZE" by simp
      have "?d \<noteq> 0"
      proof
        assume z: "?d = 0"
        have "unat (?d - PGSIZE) = 4294963200" unfolding z by simp
        with w Suc.prems(4) show False unfolding d' by simp
      qed
      then have ge: "4096 \<le> unat ?d" using Suc.prems(3) by (intro unat_ge_page) auto
      then have "unat (?d - PGSIZE) = unat ?d - 4096" by (simp add: unat_sub word_le_nat_alt)
      with w ge have "unat ?d < 4096 * Suc (Suc n)" unfolding d' by simp
      with ge show ?thesis using Suc.prems(5) [of w] by (simp add: mapped(3) map_range_def)
    qed
    have "\<exists>r k s'. mappages_loop n pgdir ?a ?pa perm s1 = Ret (r, s') \<and> extends pgdir s1 s' \<and>
      pte_val (mem s') pgdir = map_range k ?a ?pa perm (pte_val (mem s1) pgdir) \<and>
      (r = 0 \<and> k = Suc n \<or> r = -1 \<and> k \<le> n \<and> freelist s' = None)"
      using s1 Suc.prems(3,4) free1 by (intro Suc.IH) auto
    then obtain r k s' where IH: "mappages_loop n pgdir ?a ?pa perm s1 = Ret (r, s')" "extends pgdir s1 s'"
      "pte_val (mem s') pgdir = map_range k ?a ?pa perm (pte_val (mem s1) pgdir)"
      "r = 0 \<and> k = Suc n \<or> r = -1 \<and> k \<le> n \<and> freelist s' = None" by blast
    have "pte_val (mem s') pgdir = map_range (Suc k) a pa perm (pte_val (mem s) pgdir)"
      unfolding IH(3) mapped(3) using IH(4) Suc.prems(3,4) by (intro map_range_Suc) auto
    moreover have "mappages_loop (Suc n) pgdir a pa perm s = Ret (r, s')" by (simp add: mapped(1) IH(1))
    moreover have "extends pgdir s s'" using mapped(2) IH(2) by (rule extends_trans)
    ultimately show ?thesis using IH(4) by (intro exI [of _ r] exI [of _ "Suc k"] exI [of _ s']) auto
  qed
qed

text \<open>An already present page in the range makes \<open>mappages\<close> panic; a walk that fails stops it.\<close>

lemma mappages_turn_remap:
  assumes "kmem_inv s" "pgdir_ok s pgdir" "has (pte_val (mem s) pgdir a) PTE_P"
  shows "mappages_turn pgdir a pa perm s = Panic ''remap''"
proof -
  have t: "has_table (mem s) pgdir a" using assms(3) by (auto simp: pte_val_def has_def split: if_splits)
  then have "table (mem s) pgdir a + 4 * PTX a \<noteq> 0"
    using pgdir_ok_table [OF assms(2) t] by (intro entry_nonzero [of _ s]) auto
  with t assms(3) show ?thesis by (simp add: mappages_turn_def walkpgdir_eq pte_val_def)
qed

text \<open>
  The pages that meet the bytes \<open>va, \<dots>, va + sz - 1\<close>; a range that does not wrap around.
\<close>

definition pages_of :: "addr \<Rightarrow> u32 \<Rightarrow> addr \<Rightarrow> bool" where
  "pages_of va sz w \<longleftrightarrow> PGROUNDDOWN va \<le> PGROUNDDOWN w \<and> PGROUNDDOWN w \<le> va + sz - 1"

lemma PGROUNDDOWN_unat: "unat (PGROUNDDOWN a) = 4096 * (unat a div 4096)"
  by (simp add: unat_PGROUNDDOWN minus_mod_eq_mult_div)

lemma pages_of_span:
  assumes "0 < sz" "unat va + unat sz \<le> 4294967296"
  shows "pages_of va sz w \<longleftrightarrow>
    unat (PGROUNDDOWN w - PGROUNDDOWN va) < 4096 * Suc (unat ((PGROUNDDOWN (va + sz - 1) - PGROUNDDOWN va) div PGSIZE))"
    and "unat ((PGROUNDDOWN (va + sz - 1) - PGROUNDDOWN va) div PGSIZE) < 1048576"
proof -
  define A W L where "A = unat va div 4096" and "W = unat w div 4096" and "L = (unat va + unat sz - 1) div 4096"
  have sz: "0 < unat sz" using assms(1) by (simp add: unat_gt_0)
  have lst: "unat (va + sz - 1) = unat va + unat sz - 1"
  proof -
    have e: "va + sz - 1 = va + (sz - 1)" by simp
    have "unat (sz - 1) = unat sz - 1" using sz by (simp add: unat_sub word_le_nat_alt)
    then show ?thesis unfolding e using assms sz by (subst unat_add_small) auto
  qed
  have b: "A < 1048576" "W < 1048576" "L < 1048576" "A \<le> L"
    using unat_lt_32 [of va] unat_lt_32 [of w] sz assms(2)
    by (auto simp: A_def W_def L_def less_mult_imp_div_less intro: div_le_mono)
  have r: "unat (PGROUNDDOWN va) = 4096 * A" "unat (PGROUNDDOWN w) = 4096 * W"
    "unat (PGROUNDDOWN (va + sz - 1)) = 4096 * L"
    by (simp_all add: PGROUNDDOWN_unat A_def W_def L_def lst)
  have span: "unat ((PGROUNDDOWN (va + sz - 1) - PGROUNDDOWN va) div PGSIZE) = L - A"
    using b by (simp add: unat_div unat_sub word_le_nat_alt r)
  then show "unat ((PGROUNDDOWN (va + sz - 1) - PGROUNDDOWN va) div PGSIZE) < 1048576" using b by simp
  have "unat (PGROUNDDOWN w - PGROUNDDOWN va) < 4096 * Suc (L - A) \<longleftrightarrow> A \<le> W \<and> W \<le> L"
  proof (cases "A \<le> W")
    case True
    then have "unat (PGROUNDDOWN w - PGROUNDDOWN va) = 4096 * (W - A)"
      by (simp add: unat_sub word_le_nat_alt r)
    with True b(4) show ?thesis by auto
  next
    case False
    then have "unat (PGROUNDDOWN w - PGROUNDDOWN va) = 4096 * W + 4294967296 - 4096 * A"
      using b by (subst unat_sub_if_size) (simp add: r word_size)
    with False b show ?thesis by auto
  qed
  moreover have "pages_of va sz w \<longleftrightarrow> A \<le> W \<and> 4096 * W \<le> unat va + unat sz - 1"
    by (simp add: pages_of_def word_le_nat_alt r lst)
  moreover have "4096 * W \<le> unat va + unat sz - 1 \<longleftrightarrow> W \<le> L"
    unfolding L_def by (simp add: less_eq_div_iff_mult_less_eq mult.commute)
  ultimately show "pages_of va sz w \<longleftrightarrow>
    unat (PGROUNDDOWN w - PGROUNDDOWN va) < 4096 * Suc (unat ((PGROUNDDOWN (va + sz - 1) - PGROUNDDOWN va) div PGSIZE))"
    by (simp add: span)
qed

lemma mappages_cases:
  assumes inv: "kmem_inv s" and ok: "pgdir_ok s pgdir"
    and sz: "0 < sz" "unat va + unat sz \<le> 4294967296"
    and free: "\<And>w. pages_of va sz w \<Longrightarrow> \<not> has (pte_val (mem s) pgdir w) PTE_P"
  obtains (fail) k s' where "mappages pgdir va sz pa perm s = Ret (-1, s')" "extends pgdir s s'" "freelist s' = None"
      "pte_val (mem s') pgdir = map_range k (PGROUNDDOWN va) pa perm (pte_val (mem s) pgdir)"
      "\<And>w. unat (PGROUNDDOWN w - PGROUNDDOWN va) < 4096 * k \<Longrightarrow> pages_of va sz w"
  | (mapped) s' where "mappages pgdir va sz pa perm s = Ret (0, s')" "extends pgdir s s'"
      "\<And>w. pte_val (mem s') pgdir w = (if pages_of va sz w
         then (pa + (PGROUNDDOWN w - PGROUNDDOWN va)) OR perm OR PTE_P else pte_val (mem s) pgdir w)"
proof -
  let ?n = "unat ((PGROUNDDOWN (va + sz - 1) - PGROUNDDOWN va) div PGSIZE)"
  note span = pages_of_span [OF sz]
  have "\<exists>r k s'. mappages_loop ?n pgdir (PGROUNDDOWN va) pa perm s = Ret (r, s') \<and> extends pgdir s s' \<and>
    pte_val (mem s') pgdir = map_range k (PGROUNDDOWN va) pa perm (pte_val (mem s) pgdir) \<and>
    (r = 0 \<and> k = Suc ?n \<or> r = -1 \<and> k \<le> ?n \<and> freelist s' = None)"
    by (rule mappages_loop_cases [OF inv ok]) (use span(2) free in \<open>simp_all only: span(1) [symmetric] page_aligned_PGROUNDDOWN not_False_eq_True\<close>)
  then obtain r k s' where L: "mappages_loop ?n pgdir (PGROUNDDOWN va) pa perm s = Ret (r, s')" "extends pgdir s s'"
    "pte_val (mem s') pgdir = map_range k (PGROUNDDOWN va) pa perm (pte_val (mem s) pgdir)"
    "r = 0 \<and> k = Suc ?n \<or> r = -1 \<and> k \<le> ?n \<and> freelist s' = None" by blast
  have m: "mappages pgdir va sz pa perm s = Ret (r, s')" unfolding mappages_def Let_def by (rule L(1))
  from L(4) show ?thesis
  proof (elim disjE conjE)
    assume r: "r = 0" "k = Suc ?n"
    show ?thesis
    proof (rule that(2))
      fix w
      show "pte_val (mem s') pgdir w = (if pages_of va sz w
         then (pa + (PGROUNDDOWN w - PGROUNDDOWN va)) OR perm OR PTE_P else pte_val (mem s) pgdir w)"
        unfolding L(3) map_range_def span(1) r(2) by (rule refl)
    qed (use m r L in simp_all)
  next
    assume r: "r = -1" "k \<le> ?n" "freelist s' = None"
    show ?thesis
    proof (rule that(1))
      fix w assume "unat (PGROUNDDOWN w - PGROUNDDOWN va) < 4096 * k"
      then show "pages_of va sz w" unfolding span(1) using r(2) by (elim less_le_trans) simp
    qed (use m r L in simp_all)
  qed
qed

section \<open>User memory through a page directory\<close>

text \<open>
  The user-accessible pages of a page directory, the kernel address of a user address, and
  directories whose user pages are pages in use, distinct from one another and from the page
  tables.
\<close>

definition umapped :: "bmem \<Rightarrow> addr \<Rightarrow> addr \<Rightarrow> bool" where
  "umapped m pgdir w \<longleftrightarrow> has (pte_val m pgdir w) PTE_P \<and> has (pte_val m pgdir w) PTE_U"

definition upage :: "bmem \<Rightarrow> addr \<Rightarrow> addr \<Rightarrow> addr" where
  "upage m pgdir w = P2V (PTE_ADDR (pte_val m pgdir w))"

definition uaddr :: "bmem \<Rightarrow> addr \<Rightarrow> addr \<Rightarrow> addr" where
  "uaddr m pgdir w = upage m pgdir w + (w - PGROUNDDOWN w)"

definition user_ok :: "kst \<Rightarrow> addr \<Rightarrow> bool" where
  "user_ok s pgdir \<longleftrightarrow>
     (\<forall>w. umapped (mem s) pgdir w \<longrightarrow> upage (mem s) pgdir w \<in> allocated s - pt_pages (mem s) pgdir) \<and>
     (\<forall>w w'. umapped (mem s) pgdir w \<longrightarrow> umapped (mem s) pgdir w' \<longrightarrow>
        upage (mem s) pgdir w = upage (mem s) pgdir w' \<longrightarrow> PGROUNDDOWN w = PGROUNDDOWN w')"

lemma page_aligned_upage [simp]: "page_aligned (upage m pgdir w)"
  by (simp add: upage_def)

lemma umapped_has_table: "umapped m pgdir w \<Longrightarrow> has_table m pgdir w"
  by (auto simp: umapped_def pte_val_def split: if_splits)

lemma umapped_round: "PGROUNDDOWN a = PGROUNDDOWN b \<Longrightarrow> umapped m pgdir a = umapped m pgdir b"
  and upage_round: "PGROUNDDOWN a = PGROUNDDOWN b \<Longrightarrow> upage m pgdir a = upage m pgdir b"
  by (simp_all add: umapped_def upage_def pte_val_round [of a b])

lemma page_offset: "w - PGROUNDDOWN w < 4096"
  by (simp add: word_less_nat_alt unat_sub PGROUNDDOWN_le unat_PGROUNDDOWN)

lemma page_of_iff: "page_aligned p \<Longrightarrow> w - p < 4096 \<longleftrightarrow> p = PGROUNDDOWN w"
  using page_offset [of w] pages_disjoint [of p "PGROUNDDOWN w" w] by auto

lemma PGROUNDDOWN_idem [simp]: "PGROUNDDOWN (PGROUNDDOWN w) = PGROUNDDOWN w"
  by simp

lemma uva2ka_eq:
  assumes "pgdir_ok s pgdir"
  shows "uva2ka pgdir w s =
    (if \<not> has_table (mem s) pgdir w then Fault
     else if umapped (mem s) pgdir w then Ret (upage (mem s) pgdir w) else Ret 0)"
proof (cases "has_table (mem s) pgdir w")
  case True
  then have "table (mem s) pgdir w + 4 * PTX w \<noteq> 0"
    using pgdir_ok_table [OF assms True] by (intro entry_nonzero [of _ s]) auto
  with True show ?thesis
    by (simp add: uva2ka_def walkpgdir_lookup umapped_def upage_def pte_val_def Let_def)
qed (simp add: uva2ka_def walkpgdir_lookup)

text \<open>Writes outside the page tables leave the address space alone.\<close>

lemma tables_frame:
  assumes ok: "pgdir_ok s pgdir" and same: "\<And>q. q \<in> pt_pages (mem s) pgdir \<Longrightarrow> same_page (mem s) m q"
  shows "pte_val m pgdir = pte_val (mem s) pgdir" and "pgdir_ok (s\<lparr>mem := m\<rparr>) pgdir"
    and "pt_pages m pgdir = pt_pages (mem s) pgdir"
proof -
  have pg: "page_aligned pgdir" and sp: "same_page (mem s) m pgdir"
    using pgdir_ok_aligned [OF ok] same by (auto simp: pt_pages_def)
  show "pte_val m pgdir = pte_val (mem s) pgdir" by (rule ext, rule pte_val_frame [OF pg same])
  note L = same_page_has_table [OF sp pg] same_page_table [OF sp pg]
  show "pt_pages m pgdir = pt_pages (mem s) pgdir" by (simp add: pt_pages_def L)
  have e: "mem (s\<lparr>mem := m\<rparr>) = m" by simp
  show "pgdir_ok (s\<lparr>mem := m\<rparr>) pgdir" using ok unfolding pgdir_ok_def e L allocated_fields .
qed

lemma user_frame:
  assumes "pte_val m pgdir = pte_val m' pgdir"
  shows "umapped m pgdir = umapped m' pgdir" "upage m pgdir = upage m' pgdir" "uaddr m pgdir = uaddr m' pgdir"
  using assms by (auto simp: umapped_def upage_def uaddr_def)

text \<open>Writing \<open>bs\<close> at the kernel address of a user address \<open>va\<close>, within one page.\<close>

lemma put_in_page:
  assumes p: "page_aligned p" and fit: "unat (va - PGROUNDDOWN va) + length bs \<le> 4096"
    and x: "unat (x - (p + (va - PGROUNDDOWN va))) < length bs"
  shows "x - p < 4096"
proof -
  have e: "x - p = (x - (p + (va - PGROUNDDOWN va))) + (va - PGROUNDDOWN va)" by simp
  have "unat (x - p) = unat (x - (p + (va - PGROUNDDOWN va))) + unat (va - PGROUNDDOWN va)"
    by (subst e, rule unat_add_small) (use fit x in simp)
  with fit x show ?thesis by (simp add: word_less_nat_alt)
qed

lemma put_bytes_user:
  assumes ok: "pgdir_ok s pgdir" "user_ok s pgdir" and va: "umapped (mem s) pgdir va"
    and fit: "unat (va - PGROUNDDOWN va) + length bs \<le> 4096"
    and m: "m = put_bytes (mem s) (upage (mem s) pgdir va + (va - PGROUNDDOWN va)) bs"
  shows "q \<in> pt_pages (mem s) pgdir \<Longrightarrow> same_page (mem s) m q"
    and "umapped (mem s) pgdir w \<Longrightarrow>
      m (uaddr (mem s) pgdir w) = (if unat (w - va) < length bs then bs ! unat (w - va) else mem s (uaddr (mem s) pgdir w))"
    and "(\<And>w. umapped (mem s) pgdir w \<Longrightarrow> x \<noteq> uaddr (mem s) pgdir w) \<Longrightarrow> m x = mem s x"
proof -
  let ?p = "upage (mem s) pgdir va"
  have in_page: "x - ?p < 4096" if "m x \<noteq> mem s x" for x
    using that put_in_page [OF page_aligned_upage fit, of x "mem s" pgdir va]
    by (auto simp: m put_bytes_def split: if_splits)
  have p: "?p \<in> allocated s" "?p \<notin> pt_pages (mem s) pgdir"
    using ok(2) va unfolding user_ok_def by blast+
  have al: "page_aligned q" if "q \<in> pt_pages (mem s) pgdir" for q
    using that pgdir_ok_aligned [OF ok(1)] by (auto simp: pt_pages_def)
  show "same_page (mem s) m q" if q: "q \<in> pt_pages (mem s) pgdir" for q
    unfolding same_page_def
  proof (intro allI impI, rule ccontr)
    fix x assume "x - q < 4096" "m x \<noteq> mem s x"
    then have "?p = q" using in_page al [OF q] by (intro pages_disjoint) auto
    with p q show False by simp
  qed
  show "m (uaddr (mem s) pgdir w) = (if unat (w - va) < length bs then bs ! unat (w - va) else mem s (uaddr (mem s) pgdir w))"
    if w: "umapped (mem s) pgdir w" for w
  proof (cases "PGROUNDDOWN w = PGROUNDDOWN va")
    case True
    then have e: "uaddr (mem s) pgdir w - (?p + (va - PGROUNDDOWN va)) = w - va"
      by (simp add: uaddr_def upage_round [OF True])
    show ?thesis unfolding m put_bytes_def e by (rule refl)
  next
    case False
    then have "upage (mem s) pgdir w \<noteq> ?p" using ok(2) va w unfolding user_ok_def by blast
    moreover have "uaddr (mem s) pgdir w - upage (mem s) pgdir w < 4096"
      using page_offset [of w] by (simp add: uaddr_def)
    ultimately have "m (uaddr (mem s) pgdir w) = mem s (uaddr (mem s) pgdir w)"
      using in_page pages_disjoint [of "upage (mem s) pgdir w" ?p] by fastforce
    moreover have "\<not> unat (w - va) < length bs"
    proof
      assume "unat (w - va) < length bs"
      then have "w - PGROUNDDOWN va < 4096"
        using put_in_page [OF page_aligned_PGROUNDDOWN fit, of w va] by simp
      with False show False by (simp add: page_of_iff)
    qed
    ultimately show ?thesis by simp
  qed
  show "m x = mem s x" if "\<And>w. umapped (mem s) pgdir w \<Longrightarrow> x \<noteq> uaddr (mem s) pgdir w" for x
  proof (rule ccontr)
    assume "m x \<noteq> mem s x"
    then have lt: "x - ?p < 4096" by (rule in_page)
    let ?w = "PGROUNDDOWN va + (x - ?p)"
    have r: "PGROUNDDOWN va = PGROUNDDOWN ?w" using lt page_of_iff [of "PGROUNDDOWN va" ?w] by simp
    have um: "umapped (mem s) pgdir ?w" using va umapped_round [OF r] by blast
    have ua: "uaddr (mem s) pgdir ?w = x"
      unfolding uaddr_def upage_round [OF r [symmetric]] r [symmetric] by simp
    show False by (rule notE [OF that [OF um] ua [symmetric]])
  qed
qed

definition copied_out :: "kst \<Rightarrow> addr \<Rightarrow> addr \<Rightarrow> u8 list \<Rightarrow> bmem \<Rightarrow> bool" where
  "copied_out s pgdir va buf m \<longleftrightarrow>
     (\<forall>q\<in>pt_pages (mem s) pgdir. same_page (mem s) m q) \<and>
     (\<forall>w. umapped (mem s) pgdir w \<longrightarrow> m (uaddr (mem s) pgdir w) =
        (if unat (w - va) < length buf then buf ! unat (w - va) else mem s (uaddr (mem s) pgdir w))) \<and>
     (\<forall>x. (\<forall>w. umapped (mem s) pgdir w \<longrightarrow> x \<noteq> uaddr (mem s) pgdir w) \<longrightarrow> m x = mem s x)"

lemma copied_out_frame:
  assumes "pgdir_ok s pgdir" "copied_out s pgdir va buf m"
  shows "pte_val m pgdir = pte_val (mem s) pgdir" and "pgdir_ok (s\<lparr>mem := m\<rparr>) pgdir"
    and "pt_pages m pgdir = pt_pages (mem s) pgdir"
  using tables_frame [OF assms(1), of m] assms(2) unfolding copied_out_def by blast+

lemma copied_out_user_ok:
  assumes "pgdir_ok s pgdir" "copied_out s pgdir va buf m" "user_ok s pgdir"
  shows "user_ok (s\<lparr>mem := m\<rparr>) pgdir"
proof -
  have e: "mem (s\<lparr>mem := m\<rparr>) = m" by simp
  show ?thesis
    using assms(3) unfolding user_ok_def e allocated_fields copied_out_frame(3) [OF assms(1,2)]
      user_frame [OF copied_out_frame(1) [OF assms(1,2)]] .
qed

lemma sub_word_range:
  assumes "n \<le> l" "l \<le> 4294967296" "n < 4294967296"
  shows "unat (d - of_nat n :: u32) < l - n \<longleftrightarrow> n \<le> unat d \<and> unat d < l"
    and "n \<le> unat d \<Longrightarrow> unat (d - of_nat n :: u32) = unat d - n"
proof -
  have n: "unat (of_nat n :: u32) = n" using assms by (simp add: unat_of_nat_32)
  show e: "unat (d - of_nat n) = unat d - n" if "n \<le> unat d"
    using that by (simp add: unat_sub word_le_nat_alt n)
  show "unat (d - of_nat n) < l - n \<longleftrightarrow> n \<le> unat d \<and> unat d < l"
  proof (cases "n \<le> unat d")
    case True
    then show ?thesis using e [OF True] by auto
  next
    case False
    then have "unat (d - of_nat n) = unat d + 4294967296 - n"
      by (subst unat_sub_if_size) (simp add: n word_size)
    with False assms show ?thesis by auto
  qed
qed

lemma copied_out_append:
  assumes ok: "pgdir_ok s pgdir"
    and c1: "copied_out s pgdir va (take n buf) m" and n: "n < length buf" "n < 4294967296" "length buf \<le> 4294967296"
    and c2: "copied_out (s\<lparr>mem := m\<rparr>) pgdir (va + of_nat n) (drop n buf) m'"
  shows "copied_out s pgdir va buf m'"
proof -
  note F = copied_out_frame [OF ok c1] and U = user_frame [OF copied_out_frame(1) [OF ok c1]]
  show ?thesis
    unfolding copied_out_def
  proof (intro conjI ballI allI impI)
    fix q assume "q \<in> pt_pages (mem s) pgdir"
    then show "same_page (mem s) m' q"
      using c1 c2 by (auto simp: copied_out_def F intro: same_page_trans)
  next
    fix w assume w: "umapped (mem s) pgdir w"
    have e: "w - (va + of_nat n) = (w - va) - of_nat n" by simp
    have "m' (uaddr (mem s) pgdir w) = (if unat (w - va - of_nat n) < length buf - n
        then drop n buf ! unat (w - va - of_nat n) else m (uaddr (mem s) pgdir w))"
      using c2 w unfolding copied_out_def by (simp add: U e)
    moreover have "m (uaddr (mem s) pgdir w) =
        (if unat (w - va) < n then buf ! unat (w - va) else mem s (uaddr (mem s) pgdir w))"
      using c1 w n unfolding copied_out_def by simp
    ultimately show "m' (uaddr (mem s) pgdir w) =
        (if unat (w - va) < length buf then buf ! unat (w - va) else mem s (uaddr (mem s) pgdir w))"
      using sub_word_range [of n "length buf" "w - va"] n by auto
  next
    fix x assume "\<forall>w. umapped (mem s) pgdir w \<longrightarrow> x \<noteq> uaddr (mem s) pgdir w"
    then show "m' x = mem s x" using c1 c2 by (simp add: copied_out_def U)
  qed
qed

lemma copyout_Nil [simp]: "copyout pgdir va [] s = Ret (0, s)"
  by (simp add: copyout.simps)

lemma copyout_copies:
  assumes "pgdir_ok s pgdir" "user_ok s pgdir" "length buf \<le> 4294967296"
    "\<And>i. i < length buf \<Longrightarrow> umapped (mem s) pgdir (va + of_nat i)"
  shows "\<exists>m. copyout pgdir va buf s = Ret (0, s\<lparr>mem := m\<rparr>) \<and> copied_out s pgdir va buf m"
  using assms
proof (induction "length buf" arbitrary: va buf s rule: less_induct)
  case less
  show ?case
  proof (cases "buf = []")
    case True
    then show ?thesis by (intro exI [of _ "mem s"]) (simp add: copied_out_def)
  next
    case False
    define off n where "off = va - PGROUNDDOWN va" and "n = min (length buf) (4096 - unat off)"
    have off: "unat off < 4096" using page_offset [of va] by (simp add: off_def word_less_nat_alt)
    have room: "unat (PGSIZE - off) = 4096 - unat off" using off by (simp add: unat_sub word_le_nat_alt)
    have n: "0 < n" "n \<le> length buf" "unat off + n \<le> 4096" using False off by (auto simp: n_def)
    have um: "umapped (mem s) pgdir va" using less.prems(4) [of 0] False by simp
    define m1 where "m1 = put_bytes (mem s) (upage (mem s) pgdir va + off) (take n buf)"
    have fit: "unat (va - PGROUNDDOWN va) + length (take n buf) \<le> 4096" using n by (simp add: off_def)
    have c1: "copied_out s pgdir va (take n buf) m1"
      unfolding copied_out_def
      using put_bytes_user [OF less.prems(1,2) um fit m1_def [unfolded off_def]] by blast
    have r: "PGROUNDDOWN (PGROUNDDOWN va) = PGROUNDDOWN va" by simp
    have "uva2ka pgdir (PGROUNDDOWN va) s = Ret (upage (mem s) pgdir va)"
      using um umapped_round [OF r, of "mem s" pgdir] umapped_has_table
      by (simp add: uva2ka_eq [OF less.prems(1)] upage_round [OF r] )
    moreover have "upage (mem s) pgdir va \<noteq> 0"
      using less.prems(2) um allocated_nonzero unfolding user_ok_def by blast
    moreover have "(if unat (PGSIZE - off) > length buf then length buf else unat (PGSIZE - off)) = n"
      by (simp add: room n_def)
    ultimately have step: "copyout pgdir va buf s =
        copyout pgdir (PGROUNDDOWN va + PGSIZE) (drop n buf) (s\<lparr>mem := m1\<rparr>)"
      using False by (subst copyout.simps) (simp add: Let_def m1_def flip: off_def)
    show ?thesis
    proof (cases "n = length buf")
      case True
      with c1 show ?thesis by (intro exI [of _ m1]) (simp add: step)
    next
      case nf: False
      then have nn: "n = 4096 - unat off" using n by (auto simp: n_def)
      then have "of_nat n = 4096 - off"
        using off by (simp add: of_nat_diff of_nat_unat_eq)
      then have va': "PGROUNDDOWN va + 4096 = va + of_nat n" by (simp add: off_def)
      let ?s = "s\<lparr>mem := m1\<rparr>"
      note U = user_frame [OF copied_out_frame(1) [OF less.prems(1) c1]]
      have um': "umapped (mem ?s) pgdir (va + of_nat n + of_nat i)" if "i < length (drop n buf)" for i
        using less.prems(4) [of "n + i"] that by (simp add: U add.assoc)
      have "\<exists>m. copyout pgdir (va + of_nat n) (drop n buf) ?s = Ret (0, ?s\<lparr>mem := m\<rparr>)
          \<and> copied_out ?s pgdir (va + of_nat n) (drop n buf) m"
        using n nf less.prems(3) um' copied_out_frame(2) [OF less.prems(1) c1]
          copied_out_user_ok [OF less.prems(1) c1 less.prems(2)]
        by (intro less.hyps) auto
      then obtain m where m: "copyout pgdir (va + of_nat n) (drop n buf) ?s = Ret (0, ?s\<lparr>mem := m\<rparr>)"
        "copied_out ?s pgdir (va + of_nat n) (drop n buf) m" by blast
      have "copied_out s pgdir va buf m"
        using n nf less.prems(3) by (intro copied_out_append [OF less.prems(1) c1 _ _ _ m(2)]) auto
      with m(1) show ?thesis by (intro exI [of _ m]) (simp add: step va')
    qed
  qed
qed

section \<open>Properties\<close>

text \<open>
  (C6) \<open>mappages\<close>, for a range none of whose pages is present, either maps exactly the pages of the
  range, each to the corresponding physical page with the permissions given, or runs out of free
  pages and returns -1; every other mapping, every page in use outside the page tables and every
  reference count stay as they were.
\<close>

theorem mappages_maps_range:
  assumes "kmem_inv s" and "pgdir_ok s pgdir" and "0 < sz" and "unat va + unat sz \<le> 4294967296"
    and "\<forall>w. pages_of va sz w \<longrightarrow> \<not> has (pte_val (mem s) pgdir w) PTE_P"
  shows "\<exists>r s'. mappages pgdir va sz pa perm s = Ret (r, s') \<and> extends pgdir s s' \<and>
    (r = 0 \<and> (\<forall>w. pte_val (mem s') pgdir w = (if pages_of va sz w
        then (pa + (PGROUNDDOWN w - PGROUNDDOWN va)) OR perm OR PTE_P else pte_val (mem s) pgdir w)) \<or>
     r = -1 \<and> freelist s' = None \<and>
        (\<forall>w. \<not> pages_of va sz w \<longrightarrow> pte_val (mem s') pgdir w = pte_val (mem s) pgdir w))"
proof (rule mappages_cases [OF assms(1-4)])
  fix k s'
  assume fail: "mappages pgdir va sz pa perm s = Ret (-1, s')" "extends pgdir s s'" "freelist s' = None"
    "pte_val (mem s') pgdir = map_range k (PGROUNDDOWN va) pa perm (pte_val (mem s) pgdir)"
    "\<And>w. unat (PGROUNDDOWN w - PGROUNDDOWN va) < 4096 * k \<Longrightarrow> pages_of va sz w"
  then have "pte_val (mem s') pgdir w = pte_val (mem s) pgdir w" if "\<not> pages_of va sz w" for w
    using that by (auto simp: map_range_def)
  with fail(1-3) show ?thesis by blast
qed (use assms(5) in blast)+

lemma two_frames_pgdir: "pgdir_ok two_frames 0x80401000" "pte_val (mem two_frames) 0x80401000 w = 0"
proof -
  have no: "\<not> has_table (mem two_frames) 0x80401000 w" for w
    by (simp add: has_table_def pde_val_def load32_def two_frames_def)
  then show "pte_val (mem two_frames) 0x80401000 w = 0" by (simp add: pte_val_def)
  have "frame_addr 1025 \<in> allocated two_frames" by (simp add: allocated_iff two_frames_1025)
  then have "0x80401000 \<in> allocated two_frames" by (simp add: frame_addr_def P2V_def)
  with no show "pgdir_ok two_frames 0x80401000" by (simp add: pgdir_ok_def)
qed

theorem mappages_maps_range_witness:
  "kmem_inv two_frames \<and> (\<exists>r s'. mappages 0x80401000 0x3000 0x2000 0x5000 6 two_frames = Ret (r, s') \<and>
     (r = 0 \<and> pte_val (mem s') 0x80401000 0x4123 = 0x6007 \<or> r = -1 \<and> freelist s' = None))"
proof -
  have p: "pages_of 0x3000 0x2000 0x4123" by (simp add: pages_of_def PGROUNDDOWN_def)
  have v: "(0x5000 + (PGROUNDDOWN 0x4123 - PGROUNDDOWN 0x3000)) OR 6 OR PTE_P = (0x6007 :: u32)"
    by (simp add: PGROUNDDOWN_def)
  have f: "\<forall>w. pages_of 0x3000 0x2000 w \<longrightarrow> \<not> has (pte_val (mem two_frames) 0x80401000 w) PTE_P"
    by (simp add: two_frames_pgdir(2))
  from mappages_maps_range [OF two_frames_inv two_frames_pgdir(1) _ _ f, of "0x5000" 6] p
  obtain r s' where "mappages 0x80401000 0x3000 0x2000 0x5000 6 two_frames = Ret (r, s')"
    "r = 0 \<and> pte_val (mem s') 0x80401000 0x4123 = 0x6007 \<or> r = -1 \<and> freelist s' = None"
    unfolding v [symmetric] by fastforce
  then show ?thesis using two_frames_inv by blast
qed

text \<open>
  (C7) \<open>copyout\<close> to a range of user-accessible pages returns 0 and writes the bytes of the buffer
  to exactly the memory that the user addresses of the range name, across page boundaries; all
  other user memory, the page tables and all memory not mapped for the user are unchanged.
\<close>

theorem copyout_writes_range:
  assumes "pgdir_ok s pgdir" and "user_ok s pgdir" and "length buf \<le> 4294967296"
    and "\<forall>i<length buf. umapped (mem s) pgdir (va + of_nat i)"
  shows "\<exists>m. copyout pgdir va buf s = Ret (0, s\<lparr>mem := m\<rparr>) \<and>
    (\<forall>w. pte_val m pgdir w = pte_val (mem s) pgdir w) \<and>
    (\<forall>w. umapped (mem s) pgdir w \<longrightarrow> m (uaddr m pgdir w) =
        (if unat (w - va) < length buf then buf ! unat (w - va) else mem s (uaddr (mem s) pgdir w))) \<and>
    (\<forall>x. (\<forall>w. umapped (mem s) pgdir w \<longrightarrow> x \<noteq> uaddr (mem s) pgdir w) \<longrightarrow> m x = mem s x)"
proof -
  obtain m where m: "copyout pgdir va buf s = Ret (0, s\<lparr>mem := m\<rparr>)" "copied_out s pgdir va buf m"
    using copyout_copies [OF assms(1-3)] assms(4) by blast
  note F = copied_out_frame(1) [OF assms(1) m(2)]
  have "uaddr m pgdir = uaddr (mem s) pgdir" by (rule user_frame(3) [OF F])
  with m F show ?thesis by (intro exI [of _ m]) (simp add: copied_out_def)
qed

text \<open>A state with one page directory, one page table and one user page, at address \<open>0x1000\<close>.\<close>

definition one_table :: kst where
  "one_table = \<lparr>mem = new_table_mem (\<lambda>_. 0) 0x80401000 0x1000 0x80402000, kend = 0x80400000,
     kmem_locked = False, use_lock = True, freelist = None,
     runs = (\<lambda>i. \<lparr>run_next = None, refcount = (if i \<in> {1025, 1026, 1027} then 1 else 0)\<rparr>)\<rparr>"

definition one_page :: kst where
  "one_page = one_table\<lparr>mem := set_pte (mem one_table) 0x80401000 0x1000 0x403007\<rparr>"

lemma one_table_allocated: "allocated one_table = {0x80401000, 0x80402000, 0x80403000}"
proof -
  have "{i. i < MAXPAGES \<and> refcount (runs one_table i) \<noteq> 0} = {1025, 1026, 1027}"
    by (auto simp: one_table_def)
  then have "allocated one_table = frame_addr ` {1025, 1026, 1027}"
    unfolding allocated_def image_Collect [symmetric] by simp
  then show ?thesis by (simp add: frame_addr_def P2V_def)
qed

lemma one_table_tables:
  "has_table (mem one_table) 0x80401000 w \<longleftrightarrow> PDX w = 0"
  "table (mem one_table) 0x80401000 w = (if PDX w = 0 then 0x80402000 else table (\<lambda>_. 0) 0x80401000 w)"
  "pte_val (mem one_table) 0x80401000 w = 0"
proof -
  have a: "page_aligned 0x80401000" "page_aligned 0x80402000" by (simp_all add: page_aligned_def)
  have d: "PDX 0x1000 = 0" by (simp add: PDX_def)
  have n: "\<not> has_table (\<lambda>_. 0) 0x80401000 w" by (simp add: has_table_def pde_val_def load32_def)
  show h: "has_table (mem one_table) 0x80401000 w \<longleftrightarrow> PDX w = 0"
    and t: "table (mem one_table) 0x80401000 w = (if PDX w = 0 then 0x80402000 else table (\<lambda>_. 0) 0x80401000 w)"
    using new_has_table [OF a, of "\<lambda>_. 0" "0x1000" w] new_table [OF a, of "\<lambda>_. 0" "0x1000" w] n d
    by (simp_all add: one_table_def)
  have "load32 (mem one_table) (0x80402000 + 4 * PTX w) = load32 (memset (\<lambda>_. 0) 0x80402000 0 4096) (0x80402000 + 4 * PTX w)"
    using same_page_store32 [OF a, of "PDX 0x1000" "memset (\<lambda>_. 0) 0x80402000 0 4096"] a
    by (simp add: new_table_mem_def one_table_def same_page_entry)
  also have "\<dots> = 0" using entry_in_page [OF a(2) a(2), of "PTX w"] a by (simp add: load32_memset_page)
  finally show "pte_val (mem one_table) 0x80401000 w = 0" using h t by (simp add: pte_val_def)
qed

lemma one_table_ok: "kmem_inv one_table" "pgdir_ok one_table 0x80401000"
proof -
  have "free_frames one_table []" by (simp add: free_frames_def one_table_def)
  then show "kmem_inv one_table" by (auto simp: kmem_inv_def)
  show "pgdir_ok one_table 0x80401000"
    by (auto simp: pgdir_ok_def one_table_tables one_table_allocated)
qed

lemma one_page_ok:
  "kmem_inv one_page" "pgdir_ok one_page 0x80401000" "user_ok one_page 0x80401000"
  "pte_val (mem one_page) 0x80401000 w = (if PGROUNDDOWN w = 0x1000 then 0x403007 else 0)"
  "umapped (mem one_page) 0x80401000 w \<longleftrightarrow> PGROUNDDOWN w = 0x1000"
proof -
  have t: "has_table (mem one_table) 0x80401000 0x1000" by (simp add: one_table_tables PDX_def)
  have e: "extends 0x80401000 one_table one_page"
    unfolding one_page_def by (rule extends_set_pte [OF one_table_ok t])
  then show ok: "kmem_inv one_page" "pgdir_ok one_page 0x80401000" by (simp_all add: extends_def)
  have r: "PGROUNDDOWN 0x1000 = 0x1000" by (simp add: PGROUNDDOWN_def)
  show v: "pte_val (mem one_page) 0x80401000 w = (if PGROUNDDOWN w = 0x1000 then 0x403007 else 0)" for w
    using set_pte_lemmas(4) [OF one_table_ok(2) t, of "0x403007" w]
    by (simp add: one_page_def one_table_tables(3) r)
  show u: "umapped (mem one_page) 0x80401000 w \<longleftrightarrow> PGROUNDDOWN w = 0x1000" for w
    by (simp add: umapped_def v has_def)
  have p: "upage (mem one_page) 0x80401000 w = 0x80403000" if "PGROUNDDOWN w = 0x1000" for w
    using that by (simp add: upage_def v PTE_ADDR_def P2V_def)
  have pt: "pt_pages (mem one_page) 0x80401000 \<subseteq> {0x80401000, 0x80402000}"
    using set_pte_lemmas(3) [OF one_table_ok(2) t, of "0x403007"]
    by (auto simp: one_page_def pt_pages_def one_table_tables)
  have al: "allocated one_page = {0x80401000, 0x80402000, 0x80403000}"
    by (simp add: one_page_def one_table_allocated)
  show "user_ok one_page 0x80401000"
    unfolding user_ok_def u
  proof (intro conjI allI impI)
    fix w assume w: "PGROUNDDOWN w = 0x1000"
    show "upage (mem one_page) 0x80401000 w \<in> allocated one_page - pt_pages (mem one_page) 0x80401000"
      using pt unfolding p [OF w] al by auto
  qed auto
qed

theorem copyout_writes_range_witness:
  "\<exists>m. copyout 0x80401000 0x1ffe [65, 66] one_page = Ret (0, one_page\<lparr>mem := m\<rparr>) \<and>
     m (uaddr m 0x80401000 0x1fff) = 66"
proof -
  have u: "umapped (mem one_page) 0x80401000 0x1fff" "umapped (mem one_page) 0x80401000 0x1ffe"
    by (simp_all add: one_page_ok(5) PGROUNDDOWN_def)
  have "\<forall>i<length [65, 66 :: u8]. umapped (mem one_page) 0x80401000 (0x1ffe + of_nat i)"
    using u by (auto simp: less_Suc_eq)
  with copyout_writes_range [OF one_page_ok(2,3), of "[65, 66]" "0x1ffe"] u show ?thesis by fastforce
qed

end
