(* ===== verification/Proc_Defs.thy ===== *)
theory Proc_Defs
  imports Vm
begin

text \<open>
  The data of \<open>src/proc.h\<close> and \<open>src/x86.h\<close> that the kernel keeps per process, and the state
  the memory-management code of \<open>vm.c\<close> works on: the physical memory and its allocator, the
  process \<open>myproc()\<close> returns, the page-table base register, and the state of the swap files.
  The nodes of the free-block list (\<open>struct fblock\<close>) and of the advancing queue
  (\<open>struct queue_node\<close>) lie in pages of their own and are read and written there.
\<close>

section \<open>Processes\<close>

record page =
  pg_pgdir :: addr
  pg_isused :: bool
  pg_virt_addr :: addr
  pg_swap_offset :: u32
  pg_ref_bit :: u32
  pg_nfua_counter :: u32
  pg_lapa_counter :: u32

definition zero_page :: page where
  "zero_page = \<lparr>pg_pgdir = 0, pg_isused = False, pg_virt_addr = 0, pg_swap_offset = 0,
     pg_ref_bit = 0, pg_nfua_counter = 0, pg_lapa_counter = 0\<rparr>"

datatype procstate = UNUSED | EMBRYO | SLEEPING | RUNNABLE | RUNNING | ZOMBIE

record trapframe =
  tf_edi :: u32
  tf_esi :: u32
  tf_ebp :: u32
  tf_ebx :: u32
  tf_edx :: u32
  tf_ecx :: u32
  tf_eax :: u32
  tf_ds :: u16
  tf_es :: u16
  tf_trapno :: u32
  tf_err :: u32
  tf_eip :: u32
  tf_cs :: u16
  tf_eflags :: u32
  tf_esp :: u32
  tf_ss :: u16

text \<open>
  Processes refer to one another by their index in the process table, to open files by their
  index in the file table, and to inodes by their index in the inode cache.
\<close>

record proc =
  p_sz :: u32
  p_pgdir :: addr
  p_kstack :: addr
  p_state :: procstate
  p_pid :: int
  p_parent :: "nat option"
  p_tf :: trapframe
  p_context_eip :: u32
  p_chan :: addr
  p_killed :: bool
  p_ofile :: "nat option list"
  p_cwd :: "nat option"
  p_name :: string
  p_swapFile :: "nat option"
  nummemorypages :: u32
  numswappages :: u32
  swappedPages :: "page list"
  ramPages :: "page list"
  num_ram :: int
  num_swap :: int
  clockHand :: nat
  free_head :: addr
  free_tail :: addr
  queue_head :: addr
  queue_tail :: addr
  p_selection :: int
  totalPgfltCount :: u32
  totalPgoutCount :: u32

text \<open>An entry of the process table as the loader leaves it: all zero.\<close>

definition zero_trapframe :: trapframe where
  "zero_trapframe = \<lparr>tf_edi = 0, tf_esi = 0, tf_ebp = 0, tf_ebx = 0, tf_edx = 0, tf_ecx = 0, tf_eax = 0,
     tf_ds = 0, tf_es = 0, tf_trapno = 0, tf_err = 0, tf_eip = 0, tf_cs = 0, tf_eflags = 0, tf_esp = 0, tf_ss = 0\<rparr>"

definition blank_proc :: proc where
  "blank_proc = \<lparr>p_sz = 0, p_pgdir = 0, p_kstack = 0, p_state = UNUSED, p_pid = 0, p_parent = None,
     p_tf = zero_trapframe, p_context_eip = 0, p_chan = 0, p_killed = False,
     p_ofile = replicate 16 None, p_cwd = None, p_name = [], p_swapFile = None,
     nummemorypages = 0, numswappages = 0, swappedPages = replicate 16 zero_page,
     ramPages = replicate 16 zero_page, num_ram = 0, num_swap = 0, clockHand = 0, free_head = 0,
     free_tail = 0, queue_head = 0, queue_tail = 0, p_selection = 0, totalPgfltCount = 0, totalPgoutCount = 0\<rparr>"

text \<open>\<open>SELECTION\<close>, the page replacement policy fixed when the kernel is compiled.\<close>

datatype selection = NFUA | LAPA | SCFIFO | AQ | DUMMY | TRUE | FALSE | NONE

section \<open>The state of the memory management\<close>

record 'f vst =
  vk :: kst
  cur :: proc
  cr3 :: u32
  sw :: 'f

text \<open>The allocator's operations on this state.\<close>

definition on_k :: "(kst \<Rightarrow> kst outcome) \<Rightarrow> 'f vst \<Rightarrow> 'f vst outcome" where
  "on_k f s = bnd (f (vk s)) (\<lambda>k. Ret (s\<lparr>vk := k\<rparr>))"

definition on_kr :: "(kst \<Rightarrow> ('a \<times> kst) outcome) \<Rightarrow> 'f vst \<Rightarrow> ('a \<times> 'f vst) outcome" where
  "on_kr f s = bnd (f (vk s)) (\<lambda>(x, k). Ret (x, s\<lparr>vk := k\<rparr>))"

definition lcr3 :: "u32 \<Rightarrow> 'f vst \<Rightarrow> 'f vst" where
  "lcr3 a s = s\<lparr>cr3 := a\<rparr>"

definition upd_proc :: "(proc \<Rightarrow> proc) \<Rightarrow> 'f vst \<Rightarrow> 'f vst" where
  "upd_proc f s = s\<lparr>cur := f (cur s)\<rparr>"

definition ld :: "addr \<Rightarrow> 'f vst \<Rightarrow> u32" where
  "ld a s = load32 (mem (vk s)) a"

definition st :: "addr \<Rightarrow> u32 \<Rightarrow> 'f vst \<Rightarrow> 'f vst" where
  "st a v s = s\<lparr>vk := (vk s)\<lparr>mem := store32 (mem (vk s)) a v\<rparr>\<rparr>"

text \<open>\<open>walkpgdir(pgdir, va, 0)\<close>, which changes nothing.\<close>

definition walk :: "addr \<Rightarrow> addr \<Rightarrow> 'f vst \<Rightarrow> addr outcome" where
  "walk pgdir va s = bnd (walkpgdir pgdir va False (vk s)) (\<lambda>(pte, _). Ret pte)"

lemma walk_lookup:
  "walk pgdir va s =
     Ret (if has_table (mem (vk s)) pgdir va then table (mem (vk s)) pgdir va + 4 * PTX va else 0)"
  by (simp add: walk_def walkpgdir_lookup)

text \<open>\<open>ramPages[i]\<close> and \<open>swappedPages[i]\<close>: an index outside the arrays is undefined behaviour.\<close>

definition ram_page :: "nat \<Rightarrow> 'f vst \<Rightarrow> page outcome" where
  "ram_page i s = (if i < MAX_PSYC_PAGES then Ret (ramPages (cur s) ! i) else Fault)"

definition set_ram_page :: "nat \<Rightarrow> (page \<Rightarrow> page) \<Rightarrow> 'f vst \<Rightarrow> 'f vst outcome" where
  "set_ram_page i f s =
     (if i < MAX_PSYC_PAGES then Ret (upd_proc (\<lambda>p. p\<lparr>ramPages := (ramPages p)[i := f (ramPages p ! i)]\<rparr>) s)
      else Fault)"

definition swap_page :: "nat \<Rightarrow> 'f vst \<Rightarrow> page outcome" where
  "swap_page i s = (if i < MAX_PSYC_PAGES then Ret (swappedPages (cur s) ! i) else Fault)"

definition set_swap_page :: "nat \<Rightarrow> (page \<Rightarrow> page) \<Rightarrow> 'f vst \<Rightarrow> 'f vst outcome" where
  "set_swap_page i f s =
     (if i < MAX_PSYC_PAGES
      then Ret (upd_proc (\<lambda>p. p\<lparr>swappedPages := (swappedPages p)[i := f (swappedPages p ! i)]\<rparr>) s)
      else Fault)"

text \<open>Both arrays have their full length.\<close>

definition arrays_ok :: "proc \<Rightarrow> bool" where
  "arrays_ok p \<longleftrightarrow> length (ramPages p) = MAX_PSYC_PAGES \<and> length (swappedPages p) = MAX_PSYC_PAGES"

text \<open>
  A kernel access to the user page at \<open>va\<close> goes through the page table \<open>cr3\<close> names. An access to
  a page that is not present would itself fault; it has no value here.
\<close>

definition mmu_page :: "addr \<Rightarrow> 'f vst \<Rightarrow> addr outcome" where
  "mmu_page va s =
     (let e = pte_val (mem (vk s)) (P2V (cr3 s)) va in
      if has e PTE_P then Ret (P2V (PTE_ADDR e)) else Fault)"

definition page_bytes :: "bmem \<Rightarrow> addr \<Rightarrow> u8 list" where
  "page_bytes m a = map (\<lambda>i. m (a + of_nat i)) [0..<4096]"

lemma length_page_bytes [simp]: "length (page_bytes m a) = 4096"
  by (simp add: page_bytes_def)

lemma nth_page_bytes [simp]: "i < 4096 \<Longrightarrow> page_bytes m a ! i = m (a + of_nat i)"
  by (simp add: page_bytes_def)

lemma vst_fields [simp]:
  "vk (lcr3 a s) = vk s" "cur (lcr3 a s) = cur s" "cr3 (lcr3 a s) = a" "sw (lcr3 a s) = sw s"
  "vk (upd_proc f s) = vk s" "cur (upd_proc f s) = f (cur s)" "cr3 (upd_proc f s) = cr3 s" "sw (upd_proc f s) = sw s"
  "vk (st a v s) = (vk s)\<lparr>mem := store32 (mem (vk s)) a v\<rparr>" "cur (st a v s) = cur s"
  "cr3 (st a v s) = cr3 s" "sw (st a v s) = sw s"
  by (simp_all add: lcr3_def upd_proc_def st_def)

end
