(* ===== verification/Policy.thy ===== *)
theory Policy
  imports Proc_Defs
begin

text \<open>
  The page replacement policies of \<open>vm.c\<close>: the counters of \<open>nfua\<close> and \<open>lapa\<close>, the clock of \<open>scfifo\<close>, the
  advancing queue \<open>aq\<close> with \<open>swapAQ\<close> and \<open>updateAQ\<close>, the aging at timer ticks, and \<open>indexToEvict\<close>, which
  takes the compile-time choice \<open>SELECTION\<close> as its argument.

  Shown: \<open>nfua\<close> and \<open>lapa\<close> against the minimum they look for; \<open>scfifo\<close> against the order of the clock,
  with a bound on its endless loop; the doubly linked queue, pointer by pointer, against lists of
  page indices (\<open>queued\<close>), with the interface \<open>fifo_queue\<close> and its interpretation.
\<close>

unbundle bit_operations_syntax

section \<open>Choosing by counters: nfua and lapa\<close>

function countSetBits_loop :: "u32 \<Rightarrow> u32 \<Rightarrow> u32" where
  "countSetBits_loop n count =
     (if n = 0 then count else countSetBits_loop (drop_bit 1 n) (count + (n AND 1)))"
  by pat_completeness auto
termination
proof (relation "measure (\<lambda>(n, count). unat n)")
  fix n count :: u32
  assume "n \<noteq> 0"
  then have "0 < unat n" by (simp add: unat_gt_0)
  moreover have "unat (drop_bit 1 n) = unat n div 2" by (simp add: drop_bit_eq_div unat_div_distrib)
  ultimately show "((drop_bit 1 n, count + (n AND 1)), n, count) \<in> measure (\<lambda>(n, count). unat n)" by simp
qed simp

declare countSetBits_loop.simps [simp del]

definition countSetBits :: "u32 \<Rightarrow> u32" where
  "countSetBits n = countSetBits_loop n 0"

fun nfua_turn :: "page list \<Rightarrow> nat \<Rightarrow> u32 \<times> nat \<Rightarrow> u32 \<times> nat" where
  "nfua_turn ps i (minval, minloc) =
     (if pg_nfua_counter (ps ! i) < minval then (pg_nfua_counter (ps ! i), i) else (minval, minloc))"

definition nfua :: "proc \<Rightarrow> nat" where
  "nfua p = snd (fold (nfua_turn (ramPages p)) [1..<MAX_PSYC_PAGES] (pg_nfua_counter (ramPages p ! 0), 0))"

fun lapa_turn :: "page list \<Rightarrow> nat \<Rightarrow> u32 \<times> nat \<times> nat \<Rightarrow> u32 \<times> nat \<times> nat" where
  "lapa_turn ps i (minNumOfOnes, minloc, instances) =
     (let numOfOnes = countSetBits (pg_lapa_counter (ps ! i)) in
     if numOfOnes < minNumOfOnes then (numOfOnes, i, 1)
     else if numOfOnes = minNumOfOnes then (minNumOfOnes, minloc, instances + 1)
     else (minNumOfOnes, minloc, instances))"

fun lapa_tie_turn :: "page list \<Rightarrow> u32 \<Rightarrow> nat \<Rightarrow> nat \<times> u32 \<Rightarrow> nat \<times> u32" where
  "lapa_tie_turn ps minNumOfOnes i (minloc, minvalue) =
     (if countSetBits (pg_lapa_counter (ps ! i)) = minNumOfOnes \<and> pg_lapa_counter (ps ! i) < minvalue
     then (i, pg_lapa_counter (ps ! i)) else (minloc, minvalue))"

definition lapa :: "proc \<Rightarrow> nat" where
  "lapa p =
     (let ps = ramPages p;
          (minNumOfOnes, minloc, instances) =
            fold (lapa_turn ps) [1..<MAX_PSYC_PAGES] (countSetBits (pg_lapa_counter (ps ! 0)), 0, 0)
      in if instances > 1
         then fst (fold (lapa_tie_turn ps minNumOfOnes) [1..<MAX_PSYC_PAGES] (minloc, pg_lapa_counter (ps ! minloc)))
         else minloc)"

section \<open>Second chance: scfifo\<close>

text \<open>
  One of the two \<open>for\<close> loops of \<open>scfifo\<close>, over the indices that remain: it ends at the first page
  whose accessed bit is off, with the new clock hand \<open>hand i\<close>, and clears the bits it passes.
\<close>

fun scfifo_scan :: "(nat \<Rightarrow> 'f vst \<Rightarrow> nat) \<Rightarrow> nat list \<Rightarrow> 'f vst \<Rightarrow> (nat option \<times> 'f vst) outcome" where
  "scfifo_scan hand [] s = Ret (None, s)"
| "scfifo_scan hand (i # is) s =
     bnd (ram_page i s) (\<lambda>pg.
     bnd (walk (pg_pgdir pg) (pg_virt_addr pg) s) (\<lambda>pte.
     if pte = 0 then Fault
     else if \<not> has (ld pte s) PTE_A
     then Ret (Some i, upd_proc (\<lambda>p. p\<lparr>clockHand := hand i s\<rparr>) s)
     else scfifo_scan hand is (st pte (ld pte s AND NOT PTE_A) s)))"

definition hand_up :: "nat \<Rightarrow> 'f vst \<Rightarrow> nat" where
  "hand_up i s = (if clockHand (cur s) = MAX_PSYC_PAGES - 1 then 0 else i + 1)"

definition hand_wrapped :: "nat \<Rightarrow> 'f vst \<Rightarrow> nat" where
  "hand_wrapped j s = j + 1"

text \<open>
  The \<open>while(1)\<close>: each round scans from the clock hand to the end and then from the start to the
  clock hand. A third round is never needed (\<open>scfifo_rounds_enough\<close>).
\<close>

primrec scfifo_rounds :: "nat \<Rightarrow> 'f vst \<Rightarrow> (nat \<times> 'f vst) outcome" where
  "scfifo_rounds 0 s = Hang"
| "scfifo_rounds (Suc n) s =
     bnd (scfifo_scan hand_up [clockHand (cur s)..<MAX_PSYC_PAGES] s) (\<lambda>(r, s).
     case r of Some i \<Rightarrow> Ret (i, s)
     | None \<Rightarrow> bnd (scfifo_scan hand_wrapped [0..<clockHand (cur s)] s) (\<lambda>(r, s).
         case r of Some j \<Rightarrow> Ret (j, s) | None \<Rightarrow> scfifo_rounds n s))"

definition scfifo :: "'f vst \<Rightarrow> (nat \<times> 'f vst) outcome" where
  "scfifo s = scfifo_rounds 2 s"

section \<open>The advancing queue\<close>

text \<open>The fields \<open>next\<close>, \<open>prev\<close> and \<open>page_index\<close> of \<open>struct queue_node\<close>, at offsets 0, 4 and 8.\<close>

definition qn_next :: "addr \<Rightarrow> addr" where "qn_next n = n"
definition qn_prev :: "addr \<Rightarrow> addr" where "qn_prev n = n + 4"
definition qn_page_index :: "addr \<Rightarrow> addr" where "qn_page_index n = n + 8"

definition get_field :: "(addr \<Rightarrow> addr) \<Rightarrow> addr \<Rightarrow> 'f vst \<Rightarrow> u32 outcome" where
  "get_field fld n s = (if n = 0 then Fault else Ret (ld (fld n) s))"

definition set_field :: "(addr \<Rightarrow> addr) \<Rightarrow> addr \<Rightarrow> u32 \<Rightarrow> 'f vst \<Rightarrow> 'f vst outcome" where
  "set_field fld n v s = (if n = 0 then Fault else Ret (st (fld n) v s))"

definition aq :: "'f vst \<Rightarrow> (u32 \<times> 'f vst) outcome" where
  "aq s =
     bnd (get_field qn_page_index (queue_tail (cur s)) s) (\<lambda>res.
     if queue_tail (cur s) = 0 \<or> queue_head (cur s) = 0
     then Panic ''AQ INDEX SELECTION: empty queue cann't make index selection!''
     else if queue_tail (cur s) = queue_head (cur s)
     then Ret (res, upd_proc (\<lambda>p. p\<lparr>queue_head := 0, queue_tail := 0\<rparr>) s)
     else
       bnd (get_field qn_prev (queue_tail (cur s)) s) (\<lambda>prev.
       bnd (set_field qn_next prev 0 s) (\<lambda>s.
       bnd (get_field qn_prev (queue_tail (cur s)) s) (\<lambda>new_tail.
       Ret (res, upd_proc (\<lambda>p. p\<lparr>queue_tail := new_tail\<rparr>) s)))))"

definition swapAQ :: "addr \<Rightarrow> 'f vst \<Rightarrow> 'f vst outcome" where
  "swapAQ curr_node s =
     bnd (get_field qn_prev curr_node s) (\<lambda>prev_node.
     bnd (if curr_node = queue_tail (cur s)
          then set_field qn_next prev_node 0 (upd_proc (\<lambda>p. p\<lparr>queue_tail := prev_node\<rparr>) s)
          else Ret s) (\<lambda>s.
     bnd (if prev_node = queue_head (cur s)
          then set_field qn_prev curr_node 0 (upd_proc (\<lambda>p. p\<lparr>queue_head := curr_node\<rparr>) s)
          else Ret s) (\<lambda>s.
     bnd (get_field qn_prev prev_node s) (\<lambda>maybeLeft.
     bnd (get_field qn_next curr_node s) (\<lambda>maybeRight.
     bnd (set_field qn_next curr_node prev_node s) (\<lambda>s.
     bnd (set_field qn_prev prev_node curr_node s) (\<lambda>s.
     bnd (if maybeLeft \<noteq> 0
          then bnd (set_field qn_prev curr_node maybeLeft s) (set_field qn_next maybeLeft curr_node)
          else Ret s) (\<lambda>s.
     if maybeRight \<noteq> 0
     then bnd (set_field qn_next prev_node maybeRight s) (set_field qn_prev maybeRight prev_node)
     else Ret s))))))))"

text \<open>
  The loop of \<open>updateAQ\<close>, with the locals \<open>curr_node\<close>, \<open>curr_page\<close> and \<open>prev_page\<close> (the pages by their
  index). Every turn follows one \<open>prev\<close> link, so a queue of \<open>n\<close> nodes needs at most \<open>n\<close> turns; there
  are at most \<open>MAXPAGES\<close> nodes, since each has a page of its own.
\<close>

primrec updateAQ_loop :: "nat \<Rightarrow> addr \<Rightarrow> nat \<Rightarrow> nat \<Rightarrow> 'f vst \<Rightarrow> 'f vst outcome" where
  "updateAQ_loop 0 curr_node curr_page prev_page s = (if curr_node = 0 then Ret s else Hang)"
| "updateAQ_loop (Suc n) curr_node curr_page prev_page s =
     (if curr_node = 0 then Ret s
      else
        bnd (ram_page curr_page s) (\<lambda>cpg.
        bnd (walk (pg_pgdir cpg) (pg_virt_addr cpg) s) (\<lambda>pte_curr.
        if pte_curr = 0 then Panic ''updateAQ: no pte''
        else
          bnd (if has (ld pte_curr s) PTE_A
               then
                 bnd (get_field qn_prev curr_node s) (\<lambda>prev.
                 bnd (if prev \<noteq> 0
                      then
                        bnd (ram_page prev_page s) (\<lambda>ppg.
                        bnd (walk (pg_pgdir ppg) (pg_virt_addr ppg) s) (\<lambda>pte_prev.
                        if pte_prev = 0 then Panic ''updateAQ: no pte''
                        else if \<not> has (ld pte_prev s) PTE_A then swapAQ curr_node s
                        else Ret s))
                      else Ret s) (\<lambda>s.
                 Ret (st pte_curr (ld pte_curr s AND NOT PTE_A) s)))
               else Ret s) (\<lambda>s.
          bnd (get_field qn_page_index curr_node s) (\<lambda>ci.
          bnd (get_field qn_prev curr_node s) (\<lambda>prev.
          bnd (if prev \<noteq> 0
               then bnd (get_field qn_page_index prev s) (\<lambda>pi. Ret (unat pi))
               else Ret prev_page) (\<lambda>prev_page.
          updateAQ_loop n prev (unat ci) prev_page s)))))))"

definition updateAQ :: "'f vst \<Rightarrow> 'f vst outcome" where
  "updateAQ s =
     (let curr_node = queue_tail (cur s) in
      bnd (get_field qn_page_index curr_node s) (\<lambda>ci.
      if queue_tail (cur s) = 0 \<or> queue_head (cur s) = 0 then Ret s
      else
        bnd (get_field qn_prev curr_node s) (\<lambda>prev.
        if prev = 0 then Ret s
        else
          bnd (get_field qn_page_index prev s) (\<lambda>pi.
          updateAQ_loop MAXPAGES curr_node (unat ci) (unat pi) s))))"

section \<open>Aging: the updates at every timer tick\<close>

definition updateLapa_turn :: "nat \<Rightarrow> 'f vst \<Rightarrow> 'f vst outcome" where
  "updateLapa_turn i s =
     bnd (ram_page i s) (\<lambda>cur_page.
     if \<not> pg_isused cur_page then Ret s
     else
       bnd (walk (pg_pgdir cur_page) (pg_virt_addr cur_page) s) (\<lambda>pte.
       if pte = 0 then Panic ''updateLapa: no pte''
       else if has (ld pte s) PTE_A
       then
         bnd (set_ram_page i (\<lambda>g. g\<lparr>pg_lapa_counter := drop_bit 1 (pg_lapa_counter g) OR 0x80000000\<rparr>) s) (\<lambda>s.
         Ret (st pte (ld pte s AND NOT PTE_A) s))
       else set_ram_page i (\<lambda>g. g\<lparr>pg_lapa_counter := drop_bit 1 (pg_lapa_counter g)\<rparr>) s))"

definition updateLapa :: "'f vst \<Rightarrow> 'f vst outcome" where
  "updateLapa s = for_each updateLapa_turn [0..<MAX_PSYC_PAGES] s"

definition updateNfua_turn :: "nat \<Rightarrow> 'f vst \<Rightarrow> 'f vst outcome" where
  "updateNfua_turn i s =
     bnd (ram_page i s) (\<lambda>cur_page.
     if \<not> pg_isused cur_page then Ret s
     else
       bnd (walk (pg_pgdir cur_page) (pg_virt_addr cur_page) s) (\<lambda>pte.
       if pte = 0 then Panic ''updateNfua: no pte''
       else if has (ld pte s) PTE_A
       then
         bnd (set_ram_page i (\<lambda>g. g\<lparr>pg_nfua_counter := drop_bit 1 (pg_nfua_counter g) OR 0x80000000\<rparr>) s) (\<lambda>s.
         Ret (st pte (ld pte s AND NOT PTE_A) s))
       else set_ram_page i (\<lambda>g. g\<lparr>pg_nfua_counter := drop_bit 1 (pg_nfua_counter g)\<rparr>) s))"

definition updateNfua :: "'f vst \<Rightarrow> 'f vst outcome" where
  "updateNfua s = for_each updateNfua_turn [0..<MAX_PSYC_PAGES] s"

section \<open>The policy the kernel is compiled with\<close>

definition indexToEvict :: "selection \<Rightarrow> 'f vst \<Rightarrow> (nat \<times> 'f vst) outcome" where
  "indexToEvict sel s =
     (case sel of
        DUMMY \<Rightarrow> Ret (3, s)
      | SCFIFO \<Rightarrow> scfifo s
      | NFUA \<Rightarrow> Ret (nfua (cur s), s)
      | LAPA \<Rightarrow> Ret (lapa (cur s), s)
      | AQ \<Rightarrow> bnd (aq s) (\<lambda>(i, s). Ret (unat i, s))
      | _ \<Rightarrow> Ret (11, s))"

text \<open>
  A page enters \<open>ramPages[i]\<close>: its counters start at all ones, or its index goes to the head of
  the queue. The result of \<open>kalloc\<close> is used unchecked.
\<close>

definition enqueue_AQ :: "nat \<Rightarrow> 'f vst \<Rightarrow> 'f vst outcome" where
  "enqueue_AQ i s =
     bnd (on_kr kalloc s) (\<lambda>(node, s).
     bnd (set_field qn_page_index node (of_nat i) s) (\<lambda>s.
     if queue_head (cur s) = 0 \<and> queue_tail (cur s) = 0
     then
       let s = upd_proc (\<lambda>p. p\<lparr>queue_head := node, queue_tail := node\<rparr>) s in
       bnd (set_field qn_next (queue_head (cur s)) 0 s) (\<lambda>s.
       set_field qn_prev (queue_head (cur s)) 0 s)
     else
       bnd (set_field qn_prev (queue_head (cur s)) node s) (\<lambda>s.
       bnd (set_field qn_next node (queue_head (cur s)) s) (\<lambda>s.
       let s = upd_proc (\<lambda>p. p\<lparr>queue_head := node\<rparr>) s in
       set_field qn_prev (queue_head (cur s)) 0 s))))"

definition update_selectionfiled_allocuvm :: "selection \<Rightarrow> nat \<Rightarrow> 'f vst \<Rightarrow> 'f vst outcome" where
  "update_selectionfiled_allocuvm sel page_ramindex s =
     (case sel of
        NFUA \<Rightarrow> set_ram_page page_ramindex (\<lambda>g. g\<lparr>pg_nfua_counter := 0xFFFFFFFF\<rparr>) s
      | LAPA \<Rightarrow> set_ram_page page_ramindex (\<lambda>g. g\<lparr>pg_lapa_counter := 0xFFFFFFFF\<rparr>) s
      | AQ \<Rightarrow> enqueue_AQ page_ramindex s
      | _ \<Rightarrow> Ret s)"

definition update_selectionfiled_pagefault :: "selection \<Rightarrow> nat \<Rightarrow> 'f vst \<Rightarrow> 'f vst outcome" where
  "update_selectionfiled_pagefault sel page_ramindex s =
     (case sel of
        NFUA \<Rightarrow> set_ram_page page_ramindex (\<lambda>g. g\<lparr>pg_nfua_counter := 0xFFFFFFFF\<rparr>) s
      | LAPA \<Rightarrow> set_ram_page page_ramindex (\<lambda>g. g\<lparr>pg_lapa_counter := 0xFFFFFFFF\<rparr>) s
      | AQ \<Rightarrow> enqueue_AQ page_ramindex s
      | _ \<Rightarrow> Ret s)"

section \<open>Searching the page arrays\<close>

text \<open>Loops over the entries that return the first match, or -1.\<close>

definition getSwappedPageIndex :: "addr \<Rightarrow> proc \<Rightarrow> int" where
  "getSwappedPageIndex va p =
     (case first_index (\<lambda>g. pg_virt_addr g = va) (swappedPages p) of Some i \<Rightarrow> int i | None \<Rightarrow> -1)"

definition getRamPageIndexByVirtAddr :: "addr \<Rightarrow> proc \<Rightarrow> int" where
  "getRamPageIndexByVirtAddr virtaddr p =
     (case first_index (\<lambda>g. pg_virt_addr g = virtaddr) (swappedPages p) of Some i \<Rightarrow> int i | None \<Rightarrow> -1)"

definition getNextFreeRamIndex :: "proc \<Rightarrow> int" where
  "getNextFreeRamIndex p =
     (case first_index (\<lambda>g. \<not> pg_isused g) (ramPages p) of Some i \<Rightarrow> int i | None \<Rightarrow> -1)"

definition getNumRefsWarpper :: "nat \<Rightarrow> 'f vst \<Rightarrow> u32 outcome" where
  "getNumRefsWarpper idx s =
     bnd (ram_page idx s) (\<lambda>pg.
     bnd (walk (pg_pgdir pg) (pg_virt_addr pg) s) (\<lambda>evicted_pte.
     if evicted_pte = 0 then Fault
     else getRefs (P2V (PTE_ADDR (ld evicted_pte s))) (vk s)))"

section \<open>Lemmas: counters\<close>

text \<open>The number of ones of a word.\<close>

definition ones :: "u32 \<Rightarrow> nat" where
  "ones n = card {i. bit n i}"

lemma finite_bits [simp]: "finite {i. bit (n :: u32) i}"
  by (rule finite_subset [of _ "{..<32}"]) (auto dest: bit_imp_le_length)

lemma ones_le: "ones n \<le> 32"
proof -
  have "{i. bit n i} \<subseteq> {..<32}" by (auto dest: bit_imp_le_length)
  then have "card {i. bit n i} \<le> card {..<32 :: nat}" by (intro card_mono) auto
  then show ?thesis by (simp add: ones_def)
qed

lemma ones_step: "ones n = (if bit n 0 then 1 else 0) + ones (drop_bit 1 n)"
proof -
  have "{i. bit n i} = (if bit n 0 then {0} else {}) \<union> Suc ` {i. bit (drop_bit 1 n) i}"
  proof (rule set_eqI)
    fix i show "i \<in> {i. bit n i} \<longleftrightarrow> i \<in> (if bit n 0 then {0} else {}) \<union> Suc ` {i. bit (drop_bit 1 n) i}"
      by (cases i) (auto simp: bit_drop_bit_eq)
  qed
  then have "card {i. bit n i} = card ((if bit n 0 then {0} else {}) \<union> Suc ` {i. bit (drop_bit 1 n) i})" by simp
  also have "\<dots> = (if bit n 0 then 1 else 0) + card {i. bit (drop_bit 1 n) i}"
    by (subst card_Un_disjoint) (auto simp: card_image)
  finally show ?thesis by (simp add: ones_def)
qed

lemma countSetBits_loop_ones: "countSetBits_loop n c = c + of_nat (ones n)"
proof (induction n c rule: countSetBits_loop.induct)
  case (1 n c)
  show ?case
  proof (cases "n = 0")
    case True
    then show ?thesis by (simp add: countSetBits_loop.simps ones_def)
  next
    case False
    have "n AND 1 = of_bool (bit n 0)" by (simp add: and_one_eq bit_0 odd_iff_mod_2_eq_one)
    with 1 [OF False] False show ?thesis
      by (subst countSetBits_loop.simps, subst ones_step) (simp add: algebra_simps)
  qed
qed

lemma countSetBits_ones: "countSetBits n = of_nat (ones n)"
  by (simp add: countSetBits_def countSetBits_loop_ones)

lemma unat_countSetBits: "unat (countSetBits n) = ones n"
  using ones_le [of n] by (simp add: countSetBits_ones)

lemma countSetBits_less: "countSetBits m < countSetBits n \<longleftrightarrow> ones m < ones n"
  and countSetBits_eq: "countSetBits m = countSetBits n \<longleftrightarrow> ones m = ones n"
  by (simp_all add: word_less_nat_alt word_unat_eq_iff unat_countSetBits)

text \<open>The first index with the least value.\<close>

definition least_at :: "(nat \<Rightarrow> 'a :: linorder) \<Rightarrow> nat \<Rightarrow> nat \<Rightarrow> bool" where
  "least_at c n l \<longleftrightarrow> l < n \<and> (\<forall>j<n. c l \<le> c j) \<and> (\<forall>j<l. c l < c j)"

lemma least_at_Suc:
  "least_at c n l \<Longrightarrow> least_at c (Suc n) (if c n < c l then n else l)"
  by (auto simp: least_at_def less_Suc_eq intro: less_imp_le less_le_trans)

lemma least_at_unique: "least_at c n l \<Longrightarrow> least_at c n l' \<Longrightarrow> l = l'"
  by (metis least_at_def linorder_neqE_nat not_le)

lemma nfua_fold:
  assumes "0 < n"
  shows "\<exists>l. fold (nfua_turn ps) [1..<n] (pg_nfua_counter (ps ! 0), 0) = (pg_nfua_counter (ps ! l), l)
    \<and> least_at (\<lambda>i. pg_nfua_counter (ps ! i)) n l"
  using assms
proof (induction n)
  case (Suc n)
  show ?case
  proof (cases "n = 0")
    case True
    then show ?thesis by (simp add: least_at_def)
  next
    case False
    with Suc.IH obtain l where l:
      "fold (nfua_turn ps) [1..<n] (pg_nfua_counter (ps ! 0), 0) = (pg_nfua_counter (ps ! l), l)"
      "least_at (\<lambda>i. pg_nfua_counter (ps ! i)) n l" by auto
    with False least_at_Suc [OF l(2)] show ?thesis by auto
  qed
qed simp

lemma nfua_least: "least_at (\<lambda>i. pg_nfua_counter (ramPages p ! i)) MAX_PSYC_PAGES (nfua p)"
  using nfua_fold [of 16 "ramPages p"] by (auto simp: nfua_def)

text \<open>The first pass of \<open>lapa\<close>: the first page with the fewest ones, and how many share that number.\<close>

lemma lapa_fold:
  fixes ps :: "page list"
  assumes "0 < n"
  defines "c \<equiv> \<lambda>i. ones (pg_lapa_counter (ps ! i))"
  shows "\<exists>l k. fold (lapa_turn ps) [1..<n] (countSetBits (pg_lapa_counter (ps ! 0)), 0, 0) =
      (countSetBits (pg_lapa_counter (ps ! l)), l, k) \<and> least_at c n l \<and>
      k = card {i. 0 < i \<and> i < n \<and> c i = c l}"
  using assms(1)
proof (induction n)
  case (Suc n)
  show ?case
  proof (cases "n = 0")
    case True
    have "{i. 0 < i \<and> i < Suc 0 \<and> c i = c 0} = {}" by auto
    then have "0 = card {i. 0 < i \<and> i < Suc n \<and> c i = c 0}" unfolding True by (simp only: card.empty)
    moreover have "least_at c (Suc n) 0" using True by (simp add: least_at_def)
    ultimately show ?thesis using True by auto
  next
    case False
    with Suc.IH obtain l k where l:
      "fold (lapa_turn ps) [1..<n] (countSetBits (pg_lapa_counter (ps ! 0)), 0, 0) =
        (countSetBits (pg_lapa_counter (ps ! l)), l, k)"
      "least_at c n l" "k = card {i. 0 < i \<and> i < n \<and> c i = c l}" by auto
    let ?l = "if c n < c l then n else l"
    have L: "least_at c (Suc n) ?l" by (rule least_at_Suc [OF l(2)])
    have "{i. 0 < i \<and> i < Suc n \<and> c i = c ?l} =
        (if c n < c l then {n} else if c n = c l then insert n {i. 0 < i \<and> i < n \<and> c i = c l}
         else {i. 0 < i \<and> i < n \<and> c i = c l})"
      using False l(2) by (auto simp: least_at_def less_Suc_eq)
    then have "card {i. 0 < i \<and> i < Suc n \<and> c i = c ?l} =
        (if c n < c l then 1 else if c n = c l then k + 1 else k)"
      by (simp add: l(3))
    with False l(1) L show ?thesis
      by (auto simp: Let_def countSetBits_less countSetBits_eq c_def)
  qed
qed simp

text \<open>The second pass: among the pages with that many ones, the least counter.\<close>

lemma lapa_tie_fold:
  fixes ps :: "page list"
  defines "v \<equiv> \<lambda>i. pg_lapa_counter (ps ! i)"
  assumes "ones (v l) = m" "l < n" "\<And>j. j < l \<Longrightarrow> ones (v j) \<noteq> m"
  shows "\<exists>l'. fold (lapa_tie_turn ps (of_nat m)) [1..<n] (l, v l) = (l', v l') \<and> l' < n \<and> ones (v l') = m \<and>
    (\<forall>j<n. ones (v j) = m \<longrightarrow> v l' \<le> v j)"
proof -
  have m: "countSetBits (v i) = of_nat m \<longleftrightarrow> ones (v i) = m" for i
    using countSetBits_eq [of "v i" "v l"] assms(2) by (simp add: countSetBits_ones)
  have "\<exists>l'. fold (lapa_tie_turn ps (of_nat m)) [1..<k] (l, v l) = (l', v l') \<and> l' < n \<and> ones (v l') = m \<and>
      v l' \<le> v l \<and> (\<forall>j<k. 0 < j \<longrightarrow> ones (v j) = m \<longrightarrow> v l' \<le> v j)" if "k \<le> n" for k
    using that
  proof (induction k)
    case 0
    then show ?case using assms by auto
  next
    case (Suc k)
    then obtain l' where l': "fold (lapa_tie_turn ps (of_nat m)) [1..<k] (l, v l) = (l', v l')" "l' < n"
      "ones (v l') = m" "v l' \<le> v l" "\<forall>j<k. 0 < j \<longrightarrow> ones (v j) = m \<longrightarrow> v l' \<le> v j" by auto
    show ?case
    proof (cases "k = 0")
      case True
      then show ?thesis using assms by auto
    next
      case False
      let ?l = "if ones (v k) = m \<and> v k < v l' then k else l'"
      have "fold (lapa_tie_turn ps (of_nat m)) [1..<Suc k] (l, v l) = (?l, v ?l)"
        using False l'(1) m [of k] by (simp add: v_def)
      moreover have "?l < n" "ones (v ?l) = m" "v ?l \<le> v l" using l' Suc.prems by auto
      moreover have "\<forall>j<Suc k. 0 < j \<longrightarrow> ones (v j) = m \<longrightarrow> v ?l \<le> v j"
        using l' by (auto simp: less_Suc_eq)
      ultimately show ?thesis by blast
    qed
  qed
  from this [of n] obtain l' where l': "fold (lapa_tie_turn ps (of_nat m)) [1..<n] (l, v l) = (l', v l')"
    "l' < n" "ones (v l') = m" "v l' \<le> v l" "\<forall>j<n. 0 < j \<longrightarrow> ones (v j) = m \<longrightarrow> v l' \<le> v j" by auto
  have "\<forall>j<n. ones (v j) = m \<longrightarrow> v l' \<le> v j"
  proof (intro allI impI)
    fix j assume j: "j < n" "ones (v j) = m"
    show "v l' \<le> v j"
    proof (cases "j = 0")
      case True
      with j assms(4) [of 0] have "l = 0" by auto
      with l'(4) True show ?thesis by simp
    qed (use j l'(5) in auto)
  qed
  with l' show ?thesis by blast
qed

lemma lapa_chooses:
  fixes p :: proc
  defines "v \<equiv> \<lambda>i. pg_lapa_counter (ramPages p ! i)"
  shows "lapa p < MAX_PSYC_PAGES" and "j < MAX_PSYC_PAGES \<Longrightarrow> ones (v (lapa p)) \<le> ones (v j)"
    and "1 < card {i. 0 < i \<and> i < MAX_PSYC_PAGES \<and> ones (v i) = ones (v (lapa p))} \<Longrightarrow>
      j < MAX_PSYC_PAGES \<Longrightarrow> ones (v j) = ones (v (lapa p)) \<Longrightarrow> v (lapa p) \<le> v j"
proof -
  obtain l k where l: "fold (lapa_turn (ramPages p)) [1..<16] (countSetBits (v 0), 0, 0) = (countSetBits (v l), l, k)"
    "least_at (\<lambda>i. ones (v i)) 16 l" "k = card {i. 0 < i \<and> i < 16 \<and> ones (v i) = ones (v l)}"
    using lapa_fold [of 16 "ramPages p"] unfolding v_def by auto
  have "\<exists>l'. fold (lapa_tie_turn (ramPages p) (of_nat (ones (v l)))) [1..<16] (l, v l) = (l', v l') \<and> l' < 16 \<and>
      ones (v l') = ones (v l) \<and> (\<forall>j<16. ones (v j) = ones (v l) \<longrightarrow> v l' \<le> v j)"
    using l(2) unfolding v_def by (intro lapa_tie_fold) (auto simp: least_at_def)
  then obtain l' where l': "fold (lapa_tie_turn (ramPages p) (of_nat (ones (v l)))) [1..<16] (l, v l) = (l', v l')"
    "l' < 16" "ones (v l') = ones (v l)" "\<forall>j<16. ones (v j) = ones (v l) \<longrightarrow> v l' \<le> v j" by blast
  have r: "lapa p = (if 1 < k then l' else l)"
    using l(1) l'(1) by (simp add: lapa_def Let_def v_def countSetBits_ones)
  show "lapa p < MAX_PSYC_PAGES" using r l' l(2) by (auto simp: least_at_def)
  have same: "ones (v (lapa p)) = ones (v l)" using r l'(3) by simp
  show "ones (v (lapa p)) \<le> ones (v j)" if "j < MAX_PSYC_PAGES" using that l(2) unfolding same by (simp add: least_at_def)
  show "v (lapa p) \<le> v j" if "1 < card {i. 0 < i \<and> i < MAX_PSYC_PAGES \<and> ones (v i) = ones (v (lapa p))}"
      "j < MAX_PSYC_PAGES" "ones (v j) = ones (v (lapa p))"
    using that l'(4) l(3) unfolding same by (simp add: r)
qed

section \<open>Lemmas: second chance\<close>

text \<open>
  The resident pages of a process whose entries all lie in the page directory \<open>d\<close>: every page
  has a page-table entry there, and no two share one.
\<close>

abbreviation (input) ram_va :: "'f vst \<Rightarrow> nat \<Rightarrow> addr" where
  "ram_va s i \<equiv> pg_virt_addr (ramPages (cur s) ! i)"

definition resident :: "addr \<Rightarrow> 'f vst \<Rightarrow> bool" where
  "resident d s \<longleftrightarrow> arrays_ok (cur s) \<and> kmem_inv (vk s) \<and> pgdir_ok (vk s) d \<and>
     (\<forall>i<MAX_PSYC_PAGES. pg_pgdir (ramPages (cur s) ! i) = d \<and> has_table (mem (vk s)) d (ram_va s i)) \<and>
     (\<forall>i<MAX_PSYC_PAGES. \<forall>j<MAX_PSYC_PAGES.
        PGROUNDDOWN (ram_va s i) = PGROUNDDOWN (ram_va s j) \<longrightarrow> i = j)"

definition accessed :: "addr \<Rightarrow> 'f vst \<Rightarrow> nat \<Rightarrow> bool" where
  "accessed d s i \<longleftrightarrow> has (pte_val (mem (vk s)) d (ram_va s i)) PTE_A"

definition clear_A :: "addr \<Rightarrow> nat \<Rightarrow> 'f vst \<Rightarrow> 'f vst" where
  "clear_A d i s = s\<lparr>vk := (vk s)\<lparr>mem := set_pte (mem (vk s)) d (ram_va s i)
     (pte_val (mem (vk s)) d (ram_va s i) AND NOT PTE_A)\<rparr>\<rparr>"

lemma clear_A_fields [simp]: "cur (clear_A d i s) = cur s" "cr3 (clear_A d i s) = cr3 s" "sw (clear_A d i s) = sw s"
  by (simp_all add: clear_A_def)

lemma fold_clear_A_cur [simp]: "cur (fold (clear_A d) is s) = cur s"
  by (induction "is" arbitrary: s) simp_all

lemma resident_table: "resident d s \<Longrightarrow> i < MAX_PSYC_PAGES \<Longrightarrow> has_table (mem (vk s)) d (ram_va s i)"
  and resident_pgdir: "resident d s \<Longrightarrow> i < MAX_PSYC_PAGES \<Longrightarrow> pg_pgdir (ramPages (cur s) ! i) = d"
  by (simp_all add: resident_def)

lemma resident_ok: "resident d s \<Longrightarrow> kmem_inv (vk s)" "resident d s \<Longrightarrow> pgdir_ok (vk s) d"
  by (simp_all add: resident_def)

lemma resident_inj:
  "resident d s \<Longrightarrow> i < MAX_PSYC_PAGES \<Longrightarrow> j < MAX_PSYC_PAGES \<Longrightarrow>
   PGROUNDDOWN (ram_va s i) = PGROUNDDOWN (ram_va s j) \<Longrightarrow> i = j"
  unfolding resident_def by blast

lemma clear_A_pte:
  assumes "resident d s" "i < MAX_PSYC_PAGES"
  shows "pte_val (mem (vk (clear_A d i s))) d w =
    (if PGROUNDDOWN w = PGROUNDDOWN (ram_va s i) then pte_val (mem (vk s)) d w AND NOT PTE_A
     else pte_val (mem (vk s)) d w)"
  using set_pte_lemmas(4) [OF resident_ok(2) resident_table, OF assms(1) assms] pte_val_round [of w "ram_va s i"]
  by (simp add: clear_A_def)

lemma clear_A_resident:
  assumes "resident d s" "i < MAX_PSYC_PAGES"
  shows "resident d (clear_A d i s)" and "extends d (vk s) (vk (clear_A d i s))"
proof -
  note L = set_pte_lemmas [OF resident_ok(2) resident_table, OF assms(1) assms]
  show e: "extends d (vk s) (vk (clear_A d i s))"
    unfolding clear_A_def using assms by (simp add: extends_set_pte resident_ok resident_table)
  have m: "mem (vk (clear_A d i s)) = set_pte (mem (vk s)) d (ram_va s i)
     (pte_val (mem (vk s)) d (ram_va s i) AND NOT PTE_A)" by (simp add: clear_A_def)
  have ke: "kmem_inv (vk (clear_A d i s))" "pgdir_ok (vk (clear_A d i s)) d"
    using e by (simp_all add: extends_def)
  show "resident d (clear_A d i s)"
    using assms(1) ke unfolding resident_def clear_A_fields m L(1) by blast
qed

lemma accessed_clear_A:
  assumes "resident d s" "i < MAX_PSYC_PAGES" "j < MAX_PSYC_PAGES"
  shows "accessed d (clear_A d i s) j \<longleftrightarrow> accessed d s j \<and> j \<noteq> i"
  using resident_inj [OF assms(1) assms(3,2)] by (auto simp: accessed_def clear_A_pte [OF assms(1,2)])

lemma fold_clear_A:
  assumes "resident d s" "set is \<subseteq> {..<MAX_PSYC_PAGES}"
  shows "resident d (fold (clear_A d) is s) \<and> extends d (vk s) (vk (fold (clear_A d) is s)) \<and>
    (\<forall>j<MAX_PSYC_PAGES. accessed d (fold (clear_A d) is s) j \<longleftrightarrow> accessed d s j \<and> j \<notin> set is)"
  using assms
proof (induction "is" arbitrary: s)
  case Nil
  then show ?case by (simp add: extends_refl resident_ok)
next
  case (Cons i "is")
  let ?s = "clear_A d i s"
  have i: "i < MAX_PSYC_PAGES" and r: "resident d ?s" and e: "extends d (vk s) (vk ?s)"
    using Cons.prems clear_A_resident [of d s i] by auto
  from Cons.IH [OF r] Cons.prems(2)
  have IH: "resident d (fold (clear_A d) is ?s)" "extends d (vk ?s) (vk (fold (clear_A d) is ?s))"
    "\<forall>j<MAX_PSYC_PAGES. accessed d (fold (clear_A d) is ?s) j \<longleftrightarrow> accessed d ?s j \<and> j \<notin> set is" by auto
  from IH(1,3) extends_trans [OF e IH(2)] accessed_clear_A [OF Cons.prems(1) i] show ?case by auto
qed

declare scfifo_scan.simps(2) [simp del]

lemma scan_turn:
  assumes "resident d s" "i < MAX_PSYC_PAGES"
  shows "scfifo_scan hand (i # is) s =
    (if accessed d s i then scfifo_scan hand is (clear_A d i s)
     else Ret (Some i, upd_proc (\<lambda>p. p\<lparr>clockHand := hand i s\<rparr>) s))"
proof -
  note t = resident_table [OF assms] and pg = resident_pgdir [OF assms]
  have nz: "table (mem (vk s)) d (ram_va s i) + 4 * PTX (ram_va s i) \<noteq> 0"
    using pgdir_ok_table [OF resident_ok(2) [OF assms(1)] t] by (intro entry_nonzero [of _ "vk s"]) auto
  have v: "ld (table (mem (vk s)) d (ram_va s i) + 4 * PTX (ram_va s i)) s = pte_val (mem (vk s)) d (ram_va s i)"
    using t by (simp add: ld_def pte_val_def)
  show ?thesis
    using nz t by (simp add: scfifo_scan.simps(2) ram_page_def assms(2) pg walk_lookup v accessed_def clear_A_def st_def set_pte_def)
qed

lemma scfifo_scan_eq:
  assumes "resident d s" "set is \<subseteq> {..<MAX_PSYC_PAGES}" "distinct is"
  shows "scfifo_scan hand is s =
    (let s' = fold (clear_A d) (takeWhile (accessed d s) is) s in
     case dropWhile (accessed d s) is of [] \<Rightarrow> Ret (None, s')
     | i # _ \<Rightarrow> Ret (Some i, upd_proc (\<lambda>p. p\<lparr>clockHand := hand i s'\<rparr>) s'))"
  using assms
proof (induction "is" arbitrary: s)
  case (Cons i "is")
  show ?case
  proof (cases "accessed d s i")
    case True
    let ?s = "clear_A d i s"
    have r: "resident d ?s" using Cons.prems by (simp add: clear_A_resident)
    have acc: "accessed d ?s j = accessed d s j" if "j \<in> set is" for j
      using that Cons.prems by (subst accessed_clear_A) auto
    have "takeWhile (accessed d ?s) is = takeWhile (accessed d s) is"
      "dropWhile (accessed d ?s) is = dropWhile (accessed d s) is"
      using acc by (auto intro: takeWhile_cong dropWhile_cong)
    with Cons.IH [OF r] Cons.prems True show ?thesis by (simp add: scan_turn)
  next
    case False
    with Cons.prems show ?thesis by (simp add: scan_turn)
  qed
qed simp

text \<open>The order in which \<open>scfifo\<close> looks at the pages, and the page it chooses.\<close>

definition clock_order :: "nat \<Rightarrow> nat list" where
  "clock_order h = [h..<MAX_PSYC_PAGES] @ [0..<h]"

definition clock_victim :: "(nat \<Rightarrow> bool) \<Rightarrow> nat \<Rightarrow> nat" where
  "clock_victim acc h =
     (case dropWhile acc (clock_order h) of i # _ \<Rightarrow> i | [] \<Rightarrow> hd (clock_order h))"

lemma clock_order_set: "h \<le> MAX_PSYC_PAGES \<Longrightarrow> set (clock_order h) = {..<MAX_PSYC_PAGES}"
  and clock_order_distinct: "distinct (clock_order h)"
  by (auto simp: clock_order_def)

lemma dropWhile_append_cases:
  "dropWhile P (xs @ ys) = (if \<forall>x\<in>set xs. P x then dropWhile P ys else dropWhile P xs @ ys)"
  by (induction xs) auto

lemma takeWhile_append_cases:
  "takeWhile P (xs @ ys) = (if \<forall>x\<in>set xs. P x then xs @ takeWhile P ys else takeWhile P xs)"
  by (induction xs) auto

lemma takeWhile_all: "\<forall>x\<in>set xs. P x \<Longrightarrow> takeWhile P xs = xs"
  by (induction xs) auto

lemma dropWhile_none: "dropWhile P xs = [] \<longleftrightarrow> (\<forall>x\<in>set xs. P x)"
  by (induction xs) auto

text \<open>One round: it ends at the first page in clock order whose bit is off, if there is one.\<close>

lemma scfifo_round:
  assumes r: "resident d s" and h: "clockHand (cur s) \<le> MAX_PSYC_PAGES"
  shows "\<exists>hand. hand \<le> MAX_PSYC_PAGES \<and> scfifo_rounds (Suc n) s =
    (let h = clockHand (cur s);
         s' = fold (clear_A d) (takeWhile (accessed d s) (clock_order h)) s in
     case dropWhile (accessed d s) (clock_order h) of [] \<Rightarrow> scfifo_rounds n s'
     | i # _ \<Rightarrow> Ret (i, upd_proc (\<lambda>p. p\<lparr>clockHand := hand\<rparr>) s'))"
proof -
  let ?h = "clockHand (cur s)"
  let ?up = "[?h..<MAX_PSYC_PAGES]" and ?lo = "[0..<?h]"
  let ?s1 = "fold (clear_A d) (takeWhile (accessed d s) ?up) s"
  have tw: "set (takeWhile (accessed d s) ?up) \<subseteq> {..<MAX_PSYC_PAGES}" by (auto dest: set_takeWhileD)
  note s1 = fold_clear_A [OF r tw]
  have lo: "set ?lo \<subseteq> {..<MAX_PSYC_PAGES}" using h by auto
  have up_sub: "set ?up \<subseteq> {..<MAX_PSYC_PAGES}" by auto
  have scan1: "scfifo_scan hand_up ?up s = (case dropWhile (accessed d s) ?up of [] \<Rightarrow> Ret (None, ?s1)
     | i # _ \<Rightarrow> Ret (Some i, upd_proc (\<lambda>p. p\<lparr>clockHand := hand_up i ?s1\<rparr>) ?s1))"
    using scfifo_scan_eq [OF r, of ?up hand_up, OF up_sub] by (auto simp: Let_def)
  have scan2: "scfifo_scan hand_wrapped ?lo ?s1 =
    (let s' = fold (clear_A d) (takeWhile (accessed d ?s1) ?lo) ?s1 in
     case dropWhile (accessed d ?s1) ?lo of [] \<Rightarrow> Ret (None, s')
     | i # _ \<Rightarrow> Ret (Some i, upd_proc (\<lambda>p. p\<lparr>clockHand := hand_wrapped i s'\<rparr>) s'))"
    using s1 lo by (intro scfifo_scan_eq) auto
  have acc: "accessed d ?s1 j = accessed d s j" if "j \<in> set ?lo" for j
    using that s1 h by (auto dest!: set_takeWhileD)
  have tl: "takeWhile (accessed d ?s1) ?lo = takeWhile (accessed d s) ?lo"
    "dropWhile (accessed d ?s1) ?lo = dropWhile (accessed d s) ?lo"
    using acc by (auto intro: takeWhile_cong dropWhile_cong)
  show ?thesis
  proof (cases "dropWhile (accessed d s) ?up")
    case (Cons i xs)
    then have i: "i \<in> set ?up" using set_dropWhileD [of i "accessed d s" ?up] by simp
    have "\<not> (\<forall>x\<in>set ?up. accessed d s x)" using Cons dropWhile_none [of "accessed d s" ?up] by simp
    with Cons i show ?thesis
      unfolding scfifo_rounds.simps(2) scan1 clock_order_def
      by (intro exI [of _ "hand_up i ?s1"])
        (auto simp: Let_def dropWhile_append_cases takeWhile_append_cases hand_up_def)
  next
    case Nil
    then have all: "\<forall>x\<in>set ?up. accessed d s x" using dropWhile_none [of "accessed d s" ?up] by simp
    then have up: "takeWhile (accessed d s) ?up = ?up" by (rule takeWhile_all)
    note D = dropWhile_append_cases [of "accessed d s" ?up] takeWhile_append_cases [of "accessed d s" ?up]
    show ?thesis
    proof (cases "dropWhile (accessed d s) ?lo")
      case Nil2: Nil
      show ?thesis
        unfolding scfifo_rounds.simps(2) scan1 clock_order_def using all Nil Nil2
        by (intro exI [of _ 0])
          (simp add: scan2 [unfolded up] tl [unfolded up] up D Let_def del: dropWhile_eq_Nil_conv)
    next
      case (Cons j js)
      then have "j \<in> set ?lo" using set_dropWhileD [of j "accessed d s" ?lo] by simp
      then show ?thesis
        unfolding scfifo_rounds.simps(2) scan1 clock_order_def using all Nil Cons h
        by (intro exI [of _ "j + 1"])
          (simp add: scan2 [unfolded up] tl [unfolded up] up D Let_def hand_wrapped_def del: dropWhile_eq_Nil_conv)
    qed
  qed
qed

lemma clock_order_Nil: "clock_order h \<noteq> []"
  by (simp add: clock_order_def)

lemma scfifo_rounds_eq:
  assumes r: "resident d s" and h: "clockHand (cur s) \<le> MAX_PSYC_PAGES" and n: "2 \<le> n"
  shows "\<exists>hand. hand \<le> MAX_PSYC_PAGES \<and> scfifo_rounds n s =
    Ret (clock_victim (accessed d s) (clockHand (cur s)),
      upd_proc (\<lambda>p. p\<lparr>clockHand := hand\<rparr>)
        (fold (clear_A d) (takeWhile (accessed d s) (clock_order (clockHand (cur s)))) s))"
proof -
  let ?o = "clock_order (clockHand (cur s))"
  let ?s1 = "fold (clear_A d) (takeWhile (accessed d s) ?o) s"
  obtain m where m: "n = Suc (Suc m)" using n by (cases n; cases "n - 1") auto
  obtain hand where hand: "hand \<le> MAX_PSYC_PAGES" "scfifo_rounds n s =
    (case dropWhile (accessed d s) ?o of [] \<Rightarrow> scfifo_rounds (Suc m) ?s1
     | i # _ \<Rightarrow> Ret (i, upd_proc (\<lambda>p. p\<lparr>clockHand := hand\<rparr>) ?s1))"
    using scfifo_round [OF r h, of "Suc m"] unfolding m Let_def by blast
  show ?thesis
  proof (cases "dropWhile (accessed d s) ?o")
    case (Cons i xs)
    with hand show ?thesis by (auto simp: clock_victim_def)
  next
    case Nil
    then have all: "\<forall>x\<in>set ?o. accessed d s x" using dropWhile_none [of "accessed d s" ?o] by simp
    then have tw: "takeWhile (accessed d s) ?o = ?o" by (rule takeWhile_all)
    have sub: "set ?o \<subseteq> {..<MAX_PSYC_PAGES}" using clock_order_set [OF h] by simp
    note s1 = fold_clear_A [OF r sub]
    let ?s2 = "fold (clear_A d) ?o s"
    have r2: "resident d ?s2" and acc2: "\<not> accessed d ?s2 j" if "j < MAX_PSYC_PAGES" for j
      using s1 that clock_order_set [OF h] by auto
    obtain o1 os where os: "?o = o1 # os" using clock_order_Nil by (metis list.exhaust)
    then have "o1 \<in> set ?o" by simp
    then have "o1 < MAX_PSYC_PAGES" using clock_order_set [OF h] by blast
    then have "\<not> accessed d ?s2 o1" by (rule acc2)
    then have first: "dropWhile (accessed d ?s2) ?o = ?o" "takeWhile (accessed d ?s2) ?o = []"
      unfolding os by simp_all
    have h2: "clockHand (cur ?s2) \<le> MAX_PSYC_PAGES" using h by simp
    have cur2: "clockHand (cur ?s2) = clockHand (cur s)" by simp
    obtain hand2 where "hand2 \<le> MAX_PSYC_PAGES"
      "scfifo_rounds (Suc m) ?s2 = (case dropWhile (accessed d ?s2) ?o of [] \<Rightarrow>
          scfifo_rounds m (fold (clear_A d) (takeWhile (accessed d ?s2) ?o) ?s2)
        | i # _ \<Rightarrow> Ret (i, upd_proc (\<lambda>p. p\<lparr>clockHand := hand2\<rparr>)
            (fold (clear_A d) (takeWhile (accessed d ?s2) ?o) ?s2)))"
      using scfifo_round [OF r2 h2, of "0" m] unfolding Let_def cur2 by auto
    then have "hand2 \<le> MAX_PSYC_PAGES"
      "scfifo_rounds (Suc m) ?s2 = Ret (hd ?o, upd_proc (\<lambda>p. p\<lparr>clockHand := hand2\<rparr>) ?s2)"
      unfolding first by (simp_all add: os)
    with hand(2) Nil show ?thesis unfolding tw clock_victim_def by (metis list.simps(4))
  qed
qed

lemma clock_victim_in:
  "h \<le> MAX_PSYC_PAGES \<Longrightarrow> clock_victim acc h < MAX_PSYC_PAGES"
proof -
  assume h: "h \<le> MAX_PSYC_PAGES"
  have "clock_victim acc h \<in> set (clock_order h)"
    using clock_order_Nil [of h] set_dropWhileD [of _ acc "clock_order h"]
    by (auto simp: clock_victim_def split: list.split)
  with clock_order_set [OF h] show ?thesis by blast
qed

section \<open>Lemmas: the queue in memory\<close>

text \<open>
  \<open>seg nx pv p xs q\<close>: the nodes \<open>xs\<close> are doubly linked in this order, between a predecessor \<open>p\<close> and
  a successor \<open>q\<close> (0 where there is none).
\<close>

fun seg :: "(addr \<Rightarrow> addr) \<Rightarrow> (addr \<Rightarrow> addr) \<Rightarrow> addr \<Rightarrow> addr list \<Rightarrow> addr \<Rightarrow> bool" where
  "seg nx pv p [] q \<longleftrightarrow> True"
| "seg nx pv p (x # xs) q \<longleftrightarrow> pv x = p \<and> nx x = (if xs = [] then q else hd xs) \<and> seg nx pv x xs q"

lemma seg_append:
  "seg nx pv p (xs @ ys) q \<longleftrightarrow>
     seg nx pv p xs (if ys = [] then q else hd ys) \<and> seg nx pv (if xs = [] then p else last xs) ys q"
  by (induction xs arbitrary: p) auto

lemma seg_cong:
  "(\<And>x. x \<in> set xs \<Longrightarrow> nx x = nx' x \<and> pv x = pv' x) \<Longrightarrow> seg nx pv p xs q = seg nx' pv' p xs q"
  by (induction xs arbitrary: p) auto

abbreviation (input) nx_of :: "'f vst \<Rightarrow> addr \<Rightarrow> addr" where "nx_of s \<equiv> \<lambda>n. ld (qn_next n) s"
abbreviation (input) pv_of :: "'f vst \<Rightarrow> addr \<Rightarrow> addr" where "pv_of s \<equiv> \<lambda>n. ld (qn_prev n) s"
abbreviation (input) ix_of :: "'f vst \<Rightarrow> addr \<Rightarrow> u32" where "ix_of s \<equiv> \<lambda>n. ld (qn_page_index n) s"

definition node :: "addr \<Rightarrow> bool" where
  "node n \<longleftrightarrow> page_aligned n \<and> n \<noteq> 0"

lemma node_fields:
  assumes "node a" "node b"
  shows "qn_next a = qn_next b \<longleftrightarrow> a = b" "qn_prev a = qn_prev b \<longleftrightarrow> a = b"
    "qn_page_index a = qn_page_index b \<longleftrightarrow> a = b"
    "qn_next a \<noteq> qn_prev b" "qn_next a \<noteq> qn_page_index b" "qn_prev a \<noteq> qn_next b"
    "qn_prev a \<noteq> qn_page_index b" "qn_page_index a \<noteq> qn_next b" "qn_page_index a \<noteq> qn_prev b"
  using assms entry_eq [of a b 0 1] entry_eq [of a b 0 2] entry_eq [of a b 1 2] entry_eq [of a b 1 0]
    entry_eq [of a b 2 0] entry_eq [of a b 2 1]
  by (auto simp: node_def qn_next_def qn_prev_def qn_page_index_def)

lemma node_word_aligned [simp]:
  assumes "node a"
  shows "word_aligned (qn_next a)" "word_aligned (qn_prev a)" "word_aligned (qn_page_index a)"
  using assms word_aligned_entry [of a 0] word_aligned_entry [of a 1] word_aligned_entry [of a 2]
  by (auto simp: node_def qn_next_def qn_prev_def qn_page_index_def)

lemma ld_st:
  "word_aligned a \<Longrightarrow> word_aligned b \<Longrightarrow> ld b (st a v s) = (if a = b then v else ld b s)"
  by (auto simp: ld_def st_def)

lemma ld_upd_proc [simp]: "ld a (upd_proc f s) = ld a s"
  by (simp add: ld_def)

lemma ld_node [simp]:
  assumes "node a" "node b"
  shows "ld (qn_next b) (st (qn_next a) v s) = (if a = b then v else ld (qn_next b) s)"
    "ld (qn_prev b) (st (qn_next a) v s) = ld (qn_prev b) s"
    "ld (qn_page_index b) (st (qn_next a) v s) = ld (qn_page_index b) s"
    "ld (qn_next b) (st (qn_prev a) v s) = ld (qn_next b) s"
    "ld (qn_prev b) (st (qn_prev a) v s) = (if a = b then v else ld (qn_prev b) s)"
    "ld (qn_page_index b) (st (qn_prev a) v s) = ld (qn_page_index b) s"
    "ld (qn_next b) (st (qn_page_index a) v s) = ld (qn_next b) s"
    "ld (qn_prev b) (st (qn_page_index a) v s) = ld (qn_prev b) s"
    "ld (qn_page_index b) (st (qn_page_index a) v s) = (if a = b then v else ld (qn_page_index b) s)"
  using assms by (simp_all add: ld_st node_fields)

lemma get_field_node [simp]: "node n \<Longrightarrow> get_field fld n s = Ret (ld (fld n) s)"
  and set_field_node [simp]: "node n \<Longrightarrow> set_field fld n v s = Ret (st (fld n) v s)"
  by (simp_all add: get_field_def set_field_def node_def)

text \<open>The queue of a process: its nodes from head to tail.\<close>

definition queue_nodes :: "'f vst \<Rightarrow> addr list \<Rightarrow> bool" where
  "queue_nodes s xs \<longleftrightarrow> distinct xs \<and> (\<forall>x\<in>set xs. node x) \<and>
     queue_head (cur s) = (if xs = [] then 0 else hd xs) \<and>
     queue_tail (cur s) = (if xs = [] then 0 else last xs) \<and> seg (nx_of s) (pv_of s) 0 xs 0"

text \<open>Writes to the nodes of a queue leave every other page alone.\<close>

definition only_nodes :: "addr list \<Rightarrow> 'f vst \<Rightarrow> 'f vst \<Rightarrow> bool" where
  "only_nodes xs s s' \<longleftrightarrow> (\<exists>m. vk s' = (vk s)\<lparr>mem := m\<rparr> \<and>
     (\<forall>q. page_aligned q \<longrightarrow> q \<notin> set xs \<longrightarrow> same_page (mem (vk s)) m q)) \<and>
     cr3 s' = cr3 s \<and> sw s' = sw s \<and> ramPages (cur s') = ramPages (cur s) \<and>
     swappedPages (cur s') = swappedPages (cur s) \<and> p_pgdir (cur s') = p_pgdir (cur s)"

lemma only_nodes_refl [intro]: "only_nodes xs s s"
  by (auto simp: only_nodes_def intro!: exI [of _ "mem (vk s)"])

lemma only_nodes_trans [trans]: "only_nodes xs s s' \<Longrightarrow> only_nodes xs s' s'' \<Longrightarrow> only_nodes xs s s''"
  unfolding only_nodes_def by (clarsimp, blast intro: same_page_trans)

lemma only_nodes_st:
  assumes "n \<in> set xs" "node n" "fld \<in> {qn_next, qn_prev, qn_page_index}"
  shows "only_nodes xs s (st (fld n) v s)"
proof -
  obtain i where i: "fld n = n + 4 * i" "unat i < 1024"
  proof -
    have "fld n = n + 4 * 0 \<or> fld n = n + 4 * 1 \<or> fld n = n + 4 * 2"
      using assms(3) by (auto simp: qn_next_def qn_prev_def qn_page_index_def)
    then show ?thesis using that [of 0] that [of 1] that [of 2] by auto
  qed
  have "same_page (mem (vk s)) (store32 (mem (vk s)) (fld n) v) q" if "page_aligned q" "q \<notin> set xs" for q
    using that assms i by (simp add: node_def) (intro same_page_store32; auto)
  then show ?thesis by (auto simp: only_nodes_def)
qed

lemmas only_nodes_sts [intro] =
  only_nodes_st [where fld = qn_next, simplified] only_nodes_st [where fld = qn_prev, simplified]
  only_nodes_st [where fld = qn_page_index, simplified]

lemma only_nodes_queue [intro]:
  "only_nodes xs s (upd_proc (\<lambda>p. p\<lparr>queue_tail := t\<rparr>) s)" "only_nodes xs s (upd_proc (\<lambda>p. p\<lparr>queue_head := h\<rparr>) s)"
  "only_nodes xs s (upd_proc (\<lambda>p. p\<lparr>queue_head := h, queue_tail := t\<rparr>) s)"
  by (auto simp: only_nodes_def upd_proc_def intro!: exI [of _ "mem (vk s)"])

text \<open>\<open>swapAQ\<close> on the links: what the pointer writes amount to.\<close>

lemma swapAQ_swaps:
  assumes q: "queue_nodes s (as @ p # c # bs)"
  shows "\<exists>s'. swapAQ c s = Ret s' \<and> queue_nodes s' (as @ c # p # bs) \<and>
    (\<forall>x\<in>set (as @ p # c # bs). ix_of s' x = ix_of s x) \<and> only_nodes (as @ p # c # bs) s s'"
proof -
  let ?l = "if as = [] then 0 else last as" and ?r = "if bs = [] then 0 else hd bs"
  have N: "\<And>x. x \<in> set (as @ p # c # bs) \<Longrightarrow> node x" and D: "distinct (as @ p # c # bs)"
    using q by (auto simp: queue_nodes_def)
  have p: "node p" and c: "node c" and pc: "p \<noteq> c" using N D by auto
  have z: "\<not> node 0" by (simp add: node_def)
  have l: "as \<noteq> [] \<Longrightarrow> node (last as)" "as \<noteq> [] \<Longrightarrow> last as \<noteq> p" "as \<noteq> [] \<Longrightarrow> last as \<noteq> c"
    using N D last_in_set [of as] by auto
  have r: "bs \<noteq> [] \<Longrightarrow> node (hd bs)" "bs \<noteq> [] \<Longrightarrow> hd bs \<noteq> p" "bs \<noteq> [] \<Longrightarrow> hd bs \<noteq> c"
    using N D hd_in_set [of bs] by auto
  have lb: "last as \<notin> set bs" if "as \<noteq> []"
    using D last_in_set [OF that] by auto
  then have lr: "as \<noteq> [] \<Longrightarrow> bs \<noteq> [] \<Longrightarrow> last as \<noteq> hd bs" by (metis hd_in_set)
  have nz: "as \<noteq> [] \<Longrightarrow> last as \<noteq> 0" "bs \<noteq> [] \<Longrightarrow> hd bs \<noteq> 0" using l(1) r(1) z by auto
  have S: "seg (nx_of s) (pv_of s) 0 as p" "pv_of s p = ?l" "nx_of s p = c" "pv_of s c = p" "nx_of s c = ?r"
    "seg (nx_of s) (pv_of s) c bs 0"
    using q by (auto simp: queue_nodes_def seg_append)
  have hd_p: "queue_head (cur s) = p \<longleftrightarrow> as = []"
    using q l(2) D by (auto simp: queue_nodes_def hd_append)
  have tl_c: "queue_tail (cur s) = c \<longleftrightarrow> bs = []"
    using q D by (auto simp: queue_nodes_def)
  define s1 where "s1 = (if bs = [] then st (qn_next p) 0 (upd_proc (\<lambda>q. q\<lparr>queue_tail := p\<rparr>) s) else s)"
  define s2 where "s2 = (if as = [] then st (qn_prev c) 0 (upd_proc (\<lambda>q. q\<lparr>queue_head := c\<rparr>) s1) else s1)"
  define s3 where "s3 = st (qn_prev p) c (st (qn_next c) p s2)"
  define s4 where "s4 = (if as = [] then s3 else st (qn_next (last as)) c (st (qn_prev c) (last as) s3))"
  define s5 where "s5 = (if bs = [] then s4 else st (qn_prev (hd bs)) p (st (qn_next p) (hd bs) s4))"
  have run: "swapAQ c s = Ret s5"
    using p c pc S l r nz hd_p tl_c
    by (simp add: swapAQ_def s1_def s2_def s3_def s4_def s5_def eq_commute [of c "queue_tail (cur s)"]
        eq_commute [of p "queue_head (cur s)"])
  have nx: "nx_of s5 x = (if x = p then ?r else if x = c then p else if as \<noteq> [] \<and> x = last as then c else nx_of s x)"
    and pv: "pv_of s5 x = (if x = c then ?l else if x = p then c else if bs \<noteq> [] \<and> x = hd bs then p else pv_of s x)"
    and ix: "ix_of s5 x = ix_of s x" if "node x" for x
    using that p c pc S l r lr by (auto simp: s1_def s2_def s3_def s4_def s5_def)
  have head: "queue_head (cur s5) = (if as = [] then c else queue_head (cur s))"
    and tail: "queue_tail (cur s5) = (if bs = [] then p else queue_tail (cur s))"
    by (simp_all add: s1_def s2_def s3_def s4_def s5_def)
  have sa: "seg (nx_of s5) (pv_of s5) 0 as c"
  proof (cases as rule: rev_cases)
    case (snoc ys y)
    then have "seg (nx_of s) (pv_of s) 0 ys y" "pv_of s y = (if ys = [] then 0 else last ys)"
      using S(1) by (auto simp: seg_append)
    moreover have "seg (nx_of s5) (pv_of s5) 0 ys y = seg (nx_of s) (pv_of s) 0 ys y"
      using D N snoc r hd_in_set [of bs] by (intro seg_cong conjI) (auto simp: nx pv)
    moreover have "pv_of s5 y = pv_of s y" "nx_of s5 y = c"
      using D N snoc hd_in_set [of bs] by (auto simp: nx pv)
    ultimately show ?thesis using snoc by (simp add: seg_append)
  qed simp
  have sb: "seg (nx_of s5) (pv_of s5) p bs 0"
  proof (cases bs)
    case (Cons y ys)
    then have "nx_of s y = (if ys = [] then 0 else hd ys)" "seg (nx_of s) (pv_of s) y ys 0"
      using S(6) by auto
    moreover have "seg (nx_of s5) (pv_of s5) y ys 0 = seg (nx_of s) (pv_of s) y ys 0"
      using D N Cons lb by (intro seg_cong conjI) (auto simp: nx pv)
    moreover have "nx_of s5 y = nx_of s y" "pv_of s5 y = p"
      using D N Cons last_in_set [of as] by (auto simp: nx pv)
    ultimately show ?thesis using Cons by simp
  qed simp
  have "queue_nodes s5 (as @ c # p # bs)"
    unfolding queue_nodes_def seg_append
    using q D N sa sb nx [OF p] nx [OF c] pv [OF p] pv [OF c] pc head tail
    by (auto simp: queue_nodes_def hd_append)
  moreover have "only_nodes (as @ p # c # bs) s s5"
  proof -
    have "only_nodes (as @ p # c # bs) s s1" using p
      by (auto simp: s1_def intro!: only_nodes_trans [OF only_nodes_queue(1) only_nodes_sts(1)])
    also have "only_nodes (as @ p # c # bs) s1 s2" using c
      by (auto simp: s2_def intro!: only_nodes_trans [OF only_nodes_queue(2) only_nodes_sts(2)])
    also have "only_nodes (as @ p # c # bs) s2 (st (qn_next c) p s2)" using c by auto
    also have "only_nodes (as @ p # c # bs) (st (qn_next c) p s2) s3" using p by (auto simp: s3_def)
    also have "only_nodes (as @ p # c # bs) s3 s4" using c l(1)
      by (auto simp: s4_def intro!: only_nodes_trans [OF only_nodes_sts(2) only_nodes_sts(1)])
    also have "only_nodes (as @ p # c # bs) s4 s5" using p r(1)
      by (auto simp: s5_def intro!: only_nodes_trans [OF only_nodes_sts(1) only_nodes_sts(2)])
    finally show ?thesis .
  qed
  ultimately show ?thesis using run ix N by blast
qed

lemma aq_dequeues:
  assumes q: "queue_nodes s (xs @ [t])"
  shows "\<exists>s'. aq s = Ret (ix_of s t, s') \<and> queue_nodes s' xs \<and> (\<forall>x\<in>set xs. ix_of s' x = ix_of s x) \<and>
    only_nodes (xs @ [t]) s s'"
proof -
  have N: "\<And>x. x \<in> set (xs @ [t]) \<Longrightarrow> node x" and D: "distinct (xs @ [t])"
    and h: "queue_head (cur s) = (if xs = [] then t else hd xs)" and tl: "queue_tail (cur s) = t"
    and S: "seg (nx_of s) (pv_of s) 0 xs t" "pv_of s t = (if xs = [] then 0 else last xs)"
    using q by (auto simp: queue_nodes_def seg_append hd_append split: if_splits)
  have t: "node t" "t \<noteq> 0" using N by (auto simp: node_def)
  show ?thesis
  proof (cases xs rule: rev_cases)
    case Nil
    with t h tl have "aq s = Ret (ix_of s t, upd_proc (\<lambda>p. p\<lparr>queue_head := 0, queue_tail := 0\<rparr>) s)"
      by (simp add: aq_def)
    moreover have "queue_nodes (upd_proc (\<lambda>p. p\<lparr>queue_head := 0, queue_tail := 0\<rparr>) s) []"
      by (simp add: queue_nodes_def)
    ultimately show ?thesis using Nil by auto
  next
    case (snoc ys y)
    have y: "node y" "y \<noteq> t" "hd xs \<noteq> t" "hd xs \<noteq> 0"
      using N D snoc hd_in_set [of xs] by (auto simp: node_def)
    let ?s = "upd_proc (\<lambda>p. p\<lparr>queue_tail := y\<rparr>) (st (qn_next y) 0 s)"
    have "aq s = Ret (ix_of s t, ?s)"
      using t y h tl S snoc by (simp add: aq_def)
    moreover have "queue_nodes ?s xs"
    proof -
      have "seg (nx_of ?s) (pv_of ?s) 0 ys y = seg (nx_of s) (pv_of s) 0 ys y"
        using N D snoc y by (intro seg_cong) auto
      with N D snoc y S(1) h show ?thesis by (auto simp: queue_nodes_def seg_append)
    qed
    moreover have "\<forall>x\<in>set xs. ix_of ?s x = ix_of s x" using N y by simp
    moreover have "only_nodes (xs @ [t]) s ?s"
      using snoc y by (auto intro: only_nodes_trans [OF only_nodes_sts(1) only_nodes_queue(1)])
    ultimately show ?thesis by blast
  qed
qed

text \<open>
  The queue with its contents: the indices of the queued pages from head to tail, the nodes
  being pages in use.
\<close>

definition queued :: "'f vst \<Rightarrow> addr list \<Rightarrow> nat list \<Rightarrow> bool" where
  "queued s xs is \<longleftrightarrow> queue_nodes s xs \<and> kmem_inv (vk s) \<and> set xs \<subseteq> allocated (vk s) \<and>
     is = map (\<lambda>x. unat (ix_of s x)) xs"

lemma only_nodes_kmem:
  "only_nodes xs s s' \<Longrightarrow> kmem_inv (vk s) \<Longrightarrow> kmem_inv (vk s')"
  "only_nodes xs s s' \<Longrightarrow> allocated (vk s') = allocated (vk s)"
  by (auto simp: only_nodes_def kmem_inv_def free_frames_def free_frame_def)

lemma queued_aq:
  assumes "queued s (xs @ [t]) (is @ [i])"
  shows "\<exists>s'. bnd (aq s) (\<lambda>(i, s). Ret (unat i, s)) = Ret (i, s') \<and> queued s' xs is \<and> only_nodes (xs @ [t]) s s'"
proof -
  have q: "queue_nodes s (xs @ [t])" and i: "i = unat (ix_of s t)" "is = map (\<lambda>x. unat (ix_of s x)) xs"
    using assms by (auto simp: queued_def)
  obtain s' where s': "aq s = Ret (ix_of s t, s')" "queue_nodes s' xs" "\<forall>x\<in>set xs. ix_of s' x = ix_of s x"
    "only_nodes (xs @ [t]) s s'" using aq_dequeues [OF q] by blast
  then have "queued s' xs is"
    using assms i only_nodes_kmem [OF s'(4)] by (auto simp: queued_def)
  with s' i show ?thesis by auto
qed

lemma queued_swapAQ:
  assumes "queued s (as @ p # c # bs) (is @ i # j # js)" "length as = length is"
  shows "\<exists>s'. swapAQ c s = Ret s' \<and> queued s' (as @ c # p # bs) (is @ j # i # js)"
proof -
  have q: "queue_nodes s (as @ p # c # bs)" using assms by (simp add: queued_def)
  have i: "is = map (\<lambda>x. unat (ix_of s x)) as" "i = unat (ix_of s p)" "j = unat (ix_of s c)"
    "js = map (\<lambda>x. unat (ix_of s x)) bs"
    using assms by (auto simp: queued_def append_eq_append_conv)
  obtain s' where s': "swapAQ c s = Ret s'" "queue_nodes s' (as @ c # p # bs)"
    "\<forall>x\<in>set (as @ p # c # bs). ix_of s' x = ix_of s x" "only_nodes (as @ p # c # bs) s s'"
    using swapAQ_swaps [OF q] by blast
  have "queued s' (as @ c # p # bs) (is @ j # i # js)"
    using s' assms(1) i only_nodes_kmem [OF s'(4)] by (auto simp: queued_def)
  with s' show ?thesis by blast
qed

lemma queued_enqueue:
  assumes Q: "queued s xs is" and free: "free_frames (vk s) (f # fs)" and i: "i < 4294967296"
  shows "\<exists>s'. enqueue_AQ i s = Ret s' \<and> queued s' (frame_addr f # xs) (i # is) \<and> free_frames (vk s') fs"
proof -
  have q: "queue_nodes s xs" and inv: "kmem_inv (vk s)" and al: "set xs \<subseteq> allocated (vk s)"
    and ix: "is = map (\<lambda>x. unat (ix_of s x)) xs"
    using Q by (auto simp: queued_def)
  define k where "k = set_refs f 1 ((vk s)\<lparr>freelist := run_next (runs (vk s) f)\<rparr>)"
  have kf: "free_frames k fs" using kalloc_free_frames(2) [OF free] by (simp add: k_def)
  then have kinv: "kmem_inv k" by (auto simp: kmem_inv_def)
  have f: "f < MAXPAGES" "refcount (runs (vk s) f) = 0" using free by (auto simp: free_frames_def free_frame_def)
  then have kal: "frame_addr f \<notin> allocated (vk s)" "allocated k = insert (frame_addr f) (allocated (vk s))"
    by (auto simp: allocated_iff k_def allocated_set_refs)
  let ?n = "frame_addr f" and ?s = "s\<lparr>vk := k\<rparr>"
  have n: "node ?n" "?n \<notin> set xs" "?n \<noteq> 0" using kal f al by (auto simp: node_def)
  have N: "\<And>y. y \<in> set xs \<Longrightarrow> node y" and D: "distinct xs" using q by (auto simp: queue_nodes_def)
  have ld: "ld a ?s = ld a s" for a by (simp add: ld_def k_def)
  have k: "on_kr kalloc s = Ret (?n, ?s)" using kalloc_free_frames(1) [OF free] by (simp add: on_kr_def k_def)
  define s' where "s' = (if xs = []
    then st (qn_prev ?n) 0 (st (qn_next ?n) 0 (upd_proc (\<lambda>p. p\<lparr>queue_head := ?n, queue_tail := ?n\<rparr>)
      (st (qn_page_index ?n) (of_nat i) ?s)))
    else st (qn_prev ?n) 0 (upd_proc (\<lambda>p. p\<lparr>queue_head := ?n\<rparr>) (st (qn_next ?n) (hd xs)
      (st (qn_prev (hd xs)) ?n (st (qn_page_index ?n) (of_nat i) ?s)))))"
  have head: "queue_head (cur s) = (if xs = [] then 0 else hd xs)" "queue_tail (cur s) = (if xs = [] then 0 else last xs)"
    using q by (auto simp: queue_nodes_def)
  have hx: "xs \<noteq> [] \<Longrightarrow> node (hd xs)" "xs \<noteq> [] \<Longrightarrow> hd xs \<noteq> ?n" using N n(2) by (metis hd_in_set)+
  have z: "xs \<noteq> [] \<Longrightarrow> hd xs \<noteq> 0" using hx by (auto simp: node_def)
  have run: "enqueue_AQ i s = Ret s'"
    using n head hx z by (simp add: enqueue_AQ_def k s'_def Let_def)
  have fl: "nx_of s' y = (if y = ?n then if xs = [] then 0 else hd xs else nx_of s y)"
    "pv_of s' y = (if y = ?n then 0 else if xs \<noteq> [] \<and> y = hd xs then ?n else pv_of s y)"
    "ix_of s' y = (if y = ?n then of_nat i else ix_of s y)" if "node y" for y
    using that n hx by (auto simp: s'_def ld)
  have al': "allocated (vk s') = allocated k" and inv': "kmem_inv (vk s')"
    using kinv by (auto simp: s'_def kmem_inv_def free_frames_def free_frame_def)
  have "seg (nx_of s') (pv_of s') ?n xs 0"
  proof (cases xs)
    case (Cons y ys)
    have "seg (nx_of s') (pv_of s') y ys 0 = seg (nx_of s) (pv_of s) y ys 0"
      using N D n Cons by (intro seg_cong conjI) (auto simp: fl)
    with q N n Cons show ?thesis by (auto simp: queue_nodes_def fl)
  qed simp
  then have "queue_nodes s' (?n # xs)"
    using n D N head by (auto simp: queue_nodes_def fl s'_def)
  then have "queued s' (?n # xs) (i # is)"
    using inv' al' kal(2) al ix N n i by (auto simp: queued_def fl)
  moreover have "free_frames (vk s') fs" using kf by (auto simp: s'_def free_frames_def free_frame_def)
  ultimately show ?thesis using run by blast
qed

section \<open>The queue as an interface\<close>

text \<open>
  What the paging code relies on: a queue that takes indices at one end and gives them back at
  the other. \<open>holds s is\<close> reads the queue from the newest entry to the oldest; \<open>room s n\<close> promises
  space for \<open>n\<close> more.
\<close>

primrec take_out :: "('s \<Rightarrow> ('i \<times> 's) outcome) \<Rightarrow> nat \<Rightarrow> 's \<Rightarrow> ('i list \<times> 's) outcome" where
  "take_out deq 0 s = Ret ([], s)"
| "take_out deq (Suc n) s = bnd (deq s) (\<lambda>(i, s). bnd (take_out deq n s) (\<lambda>(is, s). Ret (i # is, s)))"

locale fifo_queue =
  fixes enq :: "'i \<Rightarrow> 's \<Rightarrow> 's outcome" and deq :: "'s \<Rightarrow> ('i \<times> 's) outcome"
    and holds :: "'s \<Rightarrow> 'i list \<Rightarrow> bool" and room :: "'s \<Rightarrow> nat \<Rightarrow> bool" and valid :: "'i \<Rightarrow> bool"
  assumes enq_law: "holds s js \<Longrightarrow> room s (Suc n) \<Longrightarrow> valid i \<Longrightarrow>
      \<exists>s'. enq i s = Ret s' \<and> holds s' (i # js) \<and> room s' n"
    and deq_law: "holds s (js @ [i]) \<Longrightarrow> \<exists>s'. deq s = Ret (i, s') \<and> holds s' js"
begin

lemma enq_all:
  "holds s ks \<Longrightarrow> room s (length js) \<Longrightarrow> \<forall>j\<in>set js. valid j \<Longrightarrow>
   \<exists>s'. for_each enq js s = Ret s' \<and> holds s' (rev js @ ks)"
proof (induction js arbitrary: s ks)
  case (Cons j js)
  then obtain s1 where "enq j s = Ret s1" "holds s1 (j # ks)" "room s1 (length js)"
    using enq_law [of s ks "length js" j] by auto
  with Cons show ?case by fastforce
qed simp

lemma deq_all: "holds s (ks @ rev js) \<Longrightarrow> \<exists>s'. take_out deq (length js) s = Ret (js, s') \<and> holds s' ks"
proof (induction js arbitrary: s)
  case (Cons j js)
  then obtain s1 where "deq s = Ret (j, s1)" "holds s1 (ks @ rev js)"
    using deq_law [of s "ks @ rev js" j] by auto
  with Cons.IH [of s1] show ?case by auto
qed simp

lemma first_in_first_out:
  assumes "holds s []" "room s (length js)" "\<forall>j\<in>set js. valid j"
  shows "\<exists>s'. bnd (for_each enq js s) (take_out deq (length js)) = Ret (js, s') \<and> holds s' []"
proof -
  obtain s1 where s1: "for_each enq js s = Ret s1" "holds s1 (rev js)" using enq_all [OF assms] by auto
  with deq_all [of s1 "[]" js] show ?thesis by auto
qed

end

definition dequeue_AQ :: "'f vst \<Rightarrow> (nat \<times> 'f vst) outcome" where
  "dequeue_AQ s = indexToEvict AQ s"

lemma dequeue_AQ_eq: "dequeue_AQ s = bnd (aq s) (\<lambda>(i, s). Ret (unat i, s))"
  by (simp add: dequeue_AQ_def indexToEvict_def)

interpretation aq_fifo: fifo_queue enqueue_AQ dequeue_AQ
  "\<lambda>s js. \<exists>xs. queued s xs js" "\<lambda>s n. \<exists>fs. free_frames (vk s) fs \<and> n \<le> length fs" "\<lambda>i. i < 4294967296"
proof unfold_locales
  fix s :: "'f vst" and js :: "nat list" and n i :: nat
  assume "\<exists>xs. queued s xs js" "\<exists>fs. free_frames (vk s) fs \<and> Suc n \<le> length fs" "i < 4294967296"
  then obtain xs f fs where "queued s xs js" "free_frames (vk s) (f # fs)" "n \<le> length fs" "i < 4294967296"
    by (metis Suc_le_D Suc_le_mono length_Suc_conv)
  with queued_enqueue show "\<exists>s'. enqueue_AQ i s = Ret s' \<and> (\<exists>xs. queued s' xs (i # js)) \<and>
      (\<exists>fs. free_frames (vk s') fs \<and> n \<le> length fs)" by blast
next
  fix s :: "'f vst" and js :: "nat list" and i :: nat
  assume "\<exists>xs. queued s xs (js @ [i])"
  then obtain xs where xs: "queued s xs (js @ [i])" by blast
  then obtain ys t where "xs = ys @ [t]" by (cases xs rule: rev_cases) (auto simp: queued_def)
  with xs queued_aq [of s ys t js i] show "\<exists>s'. dequeue_AQ s = Ret (i, s') \<and> (\<exists>xs. queued s' xs js)"
    by (auto simp: dequeue_AQ_eq)
qed

section \<open>Lemmas: aging\<close>

definition aged :: "u32 \<Rightarrow> bool \<Rightarrow> u32" where
  "aged c a = drop_bit 1 c OR (if a then 0x80000000 else 0)"

lemma updateNfua_turn_eq:
  assumes r: "resident d s" and i: "i < MAX_PSYC_PAGES" and used: "pg_isused (ramPages (cur s) ! i)"
  shows "\<exists>s'. updateNfua_turn i s = Ret s' \<and> resident d s' \<and>
    ramPages (cur s') = (ramPages (cur s))[i := (ramPages (cur s) ! i)
      \<lparr>pg_nfua_counter := aged (pg_nfua_counter (ramPages (cur s) ! i)) (accessed d s i)\<rparr>] \<and>
    (\<forall>j<MAX_PSYC_PAGES. accessed d s' j \<longleftrightarrow> accessed d s j \<and> j \<noteq> i)"
proof -
  let ?g = "ramPages (cur s) ! i"
  define s1 where "s1 = upd_proc (\<lambda>p. p\<lparr>ramPages := (ramPages p)[i := (ramPages p ! i)
    \<lparr>pg_nfua_counter := aged (pg_nfua_counter (ramPages p ! i)) (accessed d s i)\<rparr>]\<rparr>) s"
  have len: "length (ramPages (cur s)) = MAX_PSYC_PAGES" using r by (simp add: resident_def arrays_ok_def)
  have va: "ram_va s1 j = ram_va s j" "pg_pgdir (ramPages (cur s1) ! j) = pg_pgdir (ramPages (cur s) ! j)"
    if "j < MAX_PSYC_PAGES" for j
    using that len i by (auto simp: s1_def nth_list_update)
  have k1: "vk s1 = vk s" by (simp add: s1_def)
  have r1: "resident d s1"
    using r va by (auto simp: resident_def k1 arrays_ok_def) (simp_all add: s1_def)
  have acc1: "accessed d s1 j = accessed d s j" if "j < MAX_PSYC_PAGES" for j
    using va [OF that] by (simp add: accessed_def k1)
  note t = resident_table [OF r i] and pg = resident_pgdir [OF r i]
  have nz: "table (mem (vk s)) d (ram_va s i) + 4 * PTX (ram_va s i) \<noteq> 0"
    using pgdir_ok_table [OF resident_ok(2) [OF r] t] by (intro entry_nonzero [of _ "vk s"]) auto
  have v: "ld (table (mem (vk s)) d (ram_va s i) + 4 * PTX (ram_va s i)) s = pte_val (mem (vk s)) d (ram_va s i)"
    using t by (simp add: ld_def pte_val_def)
  have eq: "updateNfua_turn i s = Ret (if accessed d s i then clear_A d i s1 else s1)"
  proof (cases "accessed d s i")
    case True
    then show ?thesis
      using nz t used va(1) [OF i] v
      by (simp add: updateNfua_turn_def ram_page_def i pg walk_lookup accessed_def set_ram_page_def
          clear_A_def k1 st_def set_pte_def) (simp add: s1_def aged_def accessed_def ld_def)
  next
    case False
    then show ?thesis
      using nz t used v by (simp add: updateNfua_turn_def ram_page_def i pg walk_lookup accessed_def
          set_ram_page_def s1_def aged_def)
  qed
  let ?s = "if accessed d s i then clear_A d i s1 else s1"
  have "resident d ?s" using r1 i clear_A_resident(1) by auto
  moreover have "\<forall>j<MAX_PSYC_PAGES. accessed d ?s j \<longleftrightarrow> accessed d s j \<and> j \<noteq> i"
    using accessed_clear_A [OF r1 i] acc1 by auto
  moreover have "ramPages (cur ?s) = (ramPages (cur s))[i := ?g\<lparr>pg_nfua_counter := aged (pg_nfua_counter ?g) (accessed d s i)\<rparr>]"
    by (simp add: s1_def)
  ultimately show ?thesis using eq by blast
qed

lemma updateNfua_ages:
  assumes r: "resident d s" and used: "\<forall>i<MAX_PSYC_PAGES. pg_isused (ramPages (cur s) ! i)" and n: "n \<le> MAX_PSYC_PAGES"
  shows "\<exists>s'. for_each updateNfua_turn [0..<n] s = Ret s' \<and> resident d s' \<and>
    (\<forall>j<MAX_PSYC_PAGES. ramPages (cur s') ! j = (let g = ramPages (cur s) ! j in if j < n
       then g\<lparr>pg_nfua_counter := aged (pg_nfua_counter g) (accessed d s j)\<rparr> else g)) \<and>
    (\<forall>j<MAX_PSYC_PAGES. accessed d s' j \<longleftrightarrow> accessed d s j \<and> n \<le> j)"
  using n
proof (induction n)
  case 0
  then show ?case using r by simp
next
  case (Suc n)
  then obtain s1 where s1: "for_each updateNfua_turn [0..<n] s = Ret s1" "resident d s1"
    "\<forall>j<MAX_PSYC_PAGES. ramPages (cur s1) ! j = (let g = ramPages (cur s) ! j in if j < n
       then g\<lparr>pg_nfua_counter := aged (pg_nfua_counter g) (accessed d s j)\<rparr> else g)"
    "\<forall>j<MAX_PSYC_PAGES. accessed d s1 j \<longleftrightarrow> accessed d s j \<and> n \<le> j" by auto
  have len: "length (ramPages (cur s1)) = MAX_PSYC_PAGES" using s1(2) by (simp add: resident_def arrays_ok_def)
  have n: "n < MAX_PSYC_PAGES" using Suc.prems by simp
  have "pg_isused (ramPages (cur s1) ! n)" using s1(3) used n by (simp add: Let_def)
  from updateNfua_turn_eq [OF s1(2) n this]
  obtain s2 where s2: "updateNfua_turn n s1 = Ret s2" "resident d s2"
    "ramPages (cur s2) = (ramPages (cur s1))[n := (ramPages (cur s1) ! n)
      \<lparr>pg_nfua_counter := aged (pg_nfua_counter (ramPages (cur s1) ! n)) (accessed d s1 n)\<rparr>]"
    "\<forall>j<MAX_PSYC_PAGES. accessed d s2 j \<longleftrightarrow> accessed d s1 j \<and> j \<noteq> n" by blast
  have "\<forall>j<MAX_PSYC_PAGES. ramPages (cur s2) ! j = (let g = ramPages (cur s) ! j in if j < Suc n
       then g\<lparr>pg_nfua_counter := aged (pg_nfua_counter g) (accessed d s j)\<rparr> else g)"
    using s1(3,4) n len unfolding s2(3) by (auto simp: Let_def nth_list_update less_Suc_eq)
  moreover have "\<forall>j<MAX_PSYC_PAGES. accessed d s2 j \<longleftrightarrow> accessed d s j \<and> Suc n \<le> j"
    using s1(4) s2(4) by auto
  ultimately show ?case using s1(1) s2(1,2) by (auto simp: for_each_append)
qed

section \<open>Properties\<close>


text \<open>A process with 16 resident pages, of which only page 1 has been accessed.\<close>

definition demo_pages :: "page list" where
  "demo_pages = map (\<lambda>i. zero_page\<lparr>pg_pgdir := 0x80401000, pg_isused := True, pg_virt_addr := of_nat (i * 4096),
     pg_nfua_counter := of_nat (20 - i)\<rparr>) [0..<16]"

definition demo :: "unit vst" where
  "demo = \<lparr>vk = one_table\<lparr>mem := set_pte (mem one_table) 0x80401000 0x1000 0x403027\<rparr>,
     cur = blank_proc\<lparr>ramPages := demo_pages, num_ram := 16, clockHand := 1\<rparr>, cr3 = 0x401000, sw = ()\<rparr>"

lemma demo_va: "i < 16 \<Longrightarrow> ram_va demo i = of_nat (i * 4096)"
  by (simp add: demo_def demo_pages_def)

lemma demo_page: "page_aligned (of_nat (i * 4096))" if "i < 16"
  using that by (simp add: page_aligned_iff unat_frame)

lemma demo_resident: "resident 0x80401000 demo"
proof -
  have t: "has_table (mem one_table) 0x80401000 0x1000" by (simp add: one_table_tables PDX_def)
  have e: "extends 0x80401000 one_table (vk demo)"
    unfolding demo_def by simp (rule extends_set_pte [OF one_table_ok t])
  have h: "has_table (mem (vk demo)) 0x80401000 w \<longleftrightarrow> PDX w = 0" for w
    using set_pte_lemmas(1) [OF one_table_ok(2) t] by (simp add: demo_def one_table_tables)
  have d: "PDX (of_nat (i * 4096)) = 0" if "i < 16" for i
  proof -
    have "unat (PDX (of_nat (i * 4096))) = i * 4096 div 4194304" using that by (simp add: unat_PDX unat_frame)
    also have "\<dots> = 0" using that by simp
    finally show ?thesis by (simp add: unat_eq_0)
  qed
  have inj: "i = j" if "i < 16" "j < 16" "PGROUNDDOWN (of_nat (i * 4096)) = PGROUNDDOWN (of_nat (j * 4096))" for i j
  proof -
    have "(of_nat (i * 4096) :: u32) = of_nat (j * 4096)"
      using that(3) by (simp only: PGROUNDDOWN_aligned [OF demo_page [OF that(1)]] PGROUNDDOWN_aligned [OF demo_page [OF that(2)]])
    then have "unat (of_nat (i * 4096) :: u32) = unat (of_nat (j * 4096) :: u32)" by simp
    with that(1,2) show ?thesis by (simp add: unat_frame)
  qed
  show ?thesis
    unfolding resident_def
  proof (intro conjI allI impI)
    show "arrays_ok (cur demo)" by (simp add: demo_def demo_pages_def arrays_ok_def blank_proc_def)
    show "kmem_inv (vk demo)" "pgdir_ok (vk demo) 0x80401000" using e by (simp_all add: extends_def)
    fix i :: nat assume i: "i < MAX_PSYC_PAGES"
    show "pg_pgdir (ramPages (cur demo) ! i) = 0x80401000" using i by (simp add: demo_def demo_pages_def)
    show "has_table (mem (vk demo)) 0x80401000 (ram_va demo i)" using i by (simp only: demo_va h d)
    fix j :: nat assume j: "j < MAX_PSYC_PAGES" "PGROUNDDOWN (ram_va demo i) = PGROUNDDOWN (ram_va demo j)"
    with i show "i = j" by (intro inj) (simp_all only: demo_va)
  qed
qed

lemma demo_accessed: "i < 16 \<Longrightarrow> accessed 0x80401000 demo i \<longleftrightarrow> i = 1"
proof -
  assume i: "i < 16"
  have t: "has_table (mem one_table) 0x80401000 0x1000" by (simp add: one_table_tables PDX_def)
  have r: "PGROUNDDOWN 0x1000 = 0x1000" by (simp add: PGROUNDDOWN_def)
  have v: "pte_val (mem (vk demo)) 0x80401000 w = (if PGROUNDDOWN w = 0x1000 then 0x403027 else 0)" for w
    using set_pte_lemmas(4) [OF one_table_ok(2) t, of "0x403027" w] by (simp add: demo_def one_table_tables(3) r)
  have "PGROUNDDOWN (ram_va demo i) = of_nat (i * 4096)"
    by (simp only: demo_va [OF i] PGROUNDDOWN_aligned [OF demo_page [OF i]])
  moreover have "(of_nat (i * 4096) :: u32) = 0x1000 \<longleftrightarrow> i = 1"
    using i by (simp only: word_unat_eq_iff) (simp add: unat_frame)
  ultimately show ?thesis unfolding accessed_def v by (simp add: has_def)
qed


lemma scfifo_rounds_mono: "scfifo_rounds m s = Ret x \<Longrightarrow> m \<le> n \<Longrightarrow> scfifo_rounds n s = Ret x"
proof (induction m arbitrary: n s)
  case (Suc m)
  from Suc.prems(2) obtain k where k: "n = Suc k" "m \<le> k" by (cases n) auto
  obtain r s1 where 1: "scfifo_scan hand_up [clockHand (cur s)..<MAX_PSYC_PAGES] s = Ret (r, s1)"
    using Suc.prems(1) by (auto simp: bnd_Ret_iff)
  show ?case
  proof (cases r)
    case (Some i)
    with 1 Suc.prems(1) show ?thesis by (simp add: k(1))
  next
    case None
    then obtain r2 s2 where 2: "scfifo_scan hand_wrapped [0..<clockHand (cur s1)] s1 = Ret (r2, s2)"
      using 1 Suc.prems(1) by (auto simp: bnd_Ret_iff)
    with None 1 Suc.prems(1) Suc.IH [OF _ k(2)] show ?thesis by (cases r2) (simp_all add: k(1))
  qed
qed simp

text \<open>
  (C11) \<open>scfifo\<close>'s endless loop makes at most two rounds: any larger bound on the number of rounds gives
  the same result.
\<close>

theorem scfifo_two_rounds:
  assumes "resident d s" and "clockHand (cur s) \<le> MAX_PSYC_PAGES" and "2 \<le> n"
  shows "scfifo_rounds n s = scfifo s \<and> scfifo s \<noteq> Hang"
proof -
  obtain x where x: "scfifo_rounds 2 s = Ret x" using scfifo_rounds_eq [OF assms(1,2), of 2] by auto
  with scfifo_rounds_mono [OF x, of n] assms(3) show ?thesis by (simp add: scfifo_def)
qed

theorem scfifo_two_rounds_witness: "scfifo_rounds 7 demo = scfifo demo"
  using scfifo_two_rounds [OF demo_resident, of 7] by (simp add: demo_def)

text \<open>
  (C9) \<open>swapAQ\<close> refines the exchange of two neighbours: on a well-linked queue that holds the page
  indices \<open>is @ i # j # js\<close>, moving the node of \<open>j\<close> towards the head leaves a well-linked queue that
  holds \<open>is @ j # i # js\<close>, whichever of the two nodes is at an end.
\<close>

theorem swapAQ_refines_swap:
  assumes "queued s (as @ p # c # bs) (is @ i # j # js)" and "length as = length is"
  shows "\<exists>s'. swapAQ c s = Ret s' \<and> queued s' (as @ c # p # bs) (is @ j # i # js)"
  by (rule queued_swapAQ [OF assms])

text \<open>
  (C10) The queue is first in, first out: entering the indices \<open>js\<close> one after the other into an empty
  queue and then evicting as many times gives back \<open>js\<close> in the same order, provided there is a free
  page for each node.
\<close>

theorem aq_first_in_first_out:
  assumes "queued s [] []" and "free_frames (vk s) fs" and "length js \<le> length fs" and "\<forall>j\<in>set js. j < MAX_PSYC_PAGES"
  shows "\<exists>s'. bnd (for_each enqueue_AQ js s) (take_out (indexToEvict AQ) (length js)) = Ret (js, s') \<and>
    (\<exists>xs. queued s' xs [])"
proof -
  have d: "indexToEvict AQ = (dequeue_AQ :: 'a vst \<Rightarrow> _)" by (rule ext) (simp add: dequeue_AQ_def)
  show ?thesis
    unfolding d by (rule aq_fifo.first_in_first_out) (use assms in \<open>force+\<close>)
qed

text \<open>Two free pages and an empty queue.\<close>

definition aq_demo :: "unit vst" where
  "aq_demo = \<lparr>vk = \<lparr>mem = (\<lambda>_. 0), kend = 0x80400000, kmem_locked = False, use_lock = True, freelist = Some 1024,
     runs = (\<lambda>_. \<lparr>run_next = None, refcount = 0\<rparr>)(1024 := \<lparr>run_next = Some 1025, refcount = 0\<rparr>)\<rparr>,
     cur = blank_proc, cr3 = 0, sw = ()\<rparr>"

lemma aq_demo_free: "free_frames (vk aq_demo) [1024, 1025]"
  by (simp add: aq_demo_def free_frames_def free_frame_def frame_addr_def P2V_def)

lemma aq_demo_queued: "queued aq_demo [] []"
  using aq_demo_free
  by (auto simp: queued_def queue_nodes_def kmem_inv_def) (simp_all add: aq_demo_def blank_proc_def)

theorem aq_first_in_first_out_witness:
  "\<exists>s'. bnd (for_each enqueue_AQ [7, 4] aq_demo) (take_out (indexToEvict AQ) (length [7, 4 :: nat])) = Ret ([7, 4], s')"
  using aq_first_in_first_out [OF aq_demo_queued aq_demo_free, of "[7, 4]"] by auto

theorem swapAQ_refines_swap_witness:
  "\<exists>s x y s'. queued (s :: unit vst) [y, x] [4, 7] \<and> swapAQ x s = Ret s' \<and> queued s' [x, y] [7, 4]"
proof -
  obtain s1 where s1: "enqueue_AQ 7 aq_demo = Ret s1" "queued s1 [frame_addr 1024] [7]" "free_frames (vk s1) [1025]"
    using queued_enqueue [OF aq_demo_queued aq_demo_free, of 7] by auto
  obtain s2 where s2: "queued (s2 :: unit vst) [frame_addr 1025, frame_addr 1024] [4, 7]"
    using queued_enqueue [OF s1(2,3), of 4] by auto
  with swapAQ_refines_swap [of s2 "[]" "frame_addr 1025" "frame_addr 1024" "[]" "[]" 4 7 "[]"]
  show ?thesis by auto
qed

text \<open>(C12) \<open>nfua\<close> evicts the first page with the smallest counter.\<close>

theorem nfua_evicts_least:
  "indexToEvict NFUA s = Ret (i, s) \<longleftrightarrow> least_at (\<lambda>i. pg_nfua_counter (ramPages (cur s) ! i)) MAX_PSYC_PAGES i"
  using nfua_least [of "cur s"] least_at_unique [of _ _ "nfua (cur s)" i] by (auto simp: indexToEvict_def)

text \<open>
  (C13) \<open>lapa\<close> evicts a page whose counter has the fewest ones, and among those the one with the
  smallest counter as soon as at least two pages other than page 0 have that many ones.
\<close>

theorem lapa_evicts_fewest_ones:
  "\<exists>i<MAX_PSYC_PAGES. indexToEvict LAPA s = Ret (i, s) \<and>
    (\<forall>j<MAX_PSYC_PAGES. ones (pg_lapa_counter (ramPages (cur s) ! i)) \<le> ones (pg_lapa_counter (ramPages (cur s) ! j)) \<and>
      (1 < card {k. 0 < k \<and> k < MAX_PSYC_PAGES \<and>
           ones (pg_lapa_counter (ramPages (cur s) ! k)) = ones (pg_lapa_counter (ramPages (cur s) ! i))} \<longrightarrow>
       ones (pg_lapa_counter (ramPages (cur s) ! j)) = ones (pg_lapa_counter (ramPages (cur s) ! i)) \<longrightarrow>
       pg_lapa_counter (ramPages (cur s) ! i) \<le> pg_lapa_counter (ramPages (cur s) ! j)))"
  using lapa_chooses [where p = "cur s"] by (intro exI [of _ "lapa (cur s)"]) (auto simp: indexToEvict_def)

theorem lapa_evicts_fewest_ones_witness:
  "\<exists>i<16. indexToEvict LAPA demo = Ret (i, demo) \<and>
     ones (pg_lapa_counter (ramPages (cur demo) ! i)) \<le> ones (pg_lapa_counter (ramPages (cur demo) ! 5))"
  using lapa_evicts_fewest_ones [of demo] by force

text \<open>
  (C14) A tie that \<open>lapa\<close> does not break: when page 0 and exactly one other page have the fewest ones,
  page 0 is evicted even if the other page's counter is smaller, since \<open>instances\<close> starts at 0.
\<close>

theorem lapa_single_tie:
  assumes "ones (pg_lapa_counter (ramPages (cur s) ! k)) = ones (pg_lapa_counter (ramPages (cur s) ! 0))"
    and "0 < k" "k < MAX_PSYC_PAGES"
    and "\<forall>j<MAX_PSYC_PAGES. j \<noteq> 0 \<longrightarrow> j \<noteq> k \<longrightarrow>
      ones (pg_lapa_counter (ramPages (cur s) ! 0)) < ones (pg_lapa_counter (ramPages (cur s) ! j))"
  shows "indexToEvict LAPA s = Ret (0, s)"
proof -
  let ?c = "\<lambda>i. ones (pg_lapa_counter (ramPages (cur s) ! i))"
  obtain l n where l: "fold (lapa_turn (ramPages (cur s))) [1..<16] (countSetBits (pg_lapa_counter (ramPages (cur s) ! 0)), 0, 0) =
      (countSetBits (pg_lapa_counter (ramPages (cur s) ! l)), l, n)" "least_at ?c 16 l"
    "n = card {i. 0 < i \<and> i < 16 \<and> ?c i = ?c l}"
    using lapa_fold [of 16 "ramPages (cur s)"] by auto
  have "?c 0 \<le> ?c j" if "j < 16" for j using assms that by (cases "j = 0"; cases "j = k") auto
  then have "least_at ?c 16 0" by (simp add: least_at_def)
  with l(2) have l0: "l = 0" by (rule least_at_unique)
  have "{i. 0 < i \<and> i < 16 \<and> ?c i = ?c 0} = {k}" using assms by force
  with l l0 show ?thesis by (simp add: indexToEvict_def lapa_def Let_def)
qed

definition tie_pages :: "page list" where
  "tie_pages = map (\<lambda>i. zero_page\<lparr>pg_lapa_counter := (if i = 0 then 2 else if i = 1 then 1 else 3)\<rparr>) [0..<16]"

theorem lapa_single_tie_witness:
  "indexToEvict LAPA (demo\<lparr>cur := blank_proc\<lparr>ramPages := tie_pages\<rparr>\<rparr>) =
     Ret (0, demo\<lparr>cur := blank_proc\<lparr>ramPages := tie_pages\<rparr>\<rparr>) \<and>
   pg_lapa_counter (tie_pages ! 1) < pg_lapa_counter (tie_pages ! 0)"
proof -
  have c: "pg_lapa_counter (tie_pages ! i) = (if i = 0 then 2 else if i = 1 then 1 else 3)" if "i < 16" for i
    using that by (simp add: tie_pages_def)
  have d: "drop_bit 1 1 = (0 :: u32)" "drop_bit 1 2 = (1 :: u32)" "drop_bit 1 3 = (1 :: u32)"
    by (simp_all add: drop_bit_eq_div)
  have b: "bit (1 :: u32) 0" "\<not> bit (2 :: u32) 0" "bit (3 :: u32) 0" "ones 0 = 0" by (simp_all add: bit_0 ones_def)
  have o1: "ones 1 = 1" unfolding ones_step [of 1] d by (simp add: b)
  have o: "ones 1 = 1" "ones 2 = 1" "ones 3 = 2"
    unfolding ones_step [of 2] ones_step [of 3] d by (simp_all add: b o1)
  show ?thesis
    using lapa_single_tie [of "demo\<lparr>cur := blank_proc\<lparr>ramPages := tie_pages\<rparr>\<rparr>" 1] by (simp add: c o)
qed



end
