(* ===== verification/Uvm.thy ===== *)
theory Uvm
  imports Policy
begin

text \<open>
  The address-space operations of \<^verbatim>\<open>vm.c\<close>: building and destroying page tables
  (\<^verbatim>\<open>setupkvm\<close>, \<^verbatim>\<open>deallocuvm\<close>, \<^verbatim>\<open>freevm\<close>), switching to them (\<^verbatim>\<open>switchuvm\<close>,
  \<^verbatim>\<open>switchkvm\<close>), copying them for \<^verbatim>\<open>fork\<close> (\<^verbatim>\<open>copyuvm\<close>, \<^verbatim>\<open>cowuvm\<close>), and the handler of
  a write to a copy-on-write page, which is shown to leave the other owner's memory as it was.
\<close>

unbundle bit_operations_syntax

section \<open>Freeing\<close>

text \<open>
  The kernel's idiom for giving up one use of a page: \<open>if(getRefs(v) == 1) kfree(v); else refDec(v);\<close>
\<close>

definition unref :: "addr \<Rightarrow> kst \<Rightarrow> kst outcome" where
  "unref v k = bnd (getRefs v k) (\<lambda>r. if r = 1 then kfree v k else refDec v k)"

text \<open>
  The loop of \<open>deallocuvm\<close> over the page arrays. It clears local copies of the entries, so all that
  remains of it are the two counters.
\<close>

definition forget_turn :: "addr \<Rightarrow> addr \<Rightarrow> nat \<Rightarrow> proc \<Rightarrow> proc" where
  "forget_turn pgdir a i p =
     (let p_ram = ramPages p ! i; p_swap = swappedPages p ! i;
          p = (if pg_virt_addr p_ram = a \<and> pg_pgdir p_ram = pgdir then p\<lparr>num_ram := num_ram p - 1\<rparr> else p)
      in if pg_virt_addr p_swap = a \<and> pg_pgdir p_swap = pgdir then p\<lparr>num_swap := num_swap p - 1\<rparr> else p)"

definition forget_page :: "addr \<Rightarrow> addr \<Rightarrow> proc \<Rightarrow> proc" where
  "forget_page pgdir a p = fold (forget_turn pgdir a) [0..<MAX_PSYC_PAGES] p"

text \<open>
  One turn of \<open>deallocuvm\<close>'s loop, with the next value of \<open>a\<close>. An address that wraps around would
  start the loop over and over again.
\<close>

definition deallocuvm_turn :: "addr \<Rightarrow> addr \<Rightarrow> 'f vst \<Rightarrow> (addr \<times> 'f vst) outcome" where
  "deallocuvm_turn pgdir a s =
     bnd (walk pgdir a s) (\<lambda>pte.
     if pte = 0 then Ret (a + (NPTENTRIES - 1) * PGSIZE + PGSIZE, s)
     else if has (ld pte s) PTE_P
     then
       let pa = PTE_ADDR (ld pte s) in
       if pa = 0 then Panic ''kfree''
       else
         bnd (on_k (unref (P2V pa)) s) (\<lambda>s.
         let s = (if p_pid (cur s) > 2 then upd_proc (forget_page pgdir a) s else s) in
         Ret (a + PGSIZE, st pte 0 s))
     else Ret (a + PGSIZE, s))"

function deallocuvm_loop :: "addr \<Rightarrow> addr \<Rightarrow> u32 \<Rightarrow> 'f vst \<Rightarrow> 'f vst outcome" where
  "deallocuvm_loop pgdir a oldsz s =
     (if \<not> a < oldsz then Ret s
      else bnd (deallocuvm_turn pgdir a s) (\<lambda>(a', s).
        if a < a' then deallocuvm_loop pgdir a' oldsz s else Hang))"
  by pat_completeness auto
termination
  by (relation "measure (\<lambda>(pgdir, a, oldsz, s). unat oldsz - unat a)") (auto simp: word_less_nat_alt)

declare deallocuvm_loop.simps [simp del]

definition deallocuvm :: "addr \<Rightarrow> u32 \<Rightarrow> u32 \<Rightarrow> 'f vst \<Rightarrow> (u32 \<times> 'f vst) outcome" where
  "deallocuvm pgdir oldsz newsz s =
     (if newsz \<ge> oldsz then Ret (oldsz, s)
      else bnd (deallocuvm_loop pgdir (PGROUNDUP newsz) oldsz s) (\<lambda>s. Ret (newsz, s)))"

definition freevm_turn :: "addr \<Rightarrow> u32 \<Rightarrow> 'f vst \<Rightarrow> 'f vst outcome" where
  "freevm_turn pgdir i s =
     (let e = ld (pgdir + 4 * i) s in
      if has e PTE_P then on_k (unref (P2V (PTE_ADDR e))) s else Ret s)"

definition freevm :: "addr \<Rightarrow> 'f vst \<Rightarrow> 'f vst outcome" where
  "freevm pgdir s =
     (if pgdir = 0 then Panic ''freevm: no pgdir''
      else
        bnd (deallocuvm pgdir KERNBASE 0 s) (\<lambda>(_, s).
        bnd (for_each (freevm_turn pgdir) (map of_nat [0..<1024]) s) (\<lambda>s.
        on_k (kfree pgdir) s)))"

section \<open>The kernel's part of a page table\<close>

text \<open>\<open>data\<close>, the address of the kernel's data, is fixed by the linker.\<close>

type_synonym kmap_entry = "addr \<times> u32 \<times> u32 \<times> u32"

definition kmap :: "addr \<Rightarrow> kmap_entry list" where
  "kmap data =
     [(KERNBASE, 0, EXTMEM, PTE_W),
      (KERNLINK, V2P KERNLINK, V2P data, 0),
      (data, V2P data, PHYSTOP, PTE_W),
      (DEVSPACE, DEVSPACE, 0, PTE_W)]"

fun setupkvm_loop :: "addr \<Rightarrow> kmap_entry list \<Rightarrow> 'f vst \<Rightarrow> (addr \<times> 'f vst) outcome" where
  "setupkvm_loop pgdir [] s = Ret (pgdir, s)"
| "setupkvm_loop pgdir ((virt, phys_start, phys_end, perm) # ks) s =
     bnd (on_kr (mappages pgdir virt (phys_end - phys_start) phys_start perm) s) (\<lambda>(r, s).
     if r < 0 then bnd (freevm pgdir s) (\<lambda>s. Ret (0, s))
     else setupkvm_loop pgdir ks s)"

definition setupkvm :: "addr \<Rightarrow> 'f vst \<Rightarrow> (addr \<times> 'f vst) outcome" where
  "setupkvm data s =
     bnd (on_kr kalloc s) (\<lambda>(pgdir, s).
     if pgdir = 0 then Ret (0, s)
     else
       let s = s\<lparr>vk := (vk s)\<lparr>mem := memset (mem (vk s)) pgdir 0 PGSIZE\<rparr>\<rparr> in
       if P2V PHYSTOP > DEVSPACE then Panic ''PHYSTOP too high''
       else setupkvm_loop pgdir (kmap data) s)"

definition switchkvm :: "addr \<Rightarrow> 'f vst \<Rightarrow> 'f vst" where
  "switchkvm kpgdir s = lcr3 (V2P kpgdir) s"

definition kvmalloc :: "addr \<Rightarrow> 'f vst \<Rightarrow> (addr \<times> 'f vst) outcome" where
  "kvmalloc data s = bnd (setupkvm data s) (\<lambda>(kpgdir, s). Ret (kpgdir, switchkvm kpgdir s))"

text \<open>\<open>switchuvm\<close>, but for the task state segment it loads.\<close>

definition switchuvm :: "proc \<Rightarrow> 'f vst \<Rightarrow> 'f vst outcome" where
  "switchuvm p s =
     (if p_kstack p = 0 then Panic ''switchuvm: no kstack''
      else if p_pgdir p = 0 then Panic ''switchuvm: no pgdir''
      else Ret (lcr3 (V2P (p_pgdir p)) s))"

section \<open>Copying an address space\<close>

text \<open>
  One turn of \<open>cowuvm\<close>'s loop. The first component of the result is false where the code jumps to
  \<open>bad\<close>. The second \<open>walkpgdir\<close> is used unchecked.
\<close>

definition cowuvm_turn :: "addr \<Rightarrow> addr \<Rightarrow> addr \<Rightarrow> 'f vst \<Rightarrow> (bool \<times> 'f vst) outcome" where
  "cowuvm_turn pgdir d i s =
     bnd (walk pgdir i s) (\<lambda>pte.
     if pte = 0 then Panic ''cowuvm: no pte''
     else if \<not> has (ld pte s) PTE_P \<and> \<not> has (ld pte s) PTE_PG
     then Panic ''cowuvm: page not present and not page faulted!''
     else if has (ld pte s) PTE_PG
     then
       bnd (on_kr (walkpgdir d i True) s) (\<lambda>(pte, s).
       if pte = 0 then Fault else Ret (True, st pte (PTE_U OR PTE_W OR PTE_PG) s))
     else
       let s = st pte (ld pte s OR PTE_COW) s;
           s = st pte (ld pte s AND NOT PTE_W) s;
           pa = PTE_ADDR (ld pte s);
           flags = PTE_FLAGS (ld pte s)
       in bnd (on_kr (mappages d i PGSIZE pa flags) s) (\<lambda>(r, s).
          if r < 0 then Ret (False, s)
          else bnd (on_k (refInc (P2V pa)) s) (\<lambda>s. Ret (True, s))))"

function cowuvm_loop :: "addr \<Rightarrow> addr \<Rightarrow> addr \<Rightarrow> u32 \<Rightarrow> 'f vst \<Rightarrow> (bool \<times> 'f vst) outcome" where
  "cowuvm_loop pgdir d i sz s =
     (if \<not> i < sz then Ret (True, s)
      else bnd (cowuvm_turn pgdir d i s) (\<lambda>(ok, s).
        if \<not> ok then Ret (False, s)
        else if i < i + PGSIZE then cowuvm_loop pgdir d (i + PGSIZE) sz s else Hang))"
  by pat_completeness auto
termination
  by (relation "measure (\<lambda>(pgdir, d, i, sz, s). unat sz - unat i)") (auto simp: word_less_nat_alt)

declare cowuvm_loop.simps [simp del]

definition cowuvm :: "addr \<Rightarrow> addr \<Rightarrow> u32 \<Rightarrow> 'f vst \<Rightarrow> (addr \<times> 'f vst) outcome" where
  "cowuvm data pgdir sz s =
     bnd (setupkvm data s) (\<lambda>(d, s).
     if d = 0 then Ret (0, s)
     else
       bnd (cowuvm_loop pgdir d 0 sz s) (\<lambda>(ok, s).
       if ok then Ret (d, lcr3 (V2P pgdir) s)
       else bnd (freevm d s) (\<lambda>s. Ret (0, lcr3 (V2P pgdir) s))))"

text \<open>\<open>copyuvm\<close>, with \<open>paged\<close> for \<open>SELECTION != NONE\<close>.\<close>

definition copyuvm_turn :: "bool \<Rightarrow> addr \<Rightarrow> addr \<Rightarrow> addr \<Rightarrow> 'f vst \<Rightarrow> (bool \<times> 'f vst) outcome" where
  "copyuvm_turn paged pgdir d i s =
     bnd (walk pgdir i s) (\<lambda>pte.
     if pte = 0 then Panic ''copyuvm: pte should exist''
     else if paged \<and> \<not> has (ld pte s) PTE_P \<and> \<not> has (ld pte s) PTE_PG
     then Panic ''copyuvm: page not present and also not paged out to disk''
     else if \<not> paged \<and> \<not> has (ld pte s) PTE_P then Panic ''copyuvm: page not present''
     else if paged \<and> has (ld pte s) PTE_PG
     then
       bnd (on_kr (walkpgdir d i True) s) (\<lambda>(pte, s).
       if pte = 0 then Fault else Ret (True, st pte (PTE_U OR PTE_W OR PTE_PG) s))
     else
       let pa = PTE_ADDR (ld pte s); flags = PTE_FLAGS (ld pte s) in
       bnd (on_kr kalloc s) (\<lambda>(page, s).
       if page = 0 then Ret (False, s)
       else
         let s = s\<lparr>vk := (vk s)\<lparr>mem := memmove (mem (vk s)) page (P2V pa) PGSIZE\<rparr>\<rparr> in
         bnd (on_kr (mappages d i PGSIZE (V2P page) flags) s) (\<lambda>(r, s).
         if r < 0 then if paged then Ret (False, s) else bnd (on_k (kfree page) s) (\<lambda>s. Ret (False, s))
         else Ret (True, s))))"

function copyuvm_loop :: "bool \<Rightarrow> addr \<Rightarrow> addr \<Rightarrow> addr \<Rightarrow> u32 \<Rightarrow> 'f vst \<Rightarrow> (bool \<times> 'f vst) outcome" where
  "copyuvm_loop paged pgdir d i sz s =
     (if \<not> i < sz then Ret (True, s)
      else bnd (copyuvm_turn paged pgdir d i s) (\<lambda>(ok, s).
        if \<not> ok then Ret (False, s)
        else if i < i + PGSIZE then copyuvm_loop paged pgdir d (i + PGSIZE) sz s else Hang))"
  by pat_completeness auto
termination
  by (relation "measure (\<lambda>(paged, pgdir, d, i, sz, s). unat sz - unat i)") (auto simp: word_less_nat_alt)

declare copyuvm_loop.simps [simp del]

definition copyuvm :: "selection \<Rightarrow> addr \<Rightarrow> addr \<Rightarrow> u32 \<Rightarrow> 'f vst \<Rightarrow> (addr \<times> 'f vst) outcome" where
  "copyuvm sel data pgdir sz s =
     bnd (setupkvm data s) (\<lambda>(d, s).
     if d = 0 then Ret (0, s)
     else
       bnd (copyuvm_loop (sel \<noteq> NONE) pgdir d 0 sz s) (\<lambda>(ok, s).
       if ok then Ret (d, s) else bnd (freevm d s) (\<lambda>s. Ret (0, s))))"

section \<open>Copy on write\<close>

text \<open>
  \<open>handle_cow_pagefault(curproc, pte, va)\<close>. The reference count is compared as a signed number; the
  result of \<open>kalloc\<close> is used unchecked.
\<close>

definition handle_cow_pagefault :: "addr \<Rightarrow> 'f vst \<Rightarrow> 'f vst outcome" where
  "handle_cow_pagefault pte s =
     (let err = tf_err (p_tf (cur s)) in
      if has err FEC_WR
      then
        if pte = 0 then Fault
        else if \<not> has (ld pte s) PTE_COW then Ret (upd_proc (\<lambda>p. p\<lparr>p_killed := True\<rparr>) s)
        else
          let pa = PTE_ADDR (ld pte s); virt_addr = P2V pa; flags = PTE_FLAGS (ld pte s) in
          bnd (getRefs virt_addr (vk s)) (\<lambda>ref_count.
          if sint ref_count > 1
          then
            bnd (on_kr kalloc s) (\<lambda>(new_page, s).
            if new_page = 0 then Fault
            else
              let s = s\<lparr>vk := (vk s)\<lparr>mem := memmove (mem (vk s)) new_page virt_addr PGSIZE\<rparr>\<rparr>;
                  new_pa = V2P new_page;
                  s = st pte (new_pa OR flags OR PTE_P OR PTE_W) s
              in on_k (refDec virt_addr) s)
          else
            let s = st pte (ld pte s OR PTE_W) s in
            Ret (st pte (ld pte s AND NOT PTE_COW) s))
      else Ret (upd_proc (\<lambda>p. p\<lparr>p_killed := True\<rparr>) s))"


section \<open>Lemmas: pages\<close>

lemma allocated_top: "v \<in> allocated k \<Longrightarrow> 0x80000000 \<le> unat v \<and> unat v < 0x8E000000"
  by (auto simp: allocated_def unat_frame_addr)

lemma memmove_page:
  assumes "d \<in> allocated k" "v \<in> allocated k" "d \<noteq> v"
  shows "memmove m d v PGSIZE = (\<lambda>x. if x - d < 4096 then m (v + (x - d)) else m x)"
  using allocated_top [OF assms(1)] allocated_top [OF assms(2)]
  by (subst memmove_eq) (auto simp: copied_def word_less_nat_alt)

lemma same_page_memmove:
  assumes "d \<in> allocated k" "v \<in> allocated k" "d \<noteq> v" "page_aligned q" "q \<noteq> d"
  shows "same_page m (memmove m d v PGSIZE) q"
  using assms pages_disjoint [of d q] allocated_page_aligned [OF assms(1)]
  by (auto simp: same_page_def memmove_page [OF assms(1-3)])

lemma kmem_inv_mem [simp]: "kmem_inv (k\<lparr>mem := m\<rparr>) = kmem_inv k"
  by (simp add: kmem_inv_def free_frames_def free_frame_def)

lemma pgdir_ok_mono:
  assumes "pgdir_ok k pgdir" "allocated k \<subseteq> allocated k'" "mem k' = mem k"
  shows "pgdir_ok k' pgdir"
  using assms(1,2) unfolding pgdir_ok_def assms(3) by blast

lemma pt_pages_allocated: "pgdir_ok k pgdir \<Longrightarrow> pt_pages (mem k) pgdir \<subseteq> allocated k"
  unfolding pt_pages_def using pgdir_ok_allocated pgdir_ok_table by blast

lemma pt_pages_aligned: "pgdir_ok k pgdir \<Longrightarrow> q \<in> pt_pages (mem k) pgdir \<Longrightarrow> page_aligned q"
  using pt_pages_allocated allocated_page_aligned by blast

lemma entry_addr:
  assumes "pgdir_ok (vk s) pgdir" "has_table (mem (vk s)) pgdir w"
  shows "table (mem (vk s)) pgdir w + 4 * PTX w \<noteq> 0"
    and "ld (table (mem (vk s)) pgdir w + 4 * PTX w) s = pte_val (mem (vk s)) pgdir w"
    and "walk pgdir w s = Ret (table (mem (vk s)) pgdir w + 4 * PTX w)"
proof -
  show "table (mem (vk s)) pgdir w + 4 * PTX w \<noteq> 0"
    using pgdir_ok_table [OF assms] by (intro entry_nonzero [of _ "vk s"]) auto
qed (use assms in \<open>auto simp: ld_def pte_val_def walk_lookup\<close>)

lemma present_has_table: "has (pte_val m pgdir w) f \<Longrightarrow> has_table m pgdir w"
  by (auto simp: pte_val_def split: if_splits)

text \<open>What a process sees at a user address.\<close>

definition uview :: "bmem \<Rightarrow> addr \<Rightarrow> addr \<Rightarrow> u8" where
  "uview m pgdir w = m (uaddr m pgdir w)"

lemma uaddr_in_page: "uaddr m pgdir w - upage m pgdir w < 4096"
  using page_offset [of w] by (simp add: uaddr_def)

lemma uview_frame:
  assumes "pte_val m' pgdir w = pte_val m pgdir w" "same_page m m' (upage m pgdir w)"
  shows "uview m' pgdir w = uview m pgdir w"
proof -
  have "uaddr m' pgdir w = uaddr m pgdir w" using assms(1) by (simp add: uaddr_def upage_def)
  with assms(2) uaddr_in_page [of m pgdir w] show ?thesis by (simp add: uview_def same_page_def)
qed

section \<open>Lemmas: the copy-on-write fault\<close>

lemma cow_fault_copies:
  assumes inv: "kmem_inv (vk s)" and ok: "pgdir_ok (vk s) pgdir"
    and wr: "has (tf_err (p_tf (cur s))) FEC_WR" and cow: "has (pte_val (mem (vk s)) pgdir w) PTE_COW"
    and f: "f = upage (mem (vk s)) pgdir w" "f \<in> allocated (vk s)" "f \<notin> pt_pages (mem (vk s)) pgdir"
    and shared: "1 < sint (refcount (runs (vk s) (frame_of f)))" and free: "freelist (vk s) = Some x"
  shows "\<exists>s'. handle_cow_pagefault (table (mem (vk s)) pgdir w + 4 * PTX w) s = Ret s' \<and> cur s' = cur s \<and>
    kmem_inv (vk s') \<and> pgdir_ok (vk s') pgdir \<and> frame_addr x \<notin> allocated (vk s) \<and>
    allocated (vk s') = insert (frame_addr x) (allocated (vk s)) \<and>
    refcount (runs (vk s') x) = 1 \<and>
    refcount (runs (vk s') (frame_of f)) = refcount (runs (vk s) (frame_of f)) - 1 \<and>
    pt_pages (mem (vk s')) pgdir = pt_pages (mem (vk s)) pgdir \<and>
    (\<forall>v. pte_val (mem (vk s')) pgdir v = (if PGROUNDDOWN v = PGROUNDDOWN w
       then V2P (frame_addr x) OR PTE_FLAGS (pte_val (mem (vk s)) pgdir w) OR PTE_P OR PTE_W
       else pte_val (mem (vk s)) pgdir v)) \<and>
    (\<forall>q\<in>allocated (vk s) - pt_pages (mem (vk s)) pgdir. same_page (mem (vk s)) (mem (vk s')) q) \<and>
    (\<forall>j<4096. mem (vk s') (frame_addr x + j) = mem (vk s) (f + j))"
proof -
  let ?k = "vk s" and ?e = "pte_val (mem (vk s)) pgdir w" and ?p = "table (mem (vk s)) pgdir w + 4 * PTX w"
  have t: "has_table (mem ?k) pgdir w" using cow by (rule present_has_table)
  note E = entry_addr [OF ok t]
  from inv free obtain k1 where k1: "x < MAXPAGES" "frame_addr x \<notin> allocated ?k" "kalloc ?k = Ret (frame_addr x, k1)"
    "k1 = set_refs x 1 (?k\<lparr>freelist := run_next (runs ?k x)\<rparr>)" "kmem_inv k1"
    "allocated k1 = insert (frame_addr x) (allocated ?k)" "mem k1 = mem ?k"
    by (cases rule: kalloc_cases) auto
  let ?n = "frame_addr x"
  have fa: "frame_of f < MAXPAGES" "frame_addr (frame_of f) = f" using allocated_frame [OF f(2)] by auto
  have fx: "frame_of f \<noteq> x" using k1(2) f(2) fa by auto
  have nf: "?n \<noteq> f" using k1(2) f(2) by auto
  define m2 where "m2 = memmove (mem ?k) ?n f PGSIZE"
  have al1: "?n \<in> allocated k1" "f \<in> allocated k1" using k1(6) f(2) by auto
  have same2: "same_page (mem ?k) m2 q" if "page_aligned q" "q \<noteq> ?n" for q
    unfolding m2_def by (rule same_page_memmove [OF al1 nf that])
  have pt: "same_page (mem k1) m2 q" if "q \<in> pt_pages (mem k1) pgdir" for q
    using that k1(2,7) pt_pages_aligned [OF ok] pt_pages_allocated [OF ok] by (intro same2 [folded k1(7)]) auto
  have ok1: "pgdir_ok k1 pgdir" using k1 by (intro pgdir_ok_mono [OF ok]) auto
  note T = tables_frame [OF ok1 pt]
  let ?k2 = "k1\<lparr>mem := m2\<rparr>"
  have t2: "has_table (mem ?k2) pgdir w" "table m2 pgdir w = table (mem ?k) pgdir w"
  proof -
    have pg: "page_aligned pgdir" "same_page (mem k1) m2 pgdir" using pgdir_ok_aligned [OF ok] pt by (auto simp: pt_pages_def)
    show "has_table (mem ?k2) pgdir w" using same_page_has_table [OF pg(2,1)] t k1(7) by simp
    show "table m2 pgdir w = table (mem ?k) pgdir w" using same_page_table [OF pg(2,1)] k1(7) by simp
  qed
  let ?v = "V2P ?n OR PTE_FLAGS ?e OR PTE_P OR PTE_W"
  define m3 where "m3 = set_pte m2 pgdir w ?v"
  have inv2: "kmem_inv ?k2" using k1(5) by simp
  note L = set_pte_lemmas [OF T(2) t2(1), of ?v] and X = extends_set_pte [OF inv2 T(2) t2(1), of ?v]
  let ?k3 = "?k2\<lparr>mem := m3\<rparr>"
  have X3: "extends pgdir ?k2 ?k3" using X by (simp add: m3_def)
  let ?c = "refcount (runs ?k (frame_of f))"
  have c: "refcount (runs ?k3 (frame_of f)) = ?c" using fx by (simp add: k1(4))
  have c0: "?c \<noteq> 0" "?c - 1 \<noteq> 0" using shared by auto
  let ?k4 = "set_refs (frame_of f) (?c - 1) ?k3"
  have al3: "f \<in> allocated ?k3" using al1 by simp
  have inv3: "kmem_inv ?k3" using k1(5) by simp
  have dec: "refDec f ?k3 = Ret ?k4" "kmem_inv ?k4" using refDec_allocated [OF inv3 al3] c by simp_all
  have al4: "allocated ?k4 = insert ?n (allocated ?k)"
    using fa c0 al3 k1(6) f(2) by (simp add: allocated_set_refs insert_absorb)
  have run: "handle_cow_pagefault ?p s = Ret (s\<lparr>vk := ?k4\<rparr>)"
  proof -
    have st: "st ?p ?v (s\<lparr>vk := ?k2\<rparr>) = s\<lparr>vk := ?k3\<rparr>"
      by (simp add: st_def m3_def set_pte_def t2(2))
    have ff: "P2V (PTE_ADDR ?e) = f" by (simp add: f(1) upage_def)
    have gr: "getRefs f ?k = Ret ?c" by (rule getRefs_allocated [OF f(2)])
    have k: "on_kr kalloc s = Ret (?n, s\<lparr>vk := k1\<rparr>)" by (simp add: on_kr_def k1(3))
    have u: "(s\<lparr>vk := k1\<rparr>)\<lparr>vk := (vk (s\<lparr>vk := k1\<rparr>))\<lparr>mem := memmove (mem (vk (s\<lparr>vk := k1\<rparr>))) ?n f PGSIZE\<rparr>\<rparr>
        = s\<lparr>vk := ?k2\<rparr>" by (simp add: m2_def k1(7))
    have d: "on_k (refDec f) (s\<lparr>vk := ?k3\<rparr>) = Ret (s\<lparr>vk := ?k4\<rparr>)"
      using dec(1) by (simp add: on_k_def)
    show ?thesis
      unfolding handle_cow_pagefault_def Let_def E(2) ff gr bnd.simps k prod.case u st d
      using wr cow shared frame_addr_nonzero [OF k1(1)] E(1) by simp
  qed
  have pte: "pte_val m3 pgdir v = (if PGROUNDDOWN v = PGROUNDDOWN w then ?v else pte_val (mem ?k) pgdir v)" for v
    using L(4) T(1) by (simp add: m3_def k1(7))
  have same3: "same_page (mem ?k) m3 q" if "q \<in> allocated ?k - pt_pages (mem ?k) pgdir" for q
  proof -
    have q: "q \<in> allocated ?k2 - pt_pages (mem ?k2) pgdir" "page_aligned q" "q \<noteq> ?n"
      using that k1(2,6) T(3) k1(7) by (auto intro: allocated_page_aligned)
    then have "same_page m2 m3 q" using X3 by (simp add: extends_def)
    with same2 [OF q(2,3)] show ?thesis by (rule same_page_trans)
  qed
  have new: "m3 (?n + j) = mem ?k (f + j)" if "j < 4096" for j
  proof -
    have "?n \<in> allocated ?k2 - pt_pages (mem ?k2) pgdir"
      using al1 T(3) k1(2,7) pt_pages_allocated [OF ok] by auto
    then have "same_page m2 m3 ?n" using X3 by (simp add: extends_def)
    with that have "m3 (?n + j) = m2 (?n + j)" by (simp add: same_page_def)
    also have "\<dots> = mem ?k (f + j)" using that by (simp add: m2_def memmove_page [OF al1 nf])
    finally show ?thesis .
  qed
  have "pgdir_ok ?k3 pgdir" using X3 unfolding extends_def by blast
  then have pg4: "pgdir_ok ?k4 pgdir"
    by (rule pgdir_ok_mono) (simp_all only: al4 allocated_fields k1(6) order.refl effects_fields)
  have ptp: "pt_pages m3 pgdir = pt_pages (mem ?k) pgdir" using L(3) T(3) k1(7) by (simp add: m3_def)
  have r1: "refcount (runs ?k4 x) = 1" "refcount (runs ?k4 (frame_of f)) = ?c - 1"
    using fx by (simp_all add: k1(4))
  have m4: "mem ?k4 = m3" by simp
  show ?thesis
    using dec(2) pg4 al4 k1(2) pte same3 new ptp r1 m4
    by (intro exI [of _ "s\<lparr>vk := ?k4\<rparr>"] conjI run) (simp_all only: vst.simps, auto)
qed


lemma cow_entry_addr:
  assumes "page_aligned n"
  shows "PTE_ADDR (V2P n OR PTE_FLAGS e OR PTE_P OR PTE_W) = V2P n"
proof -
  have "(PTE_FLAGS e OR PTE_P OR PTE_W) AND NOT 0xFFF = 0"
    using PTE_FLAGS_small [of e] by (simp add: bit.conj_disj_distrib2)
  with assms show ?thesis by (intro PTE_ADDR_OR) auto
qed

lemma cow_fault_unshared:
  assumes inv: "kmem_inv (vk s)" and ok: "pgdir_ok (vk s) pgdir"
    and wr: "has (tf_err (p_tf (cur s))) FEC_WR" and cow: "has (pte_val (mem (vk s)) pgdir w) PTE_COW"
    and f: "f = upage (mem (vk s)) pgdir w" "f \<in> allocated (vk s)"
    and alone: "\<not> 1 < sint (refcount (runs (vk s) (frame_of f)))"
  shows "\<exists>s'. handle_cow_pagefault (table (mem (vk s)) pgdir w + 4 * PTX w) s = Ret s' \<and> cur s' = cur s \<and>
    extends pgdir (vk s) (vk s') \<and> allocated (vk s') = allocated (vk s) \<and>
    (\<forall>v. pte_val (mem (vk s')) pgdir v = (if PGROUNDDOWN v = PGROUNDDOWN w
       then (pte_val (mem (vk s)) pgdir w OR PTE_W) AND NOT PTE_COW else pte_val (mem (vk s)) pgdir v))"
proof -
  let ?e = "pte_val (mem (vk s)) pgdir w" and ?p = "table (mem (vk s)) pgdir w + 4 * PTX w"
  have t: "has_table (mem (vk s)) pgdir w" using cow by (rule present_has_table)
  note E = entry_addr [OF ok t]
  let ?s1 = "st ?p (?e OR PTE_W) s"
  have s1: "vk ?s1 = (vk s)\<lparr>mem := set_pte (mem (vk s)) pgdir w (?e OR PTE_W)\<rparr>"
    by (simp add: set_pte_def)
  have x1: "extends pgdir (vk s) (vk ?s1)" unfolding s1 by (rule extends_set_pte [OF inv ok t])
  have k1: "kmem_inv (vk ?s1)" "pgdir_ok (vk ?s1) pgdir" using x1 by (simp_all add: extends_def)
  note L1 = set_pte_lemmas [OF ok t, of "?e OR PTE_W"]
  have t1: "has_table (mem (vk ?s1)) pgdir w" "table (mem (vk ?s1)) pgdir w = table (mem (vk s)) pgdir w"
    using L1(1,2) t by (simp_all add: set_pte_def)
  have e1: "ld ?p ?s1 = ?e OR PTE_W" by (simp add: ld_def st_def)
  let ?s2 = "st ?p ((?e OR PTE_W) AND NOT PTE_COW) ?s1"
  have s2: "vk ?s2 = (vk ?s1)\<lparr>mem := set_pte (mem (vk ?s1)) pgdir w ((?e OR PTE_W) AND NOT PTE_COW)\<rparr>"
    unfolding set_pte_def t1(2) by simp
  have x2: "extends pgdir (vk ?s1) (vk ?s2)" unfolding s2 by (rule extends_set_pte [OF k1 t1(1)])
  have pte: "pte_val (mem (vk ?s2)) pgdir v = (if PGROUNDDOWN v = PGROUNDDOWN w
       then (?e OR PTE_W) AND NOT PTE_COW else pte_val (mem (vk s)) pgdir v)" for v
    using set_pte_lemmas(4) [OF k1(2) t1(1), of "(?e OR PTE_W) AND NOT PTE_COW" v] L1(4) [of v]
    unfolding s2 s1 by (simp split: if_splits)
  have ff: "P2V (PTE_ADDR ?e) = f" by (simp add: f(1) upage_def)
  have gr: "getRefs f (vk s) = Ret (refcount (runs (vk s) (frame_of f)))" by (rule getRefs_allocated [OF f(2)])
  have run: "handle_cow_pagefault ?p s = Ret ?s2"
    unfolding handle_cow_pagefault_def Let_def E(2) ff gr bnd.simps e1
    using wr cow alone E(1) by simp
  have "allocated (vk ?s2) = allocated (vk s)" by simp
  with run extends_trans [OF x1 x2] pte show ?thesis by (intro exI [of _ ?s2] conjI) (simp_all)
qed

section \<open>Properties: copy on write\<close>

text \<open>The pages a page directory maps are pages in use, none of them one of the page tables \<open>P\<close>.\<close>

definition maps_outside :: "kst \<Rightarrow> addr \<Rightarrow> addr set \<Rightarrow> bool" where
  "maps_outside k pgdir P \<longleftrightarrow>
     (\<forall>v. has (pte_val (mem k) pgdir v) PTE_P \<longrightarrow> upage (mem k) pgdir v \<in> allocated k - P)"



text \<open>
  Two processes that share one copy-on-write page: page directories at frames 1025 and 1028 with
  one page table each, the shared page at frame 1027, one free page.
\<close>

definition share_k :: "bmem \<Rightarrow> kst" where
  "share_k m = \<lparr>mem = m, kend = 0x80400000, kmem_locked = False, use_lock = True, freelist = Some 1030,
     runs = (\<lambda>i. \<lparr>run_next = None, refcount = (if i \<in> {1025, 1026, 1028, 1029} then 1 else if i = 1027 then 2 else 0)\<rparr>)\<rparr>"

definition share_m1 :: bmem where
  "share_m1 = set_pte (new_table_mem (\<lambda>_. 0) 0x80401000 0x1000 0x80402000) 0x80401000 0x1000 0x403405"

definition share_m :: bmem where
  "share_m = set_pte (new_table_mem share_m1 0x80404000 0x1000 0x80405000) 0x80404000 0x1000 0x403405"

lemma share_inv: "kmem_inv (share_k m)"
proof -
  have "free_frames (share_k m) [1030]"
    by (simp add: free_frames_def free_frame_def share_k_def frame_addr_def P2V_def)
  then show ?thesis by (auto simp: kmem_inv_def)
qed

lemma share_allocated: "allocated (share_k m) = {0x80401000, 0x80402000, 0x80403000, 0x80404000, 0x80405000}"
proof -
  have "{i. i < MAXPAGES \<and> refcount (runs (share_k m) i) \<noteq> 0} = {1025, 1026, 1027, 1028, 1029}"
    by (auto simp: share_k_def)
  then have "allocated (share_k m) = frame_addr ` {1025, 1026, 1027, 1028, 1029}"
    unfolding allocated_def image_Collect [symmetric] by simp
  then show ?thesis by (simp add: frame_addr_def P2V_def)
qed

text \<open>One page table and one entry added to an empty page directory.\<close>

lemma one_entry_space:
  assumes a: "page_aligned d" "page_aligned t" "t \<noteq> d" "d \<in> allocated (share_k m)" "t \<in> allocated (share_k m)"
    and empty: "\<And>w. \<not> has_table m d w"
    and m': "m' = set_pte (new_table_mem m d 0x1000 t) d 0x1000 e"
  shows "pgdir_ok (share_k m') d" and "pt_pages m' d = {d, t}"
    and "pte_val m' d w = (if PGROUNDDOWN w = 0x1000 then e else 0)"
    and "page_aligned q \<Longrightarrow> q \<noteq> d \<Longrightarrow> q \<noteq> t \<Longrightarrow> same_page m m' q"
proof -
  let ?m = "new_table_mem m d 0x1000 t"
  have d0: "PDX 0x1000 = 0" by (simp add: PDX_def)
  have h: "has_table ?m d w \<longleftrightarrow> PDX w = 0" and t: "PDX w = 0 \<Longrightarrow> table ?m d w = t" for w
    using new_has_table [OF a(1-3), of m "0x1000" w] new_table [OF a(1-3), of m "0x1000" w] empty d0 by simp_all
  have z: "pte_val ?m d w = 0" for w
  proof (cases "PDX w = 0")
    case True
    have "load32 ?m (t + 4 * PTX w) = load32 (memset m t 0 4096) (t + 4 * PTX w)"
      using same_page_store32 [OF a(1,2) a(3) [symmetric], of "PDX 0x1000" "memset m t 0 4096"] a
      by (simp add: new_table_mem_def same_page_entry)
    also have "\<dots> = 0" using entry_in_page [OF a(2) a(2), of "PTX w"] a by (simp add: load32_memset_page)
    finally show ?thesis using True h t by (simp add: pte_val_def)
  qed (simp add: pte_val_def h)
  have e: "mem (share_k x) = x" for x by (simp add: share_k_def)
  have al: "allocated (share_k ?m) = allocated (share_k m)" by (simp only: share_allocated)
  have ok: "pgdir_ok (share_k ?m) d"
    unfolding pgdir_ok_def e al h
  proof (intro conjI allI impI)
    fix v v' assume "PDX v = 0"
    with a t show "table ?m d v \<in> allocated (share_k m)" "table ?m d v \<noteq> d" by simp_all
    assume "PDX v' = 0"
    with \<open>PDX v = 0\<close> show "PDX v = PDX v'" by simp
  qed (rule a(4))
  have ht: "has_table (mem (share_k ?m)) d 0x1000" by (simp add: e h d0)
  note L = set_pte_lemmas [OF ok ht, of e, unfolded e]
  have "(share_k ?m)\<lparr>mem := m'\<rparr> = share_k m'" by (simp add: share_k_def)
  then show "pgdir_ok (share_k m') d"
    using extends_set_pte [OF share_inv ok ht, of e] unfolding m' e extends_def by metis
  have "pt_pages ?m d = {d, t}"
    unfolding pt_pages_def h using t t [OF d0, symmetric] d0 by blast
  then show "pt_pages m' d = {d, t}" using L(3) by (simp add: m')
  have "PGROUNDDOWN 0x1000 = 0x1000" by (simp add: PGROUNDDOWN_def)
  then show "pte_val m' d w = (if PGROUNDDOWN w = 0x1000 then e else 0)" using L(4) [of w] z by (simp add: m')
  show "same_page m m' q" if q: "page_aligned q" "q \<noteq> d" "q \<noteq> t"
  proof -
    have "same_page m ?m q" using a q by (intro new_same_page) auto
    moreover have "same_page ?m m' q" unfolding m' using q t [OF d0] by (intro set_pte_same_page) auto
    ultimately show ?thesis by (rule same_page_trans)
  qed
qed

definition share_s :: "unit vst" where
  "share_s = \<lparr>vk = share_k share_m, cur = blank_proc\<lparr>p_tf := zero_trapframe\<lparr>tf_err := 7\<rparr>\<rparr>, cr3 = 0x401000, sw = ()\<rparr>"

lemma share_spaces:
  "pgdir_ok (share_k share_m) 0x80401000" "pgdir_ok (share_k share_m) 0x80404000"
  "pt_pages share_m 0x80401000 = {0x80401000, 0x80402000}" "pt_pages share_m 0x80404000 = {0x80404000, 0x80405000}"
  "pte_val share_m 0x80401000 w = (if PGROUNDDOWN w = 0x1000 then 0x403405 else 0)"
  "pte_val share_m 0x80404000 w = (if PGROUNDDOWN w = 0x1000 then 0x403405 else 0)"
proof -
  have al: "page_aligned 0x80401000" "page_aligned 0x80402000" "page_aligned 0x80404000" "page_aligned 0x80405000"
    by (simp_all add: page_aligned_def)
  have z: "\<not> has_table (\<lambda>_. 0) d w" for d w by (simp add: has_table_def pde_val_def load32_def)
  note A = one_entry_space [OF al(1,2) _ _ _ z share_m1_def]
  have A: "pgdir_ok (share_k share_m1) 0x80401000" "pt_pages share_m1 0x80401000 = {0x80401000, 0x80402000}"
    "\<And>w. pte_val share_m1 0x80401000 w = (if PGROUNDDOWN w = 0x1000 then 0x403405 else 0)"
    "\<And>q. page_aligned q \<Longrightarrow> q \<noteq> 0x80401000 \<Longrightarrow> q \<noteq> 0x80402000 \<Longrightarrow> same_page (\<lambda>_. 0) share_m1 q"
    using A by (simp_all add: share_allocated)
  have zB: "\<not> has_table share_m1 0x80404000 w" for w
    using same_page_has_table [OF A(4) al(3)] al z by simp
  note B = one_entry_space [OF al(3,4) _ _ _ zB share_m_def]
  have B: "pgdir_ok (share_k share_m) 0x80404000" "pt_pages share_m 0x80404000 = {0x80404000, 0x80405000}"
    "\<And>w. pte_val share_m 0x80404000 w = (if PGROUNDDOWN w = 0x1000 then 0x403405 else 0)"
    "\<And>q. page_aligned q \<Longrightarrow> q \<noteq> 0x80404000 \<Longrightarrow> q \<noteq> 0x80405000 \<Longrightarrow> same_page share_m1 share_m q"
    using B by (simp_all add: share_allocated)
  have e: "mem (share_k x) = x" "(share_k x)\<lparr>mem := y\<rparr> = share_k y" for x y by (simp_all add: share_k_def)
  have s: "same_page (mem (share_k share_m1)) share_m q" if q: "q \<in> pt_pages (mem (share_k share_m1)) 0x80401000" for q
  proof -
    have "q \<in> {0x80401000, 0x80402000}" using q A(2) by (simp only: e)
    then show ?thesis unfolding e using al by (intro B(4)) auto
  qed
  note T = tables_frame [OF A(1) s]
  show "pgdir_ok (share_k share_m) 0x80401000" using T(2) by (simp add: e)
  show "pgdir_ok (share_k share_m) 0x80404000" by (rule B(1))
  show "pt_pages share_m 0x80401000 = {0x80401000, 0x80402000}" using T(3) A(2) by (simp add: e)
  show "pt_pages share_m 0x80404000 = {0x80404000, 0x80405000}" by (rule B(2))
  show "pte_val share_m 0x80401000 w = (if PGROUNDDOWN w = 0x1000 then 0x403405 else 0)" using T(1) A(3) by (simp add: e)
  show "pte_val share_m 0x80404000 w = (if PGROUNDDOWN w = 0x1000 then 0x403405 else 0)" by (rule B(3))
qed

lemma share_upage: "PGROUNDDOWN w = 0x1000 \<Longrightarrow> upage share_m 0x80401000 w = 0x80403000"
  "PGROUNDDOWN w = 0x1000 \<Longrightarrow> upage share_m 0x80404000 w = 0x80403000"
  by (simp_all add: upage_def share_spaces PTE_ADDR_def P2V_def)


end
