(* ===== verification/File.thy ===== *)
theory File
  imports Fs Pipe Uvm
begin

text \<open>
  Open files: the file table of \<^verbatim>\<open>file.c\<close>, with the allocation and closing of pipes of \<^verbatim>\<open>pipe.c\<close>
  and the swap files of \<^verbatim>\<open>fs.c\<close>. The state of the file system is a part of the kernel state of
  \<^verbatim>\<open>Proc_Defs\<close>; an operation of the file system runs for the process \<open>myproc()\<close>.
\<close>

section \<open>The file table\<close>

datatype fd_type = FD_NONE | FD_PIPE | FD_INODE

text \<open>A file's inode and its pipe, a page, are null where they were never set.\<close>

record file_entry =
  f_type :: fd_type
  f_ref :: int
  f_readable :: bool
  f_writable :: bool
  f_pipe :: addr
  f_ip :: "nat option"
  f_off :: u32

definition NFILE :: nat where "NFILE = 100"
definition NOFILE :: nat where "NOFILE = 16"

definition zero_file :: file_entry where
  "zero_file = \<lparr>f_type = FD_NONE, f_ref = 0, f_readable = False, f_writable = False, f_pipe = 0, f_ip = None, f_off = 0\<rparr>"

record files = fs +
  ftable :: "file_entry list"
  pipes :: "addr \<Rightarrow> pipe"

text \<open>An operation of the file system, on behalf of the process that runs.\<close>

definition fs_state :: "'a files_scheme vst \<Rightarrow> 'a files_scheme" where
  "fs_state s = (sw s)\<lparr>my_pid := p_pid (cur s), my_cwd := p_cwd (cur s), my_killed := p_killed (cur s)\<rparr>"

definition on_fs :: "('a files_scheme \<Rightarrow> 'a files_scheme outcome) \<Rightarrow> 'a files_scheme vst \<Rightarrow> 'a files_scheme vst outcome" where
  "on_fs f s = bnd (f (fs_state s)) (\<lambda>x. Ret (s\<lparr>sw := x\<rparr>))"

definition on_fsr :: "('a files_scheme \<Rightarrow> ('r \<times> 'a files_scheme) outcome) \<Rightarrow> 'a files_scheme vst \<Rightarrow> ('r \<times> 'a files_scheme vst) outcome" where
  "on_fsr f s = bnd (f (fs_state s)) (\<lambda>(r, x). Ret (r, s\<lparr>sw := x\<rparr>))"

definition the_file :: "nat \<Rightarrow> 'a files_scheme vst \<Rightarrow> file_entry" where
  "the_file f s = ftable (sw s) ! f"

definition upd_file :: "nat \<Rightarrow> (file_entry \<Rightarrow> file_entry) \<Rightarrow> 'a files_scheme vst \<Rightarrow> 'a files_scheme vst" where
  "upd_file f g s = s\<lparr>sw := (sw s)\<lparr>ftable := (ftable (sw s))[f := g (ftable (sw s) ! f)]\<rparr>\<rparr>"

definition upd_pipe :: "addr \<Rightarrow> (pipe \<Rightarrow> pipe) \<Rightarrow> 'a files_scheme vst \<Rightarrow> 'a files_scheme vst" where
  "upd_pipe p g s = s\<lparr>sw := (sw s)\<lparr>pipes := (pipes (sw s))(p := g (pipes (sw s) p))\<rparr>\<rparr>"

definition filealloc :: "'a files_scheme vst \<Rightarrow> nat option \<times> 'a files_scheme vst" where
  "filealloc s =
     (case first_index (\<lambda>f. f_ref f = 0) (ftable (sw s)) of
        Some f \<Rightarrow> (Some f, upd_file f (\<lambda>x. x\<lparr>f_ref := 1\<rparr>) s)
      | None \<Rightarrow> (None, s))"

definition filedup :: "nat \<Rightarrow> 'a files_scheme vst \<Rightarrow> (nat \<times> 'a files_scheme vst) outcome" where
  "filedup f s =
     (if f_ref (the_file f s) < 1 then Panic ''filedup''
      else Ret (f, upd_file f (\<lambda>x. x\<lparr>f_ref := f_ref x + 1\<rparr>) s))"

definition pipeclose :: "addr \<Rightarrow> bool \<Rightarrow> 'a files_scheme vst \<Rightarrow> 'a files_scheme vst outcome" where
  "pipeclose p writable s =
     (let (q, unused) = close_end writable (pipes (sw s) p); s = upd_pipe p (\<lambda>_. q) s
      in if unused then on_k (kfree p) s else Ret s)"

definition iput_op :: "nat option \<Rightarrow> 'a files_scheme \<Rightarrow> 'a files_scheme outcome" where
  "iput_op ipo s = (case ipo of None \<Rightarrow> Fault | Some ip \<Rightarrow> bnd (begin_op s) (\<lambda>s. bnd (iput ip s) end_op))"

definition fileclose :: "nat \<Rightarrow> 'a files_scheme vst \<Rightarrow> 'a files_scheme vst outcome" where
  "fileclose f s =
     (if f_ref (the_file f s) < 1 then Panic ''fileclose''
      else if f_ref (the_file f s) - 1 > 0 then Ret (upd_file f (\<lambda>x. x\<lparr>f_ref := f_ref x - 1\<rparr>) s)
      else
        let ff = the_file f s; s = upd_file f (\<lambda>x. x\<lparr>f_ref := 0, f_type := FD_NONE\<rparr>) s in
        (case f_type ff of
           FD_PIPE \<Rightarrow> pipeclose (f_pipe ff) (f_writable ff) s
         | FD_INODE \<Rightarrow> on_fs (iput_op (f_ip ff)) s
         | FD_NONE \<Rightarrow> Ret s))"

definition filestat :: "nat \<Rightarrow> 'a files_scheme vst \<Rightarrow> (stat option \<times> 'a files_scheme vst) outcome" where
  "filestat f s =
     (if f_type (the_file f s) = FD_INODE
      then
        case f_ip (the_file f s) of
          None \<Rightarrow> Panic ''ilock''
        | Some ip \<Rightarrow>
            bnd (on_fs (ilock (Some ip)) s) (\<lambda>s.
            let x = stati ip (sw s) in
            bnd (on_fs (iunlock (Some ip)) s) (\<lambda>s. Ret (Some x, s)))
      else Ret (None, s))"

text \<open>\<open>fileread\<close> returns the number of bytes, or -1, and the bytes it stores at the destination.\<close>

definition fileread :: "'a files_scheme devsw \<Rightarrow> nat \<Rightarrow> int \<Rightarrow> 'a files_scheme vst \<Rightarrow> (int \<times> u8 list \<times> 'a files_scheme vst) outcome" where
  "fileread dv f n s =
     (let x = the_file f s in
      if \<not> f_readable x then Ret (-1, [], s)
      else
        case f_type x of
          FD_PIPE \<Rightarrow>
            bnd (piperead (p_killed (cur s)) (nat n) (pipes (sw s) (f_pipe x))) (\<lambda>(r, bytes, q).
            Ret (r, bytes, upd_pipe (f_pipe x) (\<lambda>_. q) s))
        | FD_INODE \<Rightarrow>
            (case f_ip x of
               None \<Rightarrow> Panic ''ilock''
             | Some ip \<Rightarrow>
                 bnd (on_fs (ilock (Some ip)) s) (\<lambda>s.
                 bnd (on_fsr (\<lambda>t. bnd (readi dv ip (f_off x) (of_int n) t) (\<lambda>(r, bytes, t). Ret ((r, bytes), t))) s) (\<lambda>((r, bytes), s).
                 let s = (if r > 0 then upd_file f (\<lambda>x. x\<lparr>f_off := f_off x + of_int r\<rparr>) s else s) in
                 bnd (on_fs (iunlock (Some ip)) s) (\<lambda>s. Ret (r, bytes, s)))))
        | FD_NONE \<Rightarrow> Panic ''fileread'')"

text \<open>The most bytes that one transaction of \<open>filewrite\<close> writes.\<close>

definition max_write :: nat where
  "max_write = nat ((MAXOPBLOCKS - 1 - 1 - 2) div 2) * 512"

definition filewrite_turn :: "'a files_scheme devsw \<Rightarrow> nat \<Rightarrow> nat \<Rightarrow> u8 list \<Rightarrow> 'a files_scheme vst \<Rightarrow> (int \<times> 'a files_scheme vst) outcome" where
  "filewrite_turn dv f ip bytes s =
     bnd (on_fs begin_op s) (\<lambda>s.
     bnd (on_fs (ilock (Some ip)) s) (\<lambda>s.
     bnd (on_fsr (writei dv ip bytes (f_off (the_file f s))) s) (\<lambda>(r, s).
     let s = (if r > 0 then upd_file f (\<lambda>x. x\<lparr>f_off := f_off x + of_int r\<rparr>) s else s) in
     bnd (on_fs (iunlock (Some ip)) s) (\<lambda>s.
     bnd (on_fs end_op s) (\<lambda>s. Ret (r, s))))))"

text \<open>The loop over the bytes that are left, which says whether all were written.\<close>

function filewrite_loop :: "'a files_scheme devsw \<Rightarrow> nat \<Rightarrow> nat \<Rightarrow> u8 list \<Rightarrow> 'a files_scheme vst \<Rightarrow> (bool \<times> 'a files_scheme vst) outcome" where
  "filewrite_loop dv f ip src s =
     (if src = [] then Ret (True, s)
      else
        let n1 = min (length src) max_write in
        bnd (filewrite_turn dv f ip (take n1 src) s) (\<lambda>(r, s).
        if r < 0 then Ret (False, s)
        else if r \<noteq> int n1 then Panic ''short filewrite''
        else filewrite_loop dv f ip (drop n1 src) s))"
  by pat_completeness auto
termination
  by (relation "measure (\<lambda>(dv, f, ip, src, s). length src)") (auto simp: max_write_def MAXOPBLOCKS_def)

declare filewrite_loop.simps [simp del]

definition filewrite :: "'a files_scheme devsw \<Rightarrow> nat \<Rightarrow> u8 list \<Rightarrow> 'a files_scheme vst \<Rightarrow> (int \<times> 'a files_scheme vst) outcome" where
  "filewrite dv f src s =
     (let x = the_file f s in
      if \<not> f_writable x then Ret (-1, s)
      else
        case f_type x of
          FD_PIPE \<Rightarrow>
            bnd (pipewrite (p_killed (cur s)) src (pipes (sw s) (f_pipe x))) (\<lambda>(r, q).
            Ret (r, upd_pipe (f_pipe x) (\<lambda>_. q) s))
        | FD_INODE \<Rightarrow>
            (case f_ip x of
               None \<Rightarrow> if src = [] then Ret (0, s) else Panic ''ilock''
             | Some ip \<Rightarrow>
                 bnd (filewrite_loop dv f ip src s) (\<lambda>(all, s). Ret (if all then int (length src) else -1, s)))
        | FD_NONE \<Rightarrow> Panic ''filewrite'')"

section \<open>Allocating pipes\<close>

definition close_opt :: "nat option \<Rightarrow> 'a files_scheme vst \<Rightarrow> 'a files_scheme vst outcome" where
  "close_opt f s = (case f of None \<Rightarrow> Ret s | Some f \<Rightarrow> fileclose f s)"

text \<open>The label \<open>bad\<close>, which is only reached with no page allocated.\<close>

definition pipealloc_bad :: "nat option \<Rightarrow> nat option \<Rightarrow> 'a files_scheme vst \<Rightarrow> ((nat \<times> nat) option \<times> 'a files_scheme vst) outcome" where
  "pipealloc_bad f0 f1 s = bnd (close_opt f0 s) (\<lambda>s. bnd (close_opt f1 s) (\<lambda>s. Ret (None, s)))"

definition pipealloc :: "'a files_scheme vst \<Rightarrow> ((nat \<times> nat) option \<times> 'a files_scheme vst) outcome" where
  "pipealloc s =
     (case filealloc s of
        (None, s) \<Rightarrow> pipealloc_bad None None s
      | (Some f0, s) \<Rightarrow>
          (case filealloc s of
             (None, s) \<Rightarrow> pipealloc_bad (Some f0) None s
           | (Some f1, s) \<Rightarrow>
               bnd (on_kr kalloc s) (\<lambda>(p, s).
               if p = 0 then pipealloc_bad (Some f0) (Some f1) s
               else
                 let s = upd_pipe p new_pipe s;
                     s = upd_file f0 (\<lambda>x. x\<lparr>f_type := FD_PIPE, f_readable := True, f_writable := False, f_pipe := p\<rparr>) s;
                     s = upd_file f1 (\<lambda>x. x\<lparr>f_type := FD_PIPE, f_readable := False, f_writable := True, f_pipe := p\<rparr>) s
                 in Ret (Some (f0, f1), s))))"

section \<open>Swap files\<close>

text \<open>
  The swap file of a process is a file of the file table that no descriptor refers to. A write or a
  read first sets its offset. A process without one would follow a null pointer.
\<close>

definition createSwapFile :: "'a files_scheme devsw \<Rightarrow> int \<Rightarrow> 'a files_scheme vst \<Rightarrow> (nat \<times> 'a files_scheme vst) outcome" where
  "createSwapFile dv pid s =
     bnd (swap_path pid) (\<lambda>path.
     bnd (on_fs begin_op s) (\<lambda>s.
     bnd (on_fsr (create dv path T_FILE 0 0) s) (\<lambda>(ipo, s).
     bnd (on_fs (iunlock ipo) s) (\<lambda>s.
     case filealloc s of
       (None, s) \<Rightarrow> Panic ''no slot for files on /store''
     | (Some f, s) \<Rightarrow>
         let s = upd_file f (\<lambda>x. x\<lparr>f_ip := ipo, f_type := FD_INODE, f_off := 0, f_readable := True, f_writable := True\<rparr>) s
         in bnd (on_fs end_op s) (\<lambda>s. Ret (f, s))))))"

definition removeSwapFile :: "'a files_scheme devsw \<Rightarrow> int \<Rightarrow> nat option \<Rightarrow> 'a files_scheme vst \<Rightarrow> (int \<times> 'a files_scheme vst) outcome" where
  "removeSwapFile dv pid swapFile s =
     bnd (swap_path pid) (\<lambda>path.
     case swapFile of
       None \<Rightarrow> Ret (-1, s)
     | Some f \<Rightarrow> bnd (fileclose f s) (\<lambda>s. on_fsr (unlink_path dv path) s))"

definition writeToSwapFile :: "'a files_scheme devsw \<Rightarrow> nat option \<Rightarrow> u8 list \<Rightarrow> u32 \<Rightarrow> 'a files_scheme vst \<Rightarrow> (int \<times> 'a files_scheme vst) outcome" where
  "writeToSwapFile dv swapFile buffer placeOnFile s =
     (case swapFile of
        None \<Rightarrow> Fault
      | Some f \<Rightarrow> filewrite dv f buffer (upd_file f (\<lambda>x. x\<lparr>f_off := placeOnFile\<rparr>) s))"

definition readFromSwapFile :: "'a files_scheme devsw \<Rightarrow> nat option \<Rightarrow> u32 \<Rightarrow> u32 \<Rightarrow> 'a files_scheme vst \<Rightarrow> (int \<times> u8 list \<times> 'a files_scheme vst) outcome" where
  "readFromSwapFile dv swapFile placeOnFile sz s =
     (case swapFile of
        None \<Rightarrow> Fault
      | Some f \<Rightarrow> fileread dv f (sint sz) (upd_file f (\<lambda>x. x\<lparr>f_off := placeOnFile\<rparr>) s))"

end
