(* ===== verification/Swap.thy ===== *)
theory Swap
  imports File
begin

text \<open>
  The part of \<^verbatim>\<open>vm.c\<close> that reads and writes files: \<open>loaduvm\<close>, which loads a program, and the demand
  paging of \<open>allocuvm\<close> and \<open>pagefault\<close>, which moves pages between the memory and the swap file of
  the process. The blocks of the swap file that are free are a linked list of nodes, each
  in a page of its own.
\<close>

unbundle bit_operations_syntax

text \<open>The static array \<open>buffer\<close> that a page is read into.\<close>

record paging = files +
  vm_buffer :: "u8 list"

section \<open>Loading a program\<close>

definition loaduvm_turn :: "'a paging_scheme devsw \<Rightarrow> addr \<Rightarrow> addr \<Rightarrow> nat \<Rightarrow> u32 \<Rightarrow> u32 \<Rightarrow> u32 \<Rightarrow> 'a paging_scheme vst \<Rightarrow> (bool \<times> 'a paging_scheme vst) outcome" where
  "loaduvm_turn dv pgdir addr ip offset sz i s =
     bnd (walk pgdir (addr + i) s) (\<lambda>pte.
     if pte = 0 then Panic ''loaduvm: address should exist''
     else
       let pa = PTE_ADDR (ld pte s); n = (if sz - i < PGSIZE then sz - i else PGSIZE) in
       bnd (on_fsr (\<lambda>t. bnd (readi dv ip (offset + i) n t) (\<lambda>(r, bytes, t). Ret ((r, bytes), t))) s) (\<lambda>((r, bytes), s).
       let s = s\<lparr>vk := (vk s)\<lparr>mem := put_bytes (mem (vk s)) (P2V pa) bytes\<rparr>\<rparr> in
       Ret (r = uint n, s)))"

function loaduvm_loop :: "'a paging_scheme devsw \<Rightarrow> addr \<Rightarrow> addr \<Rightarrow> nat \<Rightarrow> u32 \<Rightarrow> u32 \<Rightarrow> u32 \<Rightarrow> 'a paging_scheme vst \<Rightarrow> (int \<times> 'a paging_scheme vst) outcome" where
  "loaduvm_loop dv pgdir addr ip offset sz i s =
     (if \<not> i < sz then Ret (0, s)
      else
        bnd (loaduvm_turn dv pgdir addr ip offset sz i s) (\<lambda>(ok, s).
        if \<not> ok then Ret (-1, s)
        else if i < i + PGSIZE then loaduvm_loop dv pgdir addr ip offset sz (i + PGSIZE) s else Hang))"
  by pat_completeness auto
termination
  by (relation "measure (\<lambda>(dv, pgdir, addr, ip, offset, sz, i, s). unat sz - unat i)") (auto simp: word_less_nat_alt)

declare loaduvm_loop.simps [simp del]

definition loaduvm :: "'a paging_scheme devsw \<Rightarrow> addr \<Rightarrow> addr \<Rightarrow> nat \<Rightarrow> u32 \<Rightarrow> u32 \<Rightarrow> 'a paging_scheme vst \<Rightarrow> (int \<times> 'a paging_scheme vst) outcome" where
  "loaduvm dv pgdir addr ip offset sz s =
     (if addr mod PGSIZE \<noteq> 0 then Panic ''loaduvm: addr must be page aligned''
      else loaduvm_loop dv pgdir addr ip offset sz 0 s)"

section \<open>The free blocks of the swap file\<close>

definition fb_off :: "addr \<Rightarrow> addr" where "fb_off n = n"
definition fb_next :: "addr \<Rightarrow> addr" where "fb_next n = n + 4"
definition fb_prev :: "addr \<Rightarrow> addr" where "fb_prev n = n + 8"

text \<open>Taking the offset of the block at the head; its node is not freed.\<close>

definition take_block :: "'f vst \<Rightarrow> (u32 \<times> 'f vst) outcome" where
  "take_block s =
     bnd (get_field fb_off (free_head (cur s)) s) (\<lambda>off.
     bnd (get_field fb_next (free_head (cur s)) s) (\<lambda>nxt.
     if nxt = 0 then Ret (off, upd_proc (\<lambda>p. p\<lparr>free_tail := 0, free_head := 0\<rparr>) s)
     else Ret (off, upd_proc (\<lambda>p. p\<lparr>free_head := nxt\<rparr>) s)))"

text \<open>A new node at the tail; the result of \<open>kalloc\<close> is used unchecked.\<close>

definition give_block :: "u32 \<Rightarrow> 'f vst \<Rightarrow> 'f vst outcome" where
  "give_block off s =
     bnd (on_kr kalloc s) (\<lambda>(new_block, s).
     bnd (set_field fb_off new_block off s) (\<lambda>s.
     bnd (set_field fb_next new_block 0 s) (\<lambda>s.
     bnd (set_field fb_prev new_block (free_tail (cur s)) s) (\<lambda>s.
     bnd (if free_tail (cur s) \<noteq> 0 then set_field fb_next (free_tail (cur s)) new_block s
          else Ret (upd_proc (\<lambda>p. p\<lparr>free_head := new_block\<rparr>) s)) (\<lambda>s.
     Ret (upd_proc (\<lambda>p. p\<lparr>free_tail := new_block\<rparr>) s))))))"

section \<open>Writing a page out\<close>

text \<open>The bytes of the user page at \<open>va\<close>, read through the page table in use.\<close>

definition user_bytes :: "addr \<Rightarrow> 'f vst \<Rightarrow> u8 list outcome" where
  "user_bytes va s = bnd (mmu_page va s) (\<lambda>page. Ret (page_bytes (mem (vk s)) page))"

text \<open>
  The page \<open>ramPages[i]\<close> is not present any more: its frame is given up and its entry marked paged
  out. \<open>msg\<close> is the panic of the caller when it is not present to begin with.
\<close>

definition unmap_evicted :: "string \<Rightarrow> addr \<Rightarrow> addr \<Rightarrow> 'f vst \<Rightarrow> 'f vst outcome" where
  "unmap_evicted msg pgdir va s =
     bnd (walk pgdir va s) (\<lambda>pte.
     if pte = 0 then Fault
     else if \<not> has (ld pte s) PTE_P then Panic msg
     else
       bnd (on_k (unref (P2V (PTE_ADDR (ld pte s)))) s) (\<lambda>s.
       let s = st pte (ld pte s AND 0xFFF) s;
           s = st pte (ld pte s OR PTE_PG) s
       in Ret (st pte (ld pte s AND NOT PTE_P) s)))"

definition allocuvm_noswap :: "selection \<Rightarrow> addr \<Rightarrow> addr \<Rightarrow> 'f vst \<Rightarrow> 'f vst outcome" where
  "allocuvm_noswap sel pgdir va s =
     (let n = num_ram (cur s) in
      if n < 0 then Fault
      else
        bnd (set_ram_page (nat n) (\<lambda>g. g\<lparr>pg_isused := True, pg_pgdir := pgdir, pg_swap_offset := -1, pg_virt_addr := va\<rparr>) s) (\<lambda>s.
        bnd (update_selectionfiled_allocuvm sel (nat n) s) (\<lambda>s.
        Ret (upd_proc (\<lambda>p. p\<lparr>num_ram := num_ram p + 1\<rparr>) s))))"

definition allocuvm_withswap :: "'a paging_scheme devsw \<Rightarrow> selection \<Rightarrow> addr \<Rightarrow> addr \<Rightarrow> 'a paging_scheme vst \<Rightarrow> 'a paging_scheme vst outcome" where
  "allocuvm_withswap dv sel pgdir va s =
     (if num_swap (cur s) \<ge> int MAX_PSYC_PAGES then Panic ''page limit exceeded''
      else
        bnd (indexToEvict sel s) (\<lambda>(evicted_ind, s).
        bnd (ram_page evicted_ind s) (\<lambda>evicted_page.
        bnd (take_block s) (\<lambda>(swap_offset, s).
        bnd (user_bytes (pg_virt_addr evicted_page) s) (\<lambda>bytes.
        bnd (writeToSwapFile dv (p_swapFile (cur s)) bytes swap_offset s) (\<lambda>(r, s).
        if r < 0 then Panic ''allocuvm: writeToSwapFile''
        else if num_swap (cur s) < 0 then Fault
        else
          bnd (set_swap_page (nat (num_swap (cur s))) (\<lambda>g. g\<lparr>pg_isused := True, pg_virt_addr := pg_virt_addr evicted_page,
                 pg_pgdir := pg_pgdir evicted_page, pg_swap_offset := swap_offset\<rparr>) s) (\<lambda>s.
          let s = lcr3 (V2P (pg_pgdir evicted_page)) s;
              s = upd_proc (\<lambda>p. p\<lparr>num_swap := num_swap p + 1\<rparr>) s
          in bnd (unmap_evicted ''allocuvm: swap: ram page not present'' (pg_pgdir evicted_page) (pg_virt_addr evicted_page) s) (\<lambda>s.
             bnd (set_ram_page evicted_ind (\<lambda>g. g\<lparr>pg_isused := True, pg_pgdir := pgdir, pg_swap_offset := -1, pg_virt_addr := va\<rparr>) s) (\<lambda>s.
             update_selectionfiled_allocuvm sel evicted_ind s)))))))))"

definition allocuvm_paging :: "'a paging_scheme devsw \<Rightarrow> selection \<Rightarrow> addr \<Rightarrow> addr \<Rightarrow> 'a paging_scheme vst \<Rightarrow> 'a paging_scheme vst outcome" where
  "allocuvm_paging dv sel pgdir va s =
     (if sel = NONE then allocuvm_noswap sel pgdir va s
      else if num_ram (cur s) < int MAX_PSYC_PAGES then allocuvm_noswap sel pgdir va s
      else allocuvm_withswap dv sel pgdir va s)"

text \<open>One turn of the loop of \<open>allocuvm\<close>, which is false where the code returns 0.\<close>

definition allocuvm_turn :: "'a paging_scheme devsw \<Rightarrow> selection \<Rightarrow> addr \<Rightarrow> u32 \<Rightarrow> u32 \<Rightarrow> addr \<Rightarrow> 'a paging_scheme vst \<Rightarrow> (bool \<times> 'a paging_scheme vst) outcome" where
  "allocuvm_turn dv sel pgdir oldsz newsz a s =
     bnd (on_kr kalloc s) (\<lambda>(page, s).
     if page = 0 then bnd (deallocuvm pgdir newsz oldsz s) (\<lambda>(_, s). Ret (False, s))
     else
       let s = s\<lparr>vk := (vk s)\<lparr>mem := memset (mem (vk s)) page 0 PGSIZE\<rparr>\<rparr> in
       bnd (on_kr (mappages pgdir a PGSIZE (V2P page) (PTE_W OR PTE_U)) s) (\<lambda>(r, s).
       if r < 0
       then bnd (deallocuvm pgdir newsz oldsz s) (\<lambda>(_, s). bnd (on_k (kfree page) s) (\<lambda>s. Ret (False, s)))
       else if p_pid (cur s) > 2 then bnd (allocuvm_paging dv sel pgdir a s) (\<lambda>s. Ret (True, s))
       else Ret (True, s)))"

function allocuvm_loop :: "'a paging_scheme devsw \<Rightarrow> selection \<Rightarrow> addr \<Rightarrow> u32 \<Rightarrow> u32 \<Rightarrow> addr \<Rightarrow> 'a paging_scheme vst \<Rightarrow> (u32 \<times> 'a paging_scheme vst) outcome" where
  "allocuvm_loop dv sel pgdir oldsz newsz a s =
     (if \<not> a < newsz then Ret (newsz, s)
      else
        bnd (allocuvm_turn dv sel pgdir oldsz newsz a s) (\<lambda>(ok, s).
        if \<not> ok then Ret (0, s)
        else if a < a + PGSIZE then allocuvm_loop dv sel pgdir oldsz newsz (a + PGSIZE) s else Hang))"
  by pat_completeness auto
termination
  by (relation "measure (\<lambda>(dv, sel, pgdir, oldsz, newsz, a, s). unat newsz - unat a)") (auto simp: word_less_nat_alt)

declare allocuvm_loop.simps [simp del]

definition allocuvm :: "'a paging_scheme devsw \<Rightarrow> selection \<Rightarrow> addr \<Rightarrow> u32 \<Rightarrow> u32 \<Rightarrow> 'a paging_scheme vst \<Rightarrow> (u32 \<times> 'a paging_scheme vst) outcome" where
  "allocuvm dv sel pgdir oldsz newsz s =
     (if newsz \<ge> KERNBASE then Ret (0, s)
      else if newsz < oldsz then Ret (oldsz, s)
      else allocuvm_loop dv sel pgdir oldsz newsz (PGROUNDUP oldsz) s)"

section \<open>Page faults\<close>

text \<open>Reading a page into \<open>buffer\<close>: a short read leaves the rest of it.\<close>

definition read_buffer :: "'a paging_scheme devsw \<Rightarrow> u32 \<Rightarrow> 'a paging_scheme vst \<Rightarrow> 'a paging_scheme vst outcome" where
  "read_buffer dv off s =
     bnd (readFromSwapFile dv (p_swapFile (cur s)) off PGSIZE s) (\<lambda>(r, bytes, s).
     if r < 0 then Panic ''allocuvm: readFromSwapFile1''
     else Ret (s\<lparr>sw := (sw s)\<lparr>vm_buffer := bytes @ drop (length bytes) (vm_buffer (sw s))\<rparr>\<rparr>))"

text \<open>The faulting page takes the place of a resident one; \<open>index\<close> is its entry of \<open>swappedPages\<close>.\<close>

definition pagein_evict :: "'a paging_scheme devsw \<Rightarrow> selection \<Rightarrow> addr \<Rightarrow> nat \<Rightarrow> 'a paging_scheme vst \<Rightarrow> 'a paging_scheme vst outcome" where
  "pagein_evict dv sel start_page index s =
     bnd (indexToEvict sel s) (\<lambda>(evicted_ind, s).
     bnd (ram_page evicted_ind s) (\<lambda>evicted_page.
     bnd (take_block s) (\<lambda>(swap_offset, s).
     bnd (user_bytes (pg_virt_addr evicted_page) s) (\<lambda>bytes.
     bnd (writeToSwapFile dv (p_swapFile (cur s)) bytes swap_offset s) (\<lambda>(r, s).
     if r < 0 then Panic ''allocuvm: writeToSwapFile''
     else
       bnd (set_swap_page index (\<lambda>g. g\<lparr>pg_virt_addr := pg_virt_addr evicted_page, pg_pgdir := pg_pgdir evicted_page,
              pg_isused := True, pg_swap_offset := swap_offset\<rparr>) s) (\<lambda>s.
       bnd (unmap_evicted ''pagefault: ram page is not present'' (p_pgdir (cur s)) (pg_virt_addr evicted_page) s) (\<lambda>s.
       bnd (set_ram_page evicted_ind (\<lambda>g. g\<lparr>pg_virt_addr := start_page\<rparr>) s) (\<lambda>s.
       bnd (update_selectionfiled_pagefault sel evicted_ind s) (\<lambda>s.
       Ret (lcr3 (V2P (p_pgdir (cur s))) s))))))))))"

definition pagein_space :: "selection \<Rightarrow> addr \<Rightarrow> 'f vst \<Rightarrow> 'f vst outcome" where
  "pagein_space sel start_page s =
     (let new_indx = getNextFreeRamIndex (cur s) in
      if new_indx < 0 then Fault
      else
        bnd (set_ram_page (nat new_indx) (\<lambda>g. g\<lparr>pg_virt_addr := start_page, pg_isused := True,
               pg_pgdir := p_pgdir (cur s), pg_swap_offset := -1\<rparr>) s) (\<lambda>s.
        bnd (update_selectionfiled_pagefault sel (nat new_indx) s) (\<lambda>s.
        Ret (upd_proc (\<lambda>p. p\<lparr>num_ram := num_ram p + 1, num_swap := num_swap p - 1\<rparr>) s))))"

text \<open>The new frame's entry; the frame is used unchecked.\<close>

definition pagein_map :: "addr \<Rightarrow> 'f vst \<Rightarrow> 'f vst outcome" where
  "pagein_map pte s =
     bnd (on_kr kalloc s) (\<lambda>(new_page, s).
     if new_page = 0 then Fault
     else
       let s = st pte (ld pte s OR (PTE_P OR PTE_W OR PTE_U)) s;
           s = st pte (ld pte s AND NOT PTE_PG) s;
           s = st pte (ld pte s AND 0xFFF) s
       in Ret (st pte (ld pte s OR V2P new_page) s))"

definition handle_pagedout :: "'a paging_scheme devsw \<Rightarrow> selection \<Rightarrow> addr \<Rightarrow> addr \<Rightarrow> 'a paging_scheme vst \<Rightarrow> 'a paging_scheme vst outcome" where
  "handle_pagedout dv sel start_page pte s =
     bnd (pagein_map pte s) (\<lambda>s.
     let index = getSwappedPageIndex start_page (cur s) in
     if index < 0 then Fault
     else
       bnd (swap_page (nat index) s) (\<lambda>g.
       bnd (read_buffer dv (pg_swap_offset g) s) (\<lambda>s.
       bnd (give_block (pg_swap_offset g) s) (\<lambda>s.
       bnd (mmu_page start_page s) (\<lambda>page.
       let s = s\<lparr>vk := (vk s)\<lparr>mem := put_bytes (mem (vk s)) page (vm_buffer (sw s))\<rparr>\<rparr> in
       bnd (set_swap_page (nat index) (\<lambda>_. zero_page) s) (\<lambda>s.
       if num_ram (cur s) < int MAX_PSYC_PAGES then pagein_space sel start_page s
       else pagein_evict dv sel start_page (nat index) s))))))"

text \<open>\<open>cr2\<close>, the faulting address, is an argument. \<open>*pte\<close> is read before \<open>pte\<close> is compared with null.\<close>

definition pagefault :: "'a paging_scheme devsw \<Rightarrow> selection \<Rightarrow> addr \<Rightarrow> 'a paging_scheme vst \<Rightarrow> 'a paging_scheme vst outcome" where
  "pagefault dv sel va s =
     (let s = upd_proc (\<lambda>p. p\<lparr>totalPgfltCount := totalPgfltCount p + 1\<rparr>) s;
          start_page = PGROUNDDOWN va
      in bnd (walk (p_pgdir (cur s)) start_page s) (\<lambda>pte.
         if pte = 0 then Fault
         else if has (ld pte s) PTE_PG \<and> \<not> has (ld pte s) PTE_COW then handle_pagedout dv sel start_page pte s
         else if va \<ge> KERNBASE then Ret (upd_proc (\<lambda>p. p\<lparr>p_killed := True\<rparr>) s)
         else handle_cow_pagefault pte s))"

end
