(* ===== verification/Exec.thy ===== *)
theory Exec
  imports Swap
begin

text \<open>
  \<^verbatim>\<open>exec.c\<close>: replacing the memory of the calling process by a program. The page arrays, the free
  blocks and the swap file of the process are saved in global variables first, and restored
  from them when the call fails.
\<close>

unbundle bit_operations_syntax

section \<open>The saved variables\<close>

record page_backup =
  bk_ramPages :: "page list"
  bk_swappedPages :: "page list"
  bk_num_ram :: int
  bk_num_swap :: int
  bk_clockHand :: nat
  bk_free_head :: addr
  bk_free_tail :: addr
  bk_queue_head :: addr
  bk_queue_tail :: addr
  bk_swapFile :: "nat option"

record execs = paging +
  ex_backup :: page_backup

definition backup :: "'a execs_scheme vst \<Rightarrow> 'a execs_scheme vst" where
  "backup s =
     s\<lparr>sw := (sw s)\<lparr>ex_backup := \<lparr>bk_ramPages = ramPages (cur s), bk_swappedPages = swappedPages (cur s),
       bk_num_ram = num_ram (cur s), bk_num_swap = num_swap (cur s), bk_clockHand = clockHand (cur s),
       bk_free_head = free_head (cur s), bk_free_tail = free_tail (cur s), bk_queue_head = queue_head (cur s),
       bk_queue_tail = queue_tail (cur s), bk_swapFile = p_swapFile (cur s)\<rparr>\<rparr>\<rparr>"

definition restore :: "'a execs_scheme vst \<Rightarrow> 'a execs_scheme vst" where
  "restore s =
     (let b = ex_backup (sw s) in
      upd_proc (\<lambda>p. p\<lparr>ramPages := bk_ramPages b, swappedPages := bk_swappedPages b, free_head := bk_free_head b,
        free_tail := bk_free_tail b, num_ram := bk_num_ram b, num_swap := bk_num_swap b, p_swapFile := bk_swapFile b,
        clockHand := bk_clockHand b, queue_head := bk_queue_head b, queue_tail := bk_queue_tail b\<rparr>) s)"

section \<open>Fresh page arrays\<close>

definition clean_arrays :: "'f vst \<Rightarrow> 'f vst" where
  "clean_arrays s = upd_proc (\<lambda>p. p\<lparr>swappedPages := replicate MAX_PSYC_PAGES zero_page,
     ramPages := replicate MAX_PSYC_PAGES zero_page, num_ram := 0, num_swap := 0\<rparr>) s"

text \<open>
  The list of the free blocks, with the offsets of all sixteen pages of the swap file. The results
  of \<open>kalloc\<close> are used unchecked. The last node is given to the next turn.
\<close>

fun fblock_nodes :: "nat list \<Rightarrow> addr \<Rightarrow> 'f vst \<Rightarrow> (addr \<times> 'f vst) outcome" where
  "fblock_nodes [] prev s = Ret (prev, s)"
| "fblock_nodes (i # ks) prev s =
     bnd (on_kr kalloc s) (\<lambda>(node, s).
     bnd (set_field fb_off node (of_nat i * PGSIZE) s) (\<lambda>s.
     bnd (set_field fb_prev node prev s) (\<lambda>s.
     bnd (set_field fb_next prev node s) (\<lambda>s.
     fblock_nodes ks node s))))"

definition alloc_fresh_fblocklst :: "'f vst \<Rightarrow> 'f vst outcome" where
  "alloc_fresh_fblocklst s =
     bnd (on_kr kalloc s) (\<lambda>(node, s).
     let s = upd_proc (\<lambda>p. p\<lparr>free_head := node\<rparr>) s in
     bnd (set_field fb_prev node 0 s) (\<lambda>s.
     bnd (set_field fb_off node 0 s) (\<lambda>s.
     bnd (fblock_nodes [1..<MAX_PSYC_PAGES] node s) (\<lambda>(prev, s).
     let s = upd_proc (\<lambda>p. p\<lparr>free_tail := prev\<rparr>) s in
     set_field fb_next prev 0 s))))"

text \<open>The field \<open>selection\<close> of the process decides here; these are the numbers of \<^verbatim>\<open>defs.h\<close>.\<close>

definition SEL_SCFIFO :: int where "SEL_SCFIFO = 3"
definition SEL_AQ :: int where "SEL_AQ = 4"

definition clean_by_selection :: "'f vst \<Rightarrow> 'f vst" where
  "clean_by_selection s =
     (let s = (if p_selection (cur s) = SEL_AQ then upd_proc (\<lambda>p. p\<lparr>queue_head := 0, queue_tail := 0\<rparr>) s else s)
      in if p_selection (cur s) = SEL_SCFIFO then upd_proc (\<lambda>p. p\<lparr>clockHand := 0\<rparr>) s else s)"

definition allocate_fresh :: "'a execs_scheme devsw \<Rightarrow> 'a execs_scheme vst \<Rightarrow> 'a execs_scheme vst outcome" where
  "allocate_fresh dv s =
     bnd (createSwapFile dv (p_pid (cur s)) s) (\<lambda>(f, s).
     let s = upd_proc (\<lambda>p. p\<lparr>p_swapFile := Some f\<rparr>) s in
     bnd (alloc_fresh_fblocklst (clean_arrays s)) (\<lambda>s.
     Ret (clean_by_selection s)))"

section \<open>Programs\<close>

definition ELF_MAGIC :: u32 where "ELF_MAGIC = 0x464C457F"
definition ELF_PROG_LOAD :: u32 where "ELF_PROG_LOAD = 1"

record elfhdr =
  e_magic :: u32
  e_entry :: u32
  e_phoff :: u32
  e_phnum :: u16

record proghdr =
  ph_type :: u32
  ph_off :: u32
  ph_vaddr :: u32
  ph_filesz :: u32
  ph_memsz :: u32

text \<open>A number of four or two bytes at a position of a list of bytes.\<close>

definition u32_at :: "u8 list \<Rightarrow> nat \<Rightarrow> u32" where
  "u32_at bs i = ucast (bs ! i) OR push_bit 8 (ucast (bs ! (i + 1))) OR push_bit 16 (ucast (bs ! (i + 2))) OR push_bit 24 (ucast (bs ! (i + 3)))"

definition u16_at :: "u8 list \<Rightarrow> nat \<Rightarrow> u16" where
  "u16_at bs i = ucast (bs ! i) OR push_bit 8 (ucast (bs ! (i + 1)))"

definition elfhdr_of :: "u8 list \<Rightarrow> elfhdr" where
  "elfhdr_of bs = \<lparr>e_magic = u32_at bs 0, e_entry = u32_at bs 24, e_phoff = u32_at bs 28, e_phnum = u16_at bs 44\<rparr>"

definition proghdr_of :: "u8 list \<Rightarrow> proghdr" where
  "proghdr_of bs = \<lparr>ph_type = u32_at bs 0, ph_off = u32_at bs 4, ph_vaddr = u32_at bs 8, ph_filesz = u32_at bs 16, ph_memsz = u32_at bs 20\<rparr>"

text \<open>\<open>readi\<close> of a header of \<open>n\<close> bytes; nothing when the file has fewer.\<close>

definition read_header :: "'a execs_scheme devsw \<Rightarrow> nat \<Rightarrow> u32 \<Rightarrow> u32 \<Rightarrow> 'a execs_scheme vst \<Rightarrow> (u8 list option \<times> 'a execs_scheme vst) outcome" where
  "read_header dv ip off n s =
     on_fsr (\<lambda>t. bnd (readi dv ip off n t) (\<lambda>(r, bytes, t). Ret (if r = uint n then Some bytes else None, t))) s"

text \<open>The segments of the program, from the \<open>i\<close>-th on: the size in the end, or nothing where the code jumps to \<open>bad\<close>.\<close>

fun exec_load :: "nat list \<Rightarrow> 'a execs_scheme devsw \<Rightarrow> selection \<Rightarrow> addr \<Rightarrow> nat \<Rightarrow> u32 \<Rightarrow> u32 \<Rightarrow> 'a execs_scheme vst \<Rightarrow> (u32 option \<times> 'a execs_scheme vst) outcome" where
  "exec_load [] dv sel pgdir ip off sz s = Ret (Some sz, s)"
| "exec_load (i # ks) dv sel pgdir ip off sz s =
     bnd (read_header dv ip off 32 s) (\<lambda>(bytes, s).
     case bytes of
       None \<Rightarrow> Ret (None, s)
     | Some bs \<Rightarrow>
         let ph = proghdr_of bs in
         if ph_type ph \<noteq> ELF_PROG_LOAD then exec_load ks dv sel pgdir ip (off + 32) sz s
         else if ph_memsz ph < ph_filesz ph then Ret (None, s)
         else if ph_vaddr ph + ph_memsz ph < ph_vaddr ph then Ret (None, s)
         else
           bnd (allocuvm dv sel pgdir sz (ph_vaddr ph + ph_memsz ph) s) (\<lambda>(sz, s).
           if sz = 0 then Ret (None, s)
           else if ph_vaddr ph mod PGSIZE \<noteq> 0 then Ret (None, s)
           else
             bnd (loaduvm dv pgdir (ph_vaddr ph) ip (ph_off ph) (ph_filesz ph) s) (\<lambda>(r, s).
             if r < 0 then Ret (None, s) else exec_load ks dv sel pgdir ip (off + 32) sz s)))"

section \<open>The arguments\<close>

definition MAXARG :: nat where "MAXARG = 32"

text \<open>The strings are pushed one by one; \<open>ustack\<close> collects their addresses.\<close>

fun push_args :: "u8 list list \<Rightarrow> addr \<Rightarrow> addr \<Rightarrow> u32 list \<Rightarrow> 'f vst \<Rightarrow> ((addr \<times> u32 list) option \<times> 'f vst) outcome" where
  "push_args [] pgdir sp ustack s = Ret (Some (sp, ustack), s)"
| "push_args (a # as) pgdir sp ustack s =
     (if length ustack \<ge> MAXARG then Ret (None, s)
      else
        let sp = (sp - (of_nat (length a) + 1)) AND NOT 3 in
        bnd (on_kr (copyout pgdir sp (a @ [0])) s) (\<lambda>(r, s).
        if r < 0 then Ret (None, s) else push_args as pgdir sp (ustack @ [sp]) s))"

definition word_bytes :: "u32 \<Rightarrow> u8 list" where
  "word_bytes w = [ucast w, ucast (drop_bit 8 w), ucast (drop_bit 16 w), ucast (drop_bit 24 w)]"

text \<open>The words below the strings: a return address, \<open>argc\<close>, \<open>argv\<close>, and the addresses with a null at their end.\<close>

definition stack_frame :: "addr \<Rightarrow> u32 list \<Rightarrow> u32 list" where
  "stack_frame sp args =
     [0xFFFFFFFF, of_nat (length args), sp - (of_nat (length args) + 1) * 4] @ args @ [0]"

definition exec_stack :: "u8 list list \<Rightarrow> addr \<Rightarrow> addr \<Rightarrow> 'f vst \<Rightarrow> (addr option \<times> 'f vst) outcome" where
  "exec_stack argv pgdir sp s =
     bnd (push_args argv pgdir sp [] s) (\<lambda>(r, s).
     case r of
       None \<Rightarrow> Ret (None, s)
     | Some (sp, args) \<Rightarrow>
         let sp' = sp - (3 + of_nat (length args) + 1) * 4 in
         bnd (on_kr (copyout pgdir sp' (concat (map word_bytes (stack_frame sp args)))) s) (\<lambda>(r, s).
         if r < 0 then Ret (None, s) else Ret (Some sp', s)))"

section \<open>exec\<close>

text \<open>The part of the path behind its last slash.\<close>

definition last_element :: "u8 list \<Rightarrow> u8 list" where
  "last_element path = rev (takeWhile (\<lambda>c. c \<noteq> slash) (rev path))"

definition proc_name :: "u8 list \<Rightarrow> string" where
  "proc_name cs = map (\<lambda>c. char_of (unat c)) (take 15 cs)"

text \<open>The label \<open>bad\<close>.\<close>

definition exec_bad :: "selection \<Rightarrow> addr \<Rightarrow> nat option \<Rightarrow> 'a execs_scheme vst \<Rightarrow> (int \<times> 'a execs_scheme vst) outcome" where
  "exec_bad sel pgdir ipo s =
     bnd (if pgdir \<noteq> 0 then freevm pgdir s else Ret s) (\<lambda>s.
     let s = (if sel \<noteq> NONE \<and> p_pid (cur s) > 2 then restore s else s) in
     bnd (case ipo of None \<Rightarrow> Ret s | Some ip \<Rightarrow> on_fs (\<lambda>t. bnd (iunlockput ip t) end_op) s) (\<lambda>s.
     Ret (-1, s)))"

definition own_pages :: "selection \<Rightarrow> addr \<Rightarrow> proc \<Rightarrow> proc" where
  "own_pages sel pgdir p =
     (let own = (\<lambda>g. if pg_isused g then g\<lparr>pg_pgdir := pgdir\<rparr> else g);
          p = p\<lparr>ramPages := map own (ramPages p)\<rparr>
      in if sel \<noteq> NONE then p\<lparr>swappedPages := map own (swappedPages p)\<rparr> else p)"

definition exec_commit :: "selection \<Rightarrow> u8 list \<Rightarrow> addr \<Rightarrow> u32 \<Rightarrow> addr \<Rightarrow> addr \<Rightarrow> 'a execs_scheme vst \<Rightarrow> (int \<times> 'a execs_scheme vst) outcome" where
  "exec_commit sel path pgdir sz entry sp s =
     (let oldpgdir = p_pgdir (cur s);
          s = upd_proc (\<lambda>p. p\<lparr>p_name := proc_name (last_element path)\<rparr>) s;
          s = upd_proc (own_pages sel pgdir) s;
          s = upd_proc (\<lambda>p. p\<lparr>p_pgdir := pgdir, p_sz := sz, p_tf := (p_tf p)\<lparr>tf_eip := entry, tf_esp := sp\<rparr>\<rparr>) s
      in bnd (switchuvm (cur s) s) (\<lambda>s.
         bnd (freevm oldpgdir s) (\<lambda>s. Ret (0, s))))"

definition exec_image :: "'a execs_scheme devsw \<Rightarrow> selection \<Rightarrow> u8 list \<Rightarrow> u8 list list \<Rightarrow> addr \<Rightarrow> elfhdr \<Rightarrow> nat \<Rightarrow> 'a execs_scheme vst \<Rightarrow> (int \<times> 'a execs_scheme vst) outcome" where
  "exec_image dv sel path argv pgdir elf ip s =
     bnd (exec_load [0..<unat (e_phnum elf)] dv sel pgdir ip (e_phoff elf) 0 s) (\<lambda>(szo, s).
     case szo of
       None \<Rightarrow> exec_bad sel pgdir (Some ip) s
     | Some sz \<Rightarrow>
         bnd (on_fs (\<lambda>t. bnd (iunlockput ip t) end_op) s) (\<lambda>s.
         let sz = PGROUNDUP sz in
         bnd (allocuvm dv sel pgdir sz (sz + 2 * PGSIZE) s) (\<lambda>(sz, s).
         if sz = 0 then exec_bad sel pgdir None s
         else
           bnd (on_k (clearpteu pgdir (sz - 2 * PGSIZE)) s) (\<lambda>s.
           bnd (exec_stack argv pgdir sz s) (\<lambda>(spo, s).
           case spo of
             None \<Rightarrow> exec_bad sel pgdir None s
           | Some sp \<Rightarrow> exec_commit sel path pgdir sz (e_entry elf) sp s)))))"

definition exec :: "'a execs_scheme devsw \<Rightarrow> selection \<Rightarrow> addr \<Rightarrow> u8 list \<Rightarrow> u8 list list \<Rightarrow> 'a execs_scheme vst \<Rightarrow> (int \<times> 'a execs_scheme vst) outcome" where
  "exec dv sel data path argv s =
     bnd (if p_pid (cur s) > 2 then allocate_fresh dv (backup s) else Ret s) (\<lambda>s.
     bnd (on_fs begin_op s) (\<lambda>s.
     bnd (on_fsr (namei dv path) s) (\<lambda>(ipo, s).
     case ipo of
       None \<Rightarrow> bnd (on_fs end_op s) (\<lambda>s. Ret (-1, s))
     | Some ip \<Rightarrow>
         bnd (on_fs (ilock (Some ip)) s) (\<lambda>s.
         bnd (read_header dv ip 0 52 s) (\<lambda>(bytes, s).
         case bytes of
           None \<Rightarrow> exec_bad sel 0 (Some ip) s
         | Some bs \<Rightarrow>
             let elf = elfhdr_of bs in
             if e_magic elf \<noteq> ELF_MAGIC then exec_bad sel 0 (Some ip) s
             else
               bnd (setupkvm data s) (\<lambda>(pgdir, s).
               if pgdir = 0 then exec_bad sel 0 (Some ip) s
               else exec_image dv sel path argv pgdir elf ip s))))))"

end
