(* ===== verification/Proc.thy ===== *)
theory Proc
  imports Exec
begin

text \<open>
  \<^verbatim>\<open>proc.c\<close>: the process table, creating, ending and waiting for processes, and the scheduler. The
  kernel state has the process table in place of the running process alone; an operation of the
  memory management or of the file system runs for a process of the table. A channel that
  processes sleep on is an address; the address of a process is given by the linker.
\<close>

section \<open>The kernel state\<close>

definition NPROC :: nat where "NPROC = 64"

record 'f kernel =
  k_vk :: kst
  k_cr3 :: u32
  k_sw :: 'f
  ptable :: "proc list"
  initproc :: "nat option"
  nextpid :: int
  me :: nat
  ticks :: u32

text \<open>
  What is fixed when the kernel is built: the device switch, the replacement policy, the address of
  its data, of \<open>forkret\<close>, and of the entries of the process table.
\<close>

record 's config =
  cf_dv :: "'s devsw"
  cf_sel :: selection
  cf_data :: addr
  cf_forkret :: addr
  cf_proc :: "nat \<Rightarrow> addr"

definition vm_of :: "nat \<Rightarrow> 'f kernel \<Rightarrow> 'f vst" where
  "vm_of i k = \<lparr>vk = k_vk k, cur = ptable k ! i, cr3 = k_cr3 k, sw = k_sw k\<rparr>"

definition put_vm :: "nat \<Rightarrow> 'f vst \<Rightarrow> 'f kernel \<Rightarrow> 'f kernel" where
  "put_vm i s k = k\<lparr>k_vk := vk s, k_cr3 := cr3 s, k_sw := sw s, ptable := (ptable k)[i := cur s]\<rparr>"

definition on_vm :: "nat \<Rightarrow> ('f vst \<Rightarrow> 'f vst outcome) \<Rightarrow> 'f kernel \<Rightarrow> 'f kernel outcome" where
  "on_vm i f k = bnd (f (vm_of i k)) (\<lambda>s. Ret (put_vm i s k))"

definition on_vmr :: "nat \<Rightarrow> ('f vst \<Rightarrow> ('r \<times> 'f vst) outcome) \<Rightarrow> 'f kernel \<Rightarrow> ('r \<times> 'f kernel) outcome" where
  "on_vmr i f k = bnd (f (vm_of i k)) (\<lambda>(r, s). Ret (r, put_vm i s k))"

definition upd_p :: "nat \<Rightarrow> (proc \<Rightarrow> proc) \<Rightarrow> 'f kernel \<Rightarrow> 'f kernel" where
  "upd_p i f k = k\<lparr>ptable := (ptable k)[i := f (ptable k ! i)]\<rparr>"

abbreviation proc_at :: "nat \<Rightarrow> 'f kernel \<Rightarrow> proc" where
  "proc_at i k \<equiv> ptable k ! i"

abbreviation curproc :: "'f kernel \<Rightarrow> proc" where
  "curproc k \<equiv> ptable k ! me k"

section \<open>Sleeping and waking\<close>

definition wakeup1 :: "addr \<Rightarrow> 'f kernel \<Rightarrow> 'f kernel" where
  "wakeup1 chan k =
     k\<lparr>ptable := map (\<lambda>p. if p_state p = SLEEPING \<and> p_chan p = chan then p\<lparr>p_state := RUNNABLE\<rparr> else p) (ptable k)\<rparr>"

definition wakeup :: "addr \<Rightarrow> 'f kernel \<Rightarrow> 'f kernel" where
  "wakeup chan k = wakeup1 chan k"

text \<open>\<open>sleep\<close> up to \<open>sched\<close>, and what it does when the process runs again.\<close>

definition sleep_on :: "addr \<Rightarrow> 'f kernel \<Rightarrow> 'f kernel" where
  "sleep_on chan k = upd_p (me k) (\<lambda>p. p\<lparr>p_chan := chan, p_state := SLEEPING\<rparr>) k"

definition sleep_return :: "'f kernel \<Rightarrow> 'f kernel" where
  "sleep_return k = upd_p (me k) (\<lambda>p. p\<lparr>p_chan := 0\<rparr>) k"

definition yield :: "'f kernel \<Rightarrow> 'f kernel" where
  "yield k = upd_p (me k) (\<lambda>p. p\<lparr>p_state := RUNNABLE\<rparr>) k"

definition kill :: "int \<Rightarrow> 'f kernel \<Rightarrow> int \<times> 'f kernel" where
  "kill pid k =
     (case first_index (\<lambda>p. p_pid p = pid) (ptable k) of
        None \<Rightarrow> (-1, k)
      | Some i \<Rightarrow>
          (0, upd_p i (\<lambda>p. p\<lparr>p_killed := True, p_state := if p_state p = SLEEPING then RUNNABLE else p_state p\<rparr>) k))"

section \<open>Creating processes\<close>

text \<open>The part of \<open>allocproc\<close> for processes with a swap file. The file is created by the running process.\<close>

definition allocproc_paging :: "'a execs_scheme config \<Rightarrow> nat \<Rightarrow> 'a execs_scheme kernel \<Rightarrow> 'a execs_scheme kernel outcome" where
  "allocproc_paging cf i k =
     bnd (on_vmr (me k) (createSwapFile (cf_dv cf) (p_pid (proc_at i k))) k) (\<lambda>(f, k).
     let k = upd_p i (\<lambda>p. p\<lparr>p_swapFile := Some f, ramPages := replicate MAX_PSYC_PAGES zero_page,
           swappedPages := replicate MAX_PSYC_PAGES zero_page, num_ram := 0, num_swap := 0,
           totalPgfltCount := 0, totalPgoutCount := 0\<rparr>) k;
         k = upd_p i (\<lambda>p. if p_selection p = SEL_SCFIFO then p\<lparr>clockHand := 0\<rparr> else p) k;
         k = upd_p i (\<lambda>p. if p_selection p = SEL_AQ then p\<lparr>queue_head := 0, queue_tail := 0\<rparr> else p) k
     in on_vm i alloc_fresh_fblocklst k)"

text \<open>\<open>nextpid\<close> is an \<^verbatim>\<open>int\<close>, whose overflow is undefined.\<close>

definition allocproc :: "'a execs_scheme config \<Rightarrow> 'a execs_scheme kernel \<Rightarrow> (nat option \<times> 'a execs_scheme kernel) outcome" where
  "allocproc cf k =
     (case first_index (\<lambda>p. p_state p = UNUSED) (ptable k) of
        None \<Rightarrow> Ret (None, k)
      | Some i \<Rightarrow>
          if nextpid k \<ge> 2147483647 then Fault
          else
          let k = upd_p i (\<lambda>p. p\<lparr>p_state := EMBRYO, p_pid := nextpid k\<rparr>) k;
              k = k\<lparr>nextpid := nextpid k + 1\<rparr>
          in bnd (on_vmr i (on_kr kalloc) k) (\<lambda>(stack, k).
             let k = upd_p i (\<lambda>p. p\<lparr>p_kstack := stack\<rparr>) k in
             if stack = 0 then Ret (None, upd_p i (\<lambda>p. p\<lparr>p_state := UNUSED\<rparr>) k)
             else
               let k = upd_p i (\<lambda>p. p\<lparr>p_context_eip := cf_forkret cf\<rparr>) k in
               bnd (if cf_sel cf \<noteq> NONE \<and> p_pid (proc_at i k) > 2 then allocproc_paging cf i k else Ret k) (\<lambda>k.
               Ret (Some i, k))))"

text \<open>\<open>initcode\<close> are the bytes of the first program.\<close>

definition userinit :: "'a execs_scheme config \<Rightarrow> u8 list \<Rightarrow> 'a execs_scheme kernel \<Rightarrow> 'a execs_scheme kernel outcome" where
  "userinit cf initcode k =
     bnd (allocproc cf k) (\<lambda>(po, k).
     case po of
       None \<Rightarrow> Fault
     | Some i \<Rightarrow>
         let k = k\<lparr>initproc := Some i\<rparr> in
         bnd (on_vmr i (setupkvm (cf_data cf)) k) (\<lambda>(pgdir, k).
         let k = upd_p i (\<lambda>p. p\<lparr>p_pgdir := pgdir\<rparr>) k in
         if pgdir = 0 then Panic ''userinit: out of memory?''
         else
           bnd (on_vm i (on_k (inituvm pgdir initcode)) k) (\<lambda>k.
           let k = upd_p i (\<lambda>p. p\<lparr>p_sz := PGSIZE, p_tf := zero_trapframe\<lparr>tf_cs := 0x1B, tf_ds := 0x23, tf_es := 0x23,
                 tf_ss := 0x23, tf_eflags := 0x200, tf_esp := PGSIZE, tf_eip := 0\<rparr>, p_name := ''initcode''\<rparr>) k
           in bnd (on_vmr i (on_fsr (namei (cf_dv cf) [slash])) k) (\<lambda>(cwd, k).
              Ret (upd_p i (\<lambda>p. p\<lparr>p_cwd := cwd, p_state := RUNNABLE\<rparr>) k)))))"

definition growproc :: "'a execs_scheme config \<Rightarrow> int \<Rightarrow> 'a execs_scheme vst \<Rightarrow> (int \<times> 'a execs_scheme vst) outcome" where
  "growproc cf n s =
     (let sz = p_sz (cur s); pgdir = p_pgdir (cur s);
          finish = (\<lambda>sz s. bnd (switchuvm (cur (upd_proc (\<lambda>p. p\<lparr>p_sz := sz\<rparr>) s)) (upd_proc (\<lambda>p. p\<lparr>p_sz := sz\<rparr>) s)) (\<lambda>s. Ret (0, s)))
      in if n > 0
         then bnd (allocuvm (cf_dv cf) (cf_sel cf) pgdir sz (sz + of_int n) s) (\<lambda>(sz, s). if sz = 0 then Ret (-1, s) else finish sz s)
         else if n < 0
         then bnd (deallocuvm pgdir sz (sz + of_int n) s) (\<lambda>(sz, s). if sz = 0 then Ret (-1, s) else finish sz s)
         else finish sz s)"

text \<open>
  The entries of the page arrays of the child. Those of \<open>swappedPages\<close> are only copied when the kernel
  swaps.
\<close>

definition fork_ram_page :: "addr \<Rightarrow> page \<Rightarrow> page \<Rightarrow> page" where
  "fork_ram_page pgdir g h = h\<lparr>pg_isused := True, pg_virt_addr := pg_virt_addr g, pg_pgdir := pgdir, pg_ref_bit := pg_ref_bit g\<rparr>"

definition fork_swapped_page :: "addr \<Rightarrow> page \<Rightarrow> page \<Rightarrow> page" where
  "fork_swapped_page pgdir g h = h\<lparr>pg_isused := True, pg_virt_addr := pg_virt_addr g, pg_pgdir := pgdir,
     pg_swap_offset := pg_swap_offset g, pg_ref_bit := pg_ref_bit g\<rparr>"

definition fork_pages :: "selection \<Rightarrow> proc \<Rightarrow> proc \<Rightarrow> proc" where
  "fork_pages sel c p =
     (let p = p\<lparr>totalPgfltCount := 0, totalPgoutCount := 0, num_ram := num_ram c, num_swap := num_swap c,
           ramPages := map2 (fork_ram_page (p_pgdir p)) (ramPages c) (ramPages p)\<rparr>
      in if sel \<noteq> NONE then p\<lparr>swappedPages := map2 (fork_swapped_page (p_pgdir p)) (swappedPages c) (swappedPages p)\<rparr> else p)"

text \<open>
  The swap file of the parent is copied to that of the child, half a page at a time. An offset beyond
  the \<^verbatim>\<open>int\<close>s would overflow.
\<close>

function fork_swap :: "'a execs_scheme devsw \<Rightarrow> nat option \<Rightarrow> nat option \<Rightarrow> nat \<Rightarrow> 'a execs_scheme vst \<Rightarrow> 'a execs_scheme vst outcome" where
  "fork_swap dv src dst offset s =
     (if offset \<ge> 2 ^ 31 then Fault
      else
        bnd (readFromSwapFile dv src (of_nat offset) 2048 s) (\<lambda>(nread, bytes, s).
        if nread = 0 then Ret s
        else if nread < 0 then Panic ''fork: error copying parent's swap file''
        else
          bnd (writeToSwapFile dv dst bytes (of_nat offset) s) (\<lambda>(r, s).
          if r = -1 then Panic ''fork: error copying parent's swap file''
          else fork_swap dv src dst (offset + nat nread) s)))"
  by pat_completeness auto
termination
  by (relation "measure (\<lambda>(dv, src, dst, offset, s). 2 ^ 31 - offset)") auto

declare fork_swap.simps [simp del]

text \<open>\<open>copyAQ\<close>: the loop walks the parent's queue, a walk round a cycle for ever; the result is the last new node.\<close>

fun copyAQ_loop :: "nat \<Rightarrow> addr \<Rightarrow> addr \<Rightarrow> 'f vst \<Rightarrow> (addr \<times> 'f vst) outcome" where
  "copyAQ_loop 0 old_curr np_prev s = Hang"
| "copyAQ_loop (Suc n) old_curr np_prev s =
     (if old_curr = 0 then Ret (np_prev, s)
      else
        bnd (on_kr kalloc s) (\<lambda>(np_curr, s).
        bnd (get_field qn_page_index old_curr s) (\<lambda>i.
        bnd (set_field qn_page_index np_curr i s) (\<lambda>s.
        bnd (set_field qn_prev np_curr np_prev s) (\<lambda>s.
        bnd (set_field qn_next np_prev np_curr s) (\<lambda>s.
        bnd (get_field qn_next old_curr s) (\<lambda>nxt.
        copyAQ_loop n nxt np_curr s)))))))"

text \<open>
  Every turn allocates a page, and there are fewer than \<open>2 ^ 20\<close> of them: a walk that does not end
  meets the null pointer \<open>kalloc\<close> returns then.
\<close>

definition copyAQ :: "addr \<Rightarrow> 'f vst \<Rightarrow> ((addr \<times> addr) \<times> 'f vst) outcome" where
  "copyAQ old_head s =
     (if old_head = 0 then Ret ((0, 0), s)
      else
        bnd (on_kr kalloc s) (\<lambda>(np_curr, s).
        bnd (get_field qn_page_index old_head s) (\<lambda>i.
        bnd (set_field qn_page_index np_curr i s) (\<lambda>s.
        bnd (set_field qn_prev np_curr 0 s) (\<lambda>s.
        bnd (get_field qn_next old_head s) (\<lambda>nxt.
        bnd (copyAQ_loop (2 ^ 20) nxt np_curr s) (\<lambda>(lst, s).
        bnd (set_field qn_next lst 0 s) (\<lambda>s.
        Ret ((np_curr, lst), s)))))))))"

definition fork_paging :: "'a execs_scheme config \<Rightarrow> nat \<Rightarrow> 'a execs_scheme kernel \<Rightarrow> 'a execs_scheme kernel outcome" where
  "fork_paging cf i k =
     (let k = upd_p i (fork_pages (cf_sel cf) (curproc k)) k in
      bnd (on_vm (me k) (fork_swap (cf_dv cf) (p_swapFile (curproc k)) (p_swapFile (proc_at i k)) 0) k) (\<lambda>k.
      if cf_sel cf = AQ
      then bnd (on_vmr (me k) (copyAQ (queue_head (curproc k))) k) (\<lambda>((h, t), k).
        Ret (upd_p i (\<lambda>p. p\<lparr>queue_head := h, queue_tail := t\<rparr>) k))
      else Ret k))"

definition dup_file :: "nat \<Rightarrow> nat \<Rightarrow> 'a execs_scheme kernel \<Rightarrow> 'a execs_scheme kernel outcome" where
  "dup_file i fd k =
     (case p_ofile (curproc k) ! fd of
        None \<Rightarrow> Ret k
      | Some f \<Rightarrow>
          bnd (on_vmr (me k) (filedup f) k) (\<lambda>(f, k).
          Ret (upd_p i (\<lambda>p. p\<lparr>p_ofile := (p_ofile p)[fd := Some f]\<rparr>) k)))"

definition fork :: "'a execs_scheme config \<Rightarrow> 'a execs_scheme kernel \<Rightarrow> (int \<times> 'a execs_scheme kernel) outcome" where
  "fork cf k =
     bnd (allocproc cf k) (\<lambda>(po, k).
     case po of
       None \<Rightarrow> Ret (-1, k)
     | Some i \<Rightarrow>
         let pgdir = p_pgdir (curproc k); sz = p_sz (curproc k) in
         bnd (on_vmr (me k) (if p_pid (curproc k) \<le> 2 then copyuvm (cf_sel cf) (cf_data cf) pgdir sz
                             else cowuvm (cf_data cf) pgdir sz) k) (\<lambda>(d, k).
         let k = upd_p i (\<lambda>p. p\<lparr>p_pgdir := d\<rparr>) k in
         if d = 0
         then bnd (on_vm i (on_k (kfree (p_kstack (proc_at i k)))) k) (\<lambda>k.
           Ret (-1, upd_p i (\<lambda>p. p\<lparr>p_kstack := 0, p_state := UNUSED\<rparr>) k))
         else
           let k = upd_p i (\<lambda>p. p\<lparr>p_sz := sz, p_parent := Some (me k), p_tf := p_tf (curproc k)\<rparr>) k in
           bnd (if p_pid (curproc k) > 2 then fork_paging cf i k else Ret k) (\<lambda>k.
           let k = upd_p i (\<lambda>p. p\<lparr>p_tf := (p_tf p)\<lparr>tf_eax := 0\<rparr>\<rparr>) k in
           bnd (for_each (dup_file i) [0..<NOFILE] k) (\<lambda>k.
           bnd (case p_cwd (curproc k) of None \<Rightarrow> Fault | Some cwd \<Rightarrow> on_vmr (me k) (on_fsr (idup cwd)) k) (\<lambda>(cwd, k).
           let k = upd_p i (\<lambda>p. p\<lparr>p_cwd := Some cwd, p_name := take 15 (p_name (curproc k))\<rparr>) k in
           Ret (p_pid (proc_at i k), upd_p i (\<lambda>p. p\<lparr>p_state := RUNNABLE\<rparr>) k))))))"

section \<open>Ending processes\<close>

definition close_fd :: "nat \<Rightarrow> 'a files_scheme vst \<Rightarrow> 'a files_scheme vst outcome" where
  "close_fd fd s =
     (case p_ofile (cur s) ! fd of
        None \<Rightarrow> Ret s
      | Some f \<Rightarrow> bnd (fileclose f s) (\<lambda>s. Ret (upd_proc (\<lambda>p. p\<lparr>p_ofile := (p_ofile p)[fd := None]\<rparr>) s)))"

definition parent_chan :: "'s config \<Rightarrow> nat option \<Rightarrow> addr" where
  "parent_chan cf po = (case po of None \<Rightarrow> 0 | Some i \<Rightarrow> cf_proc cf i)"

text \<open>A child is passed to \<open>init\<close>, which is woken when the child is a zombie.\<close>

definition abandon :: "'s config \<Rightarrow> nat \<Rightarrow> 'f kernel \<Rightarrow> 'f kernel" where
  "abandon cf i k =
     (if p_parent (proc_at i k) = Some (me k)
      then
        let k = upd_p i (\<lambda>p. p\<lparr>p_parent := initproc k\<rparr>) k in
        if p_state (proc_at i k) = ZOMBIE then wakeup1 (parent_chan cf (initproc k)) k else k
      else k)"

text \<open>\<open>exit\<close> does not return: the result is the state in which the scheduler goes on.\<close>

definition exit :: "'a execs_scheme config \<Rightarrow> 'a execs_scheme kernel \<Rightarrow> 'a execs_scheme kernel outcome" where
  "exit cf k =
     (if initproc k = Some (me k) then Panic ''init exiting''
      else
        bnd (on_vm (me k) (for_each close_fd [0..<NOFILE]) k) (\<lambda>k.
        bnd (on_vm (me k) (on_fs (iput_op (p_cwd (curproc k)))) k) (\<lambda>k.
        let k = upd_p (me k) (\<lambda>p. p\<lparr>p_cwd := None\<rparr>) k in
        bnd (if cf_sel cf \<noteq> NONE \<and> p_pid (curproc k) > 2
             then bnd (on_vmr (me k) (removeSwapFile (cf_dv cf) (p_pid (curproc k)) (p_swapFile (curproc k))) k) (\<lambda>(r, k).
               if r \<noteq> 0 then Panic ''exit: error deleting swap file'' else Ret k)
             else Ret k) (\<lambda>k.
        let k = wakeup1 (parent_chan cf (p_parent (curproc k))) k;
            k = fold (abandon cf) [0..<NPROC] k
        in Ret (upd_p (me k) (\<lambda>p. p\<lparr>p_state := ZOMBIE\<rparr>) k)))))"

text \<open>A zombie child is freed.\<close>

definition reap :: "selection \<Rightarrow> nat \<Rightarrow> 'f kernel \<Rightarrow> (int \<times> 'f kernel) outcome" where
  "reap sel i k =
     (let pid = p_pid (proc_at i k) in
      bnd (on_vm (me k) (on_k (kfree (p_kstack (proc_at i k)))) k) (\<lambda>k.
      let k = upd_p i (\<lambda>p. p\<lparr>p_kstack := 0\<rparr>) k in
      bnd (on_vm (me k) (freevm (p_pgdir (proc_at i k))) k) (\<lambda>k.
      let k = upd_p i (\<lambda>p. p\<lparr>p_pid := 0, p_parent := None, p_name := [], p_killed := False, clockHand := 0,
            free_head := 0, free_tail := 0, queue_head := 0, queue_tail := 0, numswappages := 0, nummemorypages := 0\<rparr>) k;
          k = (if sel \<noteq> NONE then upd_p i (\<lambda>p. p\<lparr>ramPages := replicate MAX_PSYC_PAGES zero_page,
                swappedPages := replicate MAX_PSYC_PAGES zero_page\<rparr>) k else k)
      in Ret (pid, upd_p i (\<lambda>p. p\<lparr>p_state := UNUSED\<rparr>) k))))"

text \<open>\<open>wait\<close>: a process with living children only sleeps; what it is woken for is another process's doing.\<close>

definition wait :: "selection \<Rightarrow> 'f kernel \<Rightarrow> (int \<times> 'f kernel) outcome" where
  "wait sel k =
     (case first_index (\<lambda>p. p_parent p = Some (me k) \<and> p_state p = ZOMBIE) (ptable k) of
        Some i \<Rightarrow> reap sel i k
      | None \<Rightarrow>
          if (\<forall>p\<in>set (ptable k). p_parent p \<noteq> Some (me k)) \<or> p_killed (curproc k) then Ret (-1, k) else Hang)"

section \<open>The scheduler\<close>

text \<open>
  One round of the scheduler over the entries \<open>is\<close> of the table. \<open>run\<close> is what happens from the switch
  to a process to its switch back. The result has the processes that were run, in their order.
\<close>

definition dispatch :: "nat \<Rightarrow> 'f kernel \<Rightarrow> 'f kernel outcome" where
  "dispatch i k =
     bnd (on_vm i (switchuvm (proc_at i k)) (k\<lparr>me := i\<rparr>)) (\<lambda>k. Ret (upd_p i (\<lambda>p. p\<lparr>p_state := RUNNING\<rparr>) k))"

fun schedule_round :: "(nat \<Rightarrow> 'f kernel \<Rightarrow> 'f kernel outcome) \<Rightarrow> addr \<Rightarrow> nat list \<Rightarrow> 'f kernel \<Rightarrow> (nat list \<times> 'f kernel) outcome" where
  "schedule_round run kpgdir [] k = Ret ([], k)"
| "schedule_round run kpgdir (i # ks) k =
     (if p_state (proc_at i k) \<noteq> RUNNABLE then schedule_round run kpgdir ks k
      else
        bnd (dispatch i k) (\<lambda>k.
        bnd (run i k) (\<lambda>k.
        bnd (on_vm i (\<lambda>s. Ret (switchkvm kpgdir s)) k) (\<lambda>k.
        bnd (schedule_round run kpgdir ks k) (\<lambda>(ran, k). Ret (i # ran, k))))))"

end
