(* ===== verification/Sysfile.thy ===== *)
theory Sysfile
  imports Proc
begin

text \<open>
  System calls: fetching arguments from the memory of the calling process (\<^verbatim>\<open>syscall.c\<close>), the calls on
  files (\<^verbatim>\<open>sysfile.c\<close>) and on processes (\<^verbatim>\<open>sysproc.c\<close>), and their dispatch. A call returns the
  number that goes to \<open>eax\<close>.
\<close>

unbundle bit_operations_syntax

section \<open>User memory\<close>

text \<open>
  The kernel reads and writes user memory through the page table in use. An access to a page that is
  not present, or a write to one that is not writable, would trap in the kernel; it has no value here.
\<close>

definition user_get :: "addr \<Rightarrow> 'f vst \<Rightarrow> u8 outcome" where
  "user_get va s = bnd (mmu_page va s) (\<lambda>page. Ret (mem (vk s) (page + (va - PGROUNDDOWN va))))"

fun user_read :: "addr \<Rightarrow> nat \<Rightarrow> 'f vst \<Rightarrow> u8 list outcome" where
  "user_read va 0 s = Ret []"
| "user_read va (Suc n) s = bnd (user_get va s) (\<lambda>c. bnd (user_read (va + 1) n s) (\<lambda>cs. Ret (c # cs)))"

definition user_put :: "addr \<Rightarrow> u8 \<Rightarrow> 'f vst \<Rightarrow> 'f vst outcome" where
  "user_put va c s =
     (if \<not> has (pte_val (mem (vk s)) (P2V (cr3 s)) va) PTE_W then Fault
      else bnd (mmu_page va s) (\<lambda>page.
        Ret (s\<lparr>vk := (vk s)\<lparr>mem := (mem (vk s))(page + (va - PGROUNDDOWN va) := c)\<rparr>\<rparr>)))"

fun user_write :: "addr \<Rightarrow> u8 list \<Rightarrow> 'f vst \<Rightarrow> 'f vst outcome" where
  "user_write va [] s = Ret s"
| "user_write va (c # cs) s = bnd (user_put va c s) (user_write (va + 1) cs)"

section \<open>Arguments\<close>

text \<open>A call that returns a negative number for an argument that is not valid returns \<open>None\<close> here.\<close>

definition fetchint :: "addr \<Rightarrow> 'f vst \<Rightarrow> u32 option outcome" where
  "fetchint addr s =
     (if addr \<ge> p_sz (cur s) \<or> addr + 4 > p_sz (cur s) then Ret None
      else bnd (user_read addr 4 s) (\<lambda>bs. Ret (Some (u32_at bs 0))))"

fun fetchstr_scan :: "nat \<Rightarrow> addr \<Rightarrow> 'f vst \<Rightarrow> u8 list option outcome" where
  "fetchstr_scan 0 a s = Ret None"
| "fetchstr_scan (Suc n) a s =
     bnd (user_get a s) (\<lambda>c.
     if c = 0 then Ret (Some [])
     else bnd (fetchstr_scan n (a + 1) s) (\<lambda>r. Ret (map_option (\<lambda>cs. c # cs) r)))"

definition fetchstr :: "addr \<Rightarrow> 'f vst \<Rightarrow> u8 list option outcome" where
  "fetchstr addr s =
     (if addr \<ge> p_sz (cur s) then Ret None else fetchstr_scan (unat (p_sz (cur s) - addr)) addr s)"

definition argint :: "nat \<Rightarrow> 'f vst \<Rightarrow> u32 option outcome" where
  "argint n s = fetchint (tf_esp (p_tf (cur s)) + 4 + 4 * of_nat n) s"

definition argptr :: "nat \<Rightarrow> int \<Rightarrow> 'f vst \<Rightarrow> addr option outcome" where
  "argptr n sz s =
     bnd (argint n s) (\<lambda>r.
     case r of
       None \<Rightarrow> Ret None
     | Some i \<Rightarrow>
         if sz < 0 \<or> i \<ge> p_sz (cur s) \<or> i + of_int sz > p_sz (cur s) then Ret None else Ret (Some i))"

definition argstr :: "nat \<Rightarrow> 'f vst \<Rightarrow> u8 list option outcome" where
  "argstr n s = bnd (argint n s) (\<lambda>r. case r of None \<Rightarrow> Ret None | Some addr \<Rightarrow> fetchstr addr s)"

definition argfd :: "nat \<Rightarrow> 'f vst \<Rightarrow> (nat \<times> nat) option outcome" where
  "argfd n s =
     bnd (argint n s) (\<lambda>r.
     case r of
       None \<Rightarrow> Ret None
     | Some fd \<Rightarrow>
         if sint fd < 0 \<or> sint fd \<ge> int NOFILE then Ret None
         else Ret (map_option (\<lambda>f. (unat fd, f)) (p_ofile (cur s) ! unat fd)))"

definition fdalloc :: "nat \<Rightarrow> 'f vst \<Rightarrow> nat option \<times> 'f vst" where
  "fdalloc f s =
     (case first_index (\<lambda>x. x = None) (p_ofile (cur s)) of
        None \<Rightarrow> (None, s)
      | Some fd \<Rightarrow> (Some fd, upd_proc (\<lambda>p. p\<lparr>p_ofile := (p_ofile p)[fd := Some f]\<rparr>) s))"

text \<open>The rest of a call with the argument, or -1.\<close>

definition with_arg :: "'x option outcome \<Rightarrow> ('x \<Rightarrow> 's \<Rightarrow> (int \<times> 's) outcome) \<Rightarrow> 's \<Rightarrow> (int \<times> 's) outcome" where
  "with_arg m f s = bnd m (\<lambda>r. case r of None \<Rightarrow> Ret (-1, s) | Some x \<Rightarrow> f x s)"

section \<open>Calls on open files\<close>

definition sys_dup :: "'a files_scheme vst \<Rightarrow> (int \<times> 'a files_scheme vst) outcome" where
  "sys_dup s =
     with_arg (argfd 0 s) (\<lambda>(_, f) s.
       case fdalloc f s of
         (None, s) \<Rightarrow> Ret (-1, s)
       | (Some fd, s) \<Rightarrow> bnd (filedup f s) (\<lambda>(_, s). Ret (int fd, s))) s"

definition sys_read :: "'a files_scheme devsw \<Rightarrow> 'a files_scheme vst \<Rightarrow> (int \<times> 'a files_scheme vst) outcome" where
  "sys_read dv s =
     with_arg (argfd 0 s) (\<lambda>(_, f) s.
     with_arg (argint 2 s) (\<lambda>n s.
     with_arg (argptr 1 (sint n) s) (\<lambda>p s.
       bnd (fileread dv f (sint n) s) (\<lambda>(r, bytes, s).
       bnd (user_write p bytes s) (\<lambda>s. Ret (r, s)))) s) s) s"

text \<open>The bytes are read only where they are written: the file has to be writable.\<close>

definition sys_write :: "'a files_scheme devsw \<Rightarrow> 'a files_scheme vst \<Rightarrow> (int \<times> 'a files_scheme vst) outcome" where
  "sys_write dv s =
     with_arg (argfd 0 s) (\<lambda>(_, f) s.
     with_arg (argint 2 s) (\<lambda>n s.
     with_arg (argptr 1 (sint n) s) (\<lambda>p s.
       bnd (if f_writable (the_file f s) then user_read p (unat n) s else Ret []) (\<lambda>bytes.
       filewrite dv f bytes s)) s) s) s"

definition sys_close :: "'a files_scheme vst \<Rightarrow> (int \<times> 'a files_scheme vst) outcome" where
  "sys_close s =
     with_arg (argfd 0 s) (\<lambda>(fd, f) s.
       bnd (fileclose f (upd_proc (\<lambda>p. p\<lparr>p_ofile := (p_ofile p)[fd := None]\<rparr>) s)) (\<lambda>s. Ret (0, s))) s"

definition half_bytes :: "u16 \<Rightarrow> u8 list" where
  "half_bytes w = [ucast w, ucast (drop_bit 8 w)]"

text \<open>\<open>struct stat\<close> in memory: two bytes of padding follow the type and the number of links.\<close>

definition stat_fields :: "addr \<Rightarrow> stat \<Rightarrow> (addr \<times> u8 list) list" where
  "stat_fields p x =
     [(p, half_bytes (st_type x)), (p + 4, word_bytes (st_dev x)), (p + 8, word_bytes (st_ino x)),
      (p + 12, half_bytes (st_nlink x)), (p + 16, word_bytes (st_size x))]"

definition sys_fstat :: "'a files_scheme vst \<Rightarrow> (int \<times> 'a files_scheme vst) outcome" where
  "sys_fstat s =
     with_arg (argfd 0 s) (\<lambda>(_, f) s.
     with_arg (argptr 1 20 s) (\<lambda>p s.
       bnd (filestat f s) (\<lambda>(sto, s).
       case sto of
         None \<Rightarrow> Ret (-1, s)
       | Some x \<Rightarrow> bnd (for_each (\<lambda>(a, bs). user_write a bs) (stat_fields p x) s) (\<lambda>s. Ret (0, s)))) s) s"

section \<open>Calls on paths\<close>

text \<open>The body of \<open>sys_link\<close>, within a transaction; \<open>bad\<close> takes the new link back.\<close>

definition link_bad :: "nat \<Rightarrow> 'a fs_scheme \<Rightarrow> (int \<times> 'a fs_scheme) outcome" where
  "link_bad ip s =
     bnd (ilock (Some ip) s) (\<lambda>s.
     bnd (set_nlink ip (\<lambda>n. n - 1) s) (\<lambda>s.
     bnd (iunlockput ip s) (\<lambda>s.
     bnd (end_op s) (\<lambda>s. Ret (-1, s)))))"

definition link_new :: "'a fs_scheme devsw \<Rightarrow> u8 list \<Rightarrow> nat \<Rightarrow> 'a fs_scheme \<Rightarrow> (int \<times> 'a fs_scheme) outcome" where
  "link_new dv new ip s =
     bnd (nameiparent dv new s) (\<lambda>(dpo, name, s).
     case dpo of
       None \<Rightarrow> link_bad ip s
     | Some dp \<Rightarrow>
         bnd (ilock (Some dp) s) (\<lambda>s.
         bnd (if i_dev (icache s ! dp) \<noteq> i_dev (icache s ! ip) then Ret (-1, s)
              else dirlink dv dp name (i_inum (icache s ! ip)) s) (\<lambda>(r, s).
         if r < 0 then bnd (iunlockput dp s) (link_bad ip)
         else
           bnd (iunlockput dp s) (\<lambda>s.
           bnd (iput ip s) (\<lambda>s.
           bnd (end_op s) (\<lambda>s. Ret (0, s)))))))"

definition link_paths :: "'a fs_scheme devsw \<Rightarrow> u8 list \<Rightarrow> u8 list \<Rightarrow> 'a fs_scheme \<Rightarrow> (int \<times> 'a fs_scheme) outcome" where
  "link_paths dv old new s =
     bnd (begin_op s) (\<lambda>s.
     bnd (namei dv old s) (\<lambda>(ipo, s).
     case ipo of
       None \<Rightarrow> bnd (end_op s) (\<lambda>s. Ret (-1, s))
     | Some ip \<Rightarrow>
         bnd (ilock (Some ip) s) (\<lambda>s.
         if i_type (icache s ! ip) = T_DIR
         then bnd (iunlockput ip s) (\<lambda>s. bnd (end_op s) (\<lambda>s. Ret (-1, s)))
         else
           bnd (set_nlink ip (\<lambda>n. n + 1) s) (\<lambda>s.
           bnd (iunlock (Some ip) s) (link_new dv new ip)))))"

definition sys_link :: "'a files_scheme devsw \<Rightarrow> 'a files_scheme vst \<Rightarrow> (int \<times> 'a files_scheme vst) outcome" where
  "sys_link dv s =
     with_arg (argstr 0 s) (\<lambda>old s.
     with_arg (argstr 1 s) (\<lambda>new s. on_fsr (link_paths dv old new) s) s) s"

definition sys_unlink :: "'a files_scheme devsw \<Rightarrow> 'a files_scheme vst \<Rightarrow> (int \<times> 'a files_scheme vst) outcome" where
  "sys_unlink dv s = with_arg (argstr 0 s) (\<lambda>path s. on_fsr (unlink_path dv path) s) s"

definition O_RDONLY :: u32 where "O_RDONLY = 0x000"
definition O_WRONLY :: u32 where "O_WRONLY = 0x001"
definition O_RDWR :: u32 where "O_RDWR = 0x002"
definition O_CREATE :: u32 where "O_CREATE = 0x200"

text \<open>The inode to open, locked; nothing where the code ends the transaction and returns -1.\<close>

definition open_inode :: "'a fs_scheme devsw \<Rightarrow> u8 list \<Rightarrow> u32 \<Rightarrow> 'a fs_scheme \<Rightarrow> (nat option \<times> 'a fs_scheme) outcome" where
  "open_inode dv path omode s =
     bnd (begin_op s) (\<lambda>s.
     if omode AND O_CREATE \<noteq> 0
     then
       bnd (create dv path T_FILE 0 0 s) (\<lambda>(ipo, s).
       case ipo of None \<Rightarrow> bnd (end_op s) (\<lambda>s. Ret (None, s)) | Some ip \<Rightarrow> Ret (Some ip, s))
     else
       bnd (namei dv path s) (\<lambda>(ipo, s).
       case ipo of
         None \<Rightarrow> bnd (end_op s) (\<lambda>s. Ret (None, s))
       | Some ip \<Rightarrow>
           bnd (ilock (Some ip) s) (\<lambda>s.
           if i_type (icache s ! ip) = T_DIR \<and> omode \<noteq> O_RDONLY
           then bnd (iunlockput ip s) (\<lambda>s. bnd (end_op s) (\<lambda>s. Ret (None, s)))
           else Ret (Some ip, s))))"

definition open_fail :: "nat \<Rightarrow> 'a files_scheme vst \<Rightarrow> (int \<times> 'a files_scheme vst) outcome" where
  "open_fail ip s = bnd (on_fs (\<lambda>t. bnd (iunlockput ip t) end_op) s) (\<lambda>s. Ret (-1, s))"

definition sys_open :: "'a files_scheme devsw \<Rightarrow> 'a files_scheme vst \<Rightarrow> (int \<times> 'a files_scheme vst) outcome" where
  "sys_open dv s =
     with_arg (argstr 0 s) (\<lambda>path s.
     with_arg (argint 1 s) (\<lambda>omode s.
       bnd (on_fsr (open_inode dv path omode) s) (\<lambda>(ipo, s).
       case ipo of
         None \<Rightarrow> Ret (-1, s)
       | Some ip \<Rightarrow>
           (case filealloc s of
              (None, s) \<Rightarrow> open_fail ip s
            | (Some f, s) \<Rightarrow>
                (case fdalloc f s of
                   (None, s) \<Rightarrow> bnd (fileclose f s) (open_fail ip)
                 | (Some fd, s) \<Rightarrow>
                     bnd (on_fs (\<lambda>t. bnd (iunlock (Some ip) t) end_op) s) (\<lambda>s.
                     Ret (int fd, upd_file f (\<lambda>x. x\<lparr>f_type := FD_INODE, f_ip := Some ip, f_off := 0,
                       f_readable := omode AND O_WRONLY = 0,
                       f_writable := omode AND O_WRONLY \<noteq> 0 \<or> omode AND O_RDWR \<noteq> 0\<rparr>) s)))))) s) s"

text \<open>\<open>create\<close> within a transaction, for \<open>sys_mkdir\<close> and \<open>sys_mknod\<close>, whose arguments are fetched inside of it.\<close>

definition create_op :: "'a fs_scheme devsw \<Rightarrow> (u8 list \<times> u16 \<times> u16 \<times> u16) option \<Rightarrow> 'a fs_scheme \<Rightarrow> (int \<times> 'a fs_scheme) outcome" where
  "create_op dv args s =
     (case args of
        None \<Rightarrow> bnd (end_op s) (\<lambda>s. Ret (-1, s))
      | Some (path, type, major, minor) \<Rightarrow>
          bnd (create dv path type major minor s) (\<lambda>(ipo, s).
          case ipo of
            None \<Rightarrow> bnd (end_op s) (\<lambda>s. Ret (-1, s))
          | Some ip \<Rightarrow> bnd (iunlockput ip s) (\<lambda>s. bnd (end_op s) (\<lambda>s. Ret (0, s)))))"

definition sys_mkdir :: "'a files_scheme devsw \<Rightarrow> 'a files_scheme vst \<Rightarrow> (int \<times> 'a files_scheme vst) outcome" where
  "sys_mkdir dv s =
     bnd (on_fs begin_op s) (\<lambda>s.
     bnd (argstr 0 s) (\<lambda>po.
     on_fsr (create_op dv (map_option (\<lambda>path. (path, T_DIR, 0, 0)) po)) s))"

definition sys_mknod :: "'a files_scheme devsw \<Rightarrow> 'a files_scheme vst \<Rightarrow> (int \<times> 'a files_scheme vst) outcome" where
  "sys_mknod dv s =
     bnd (on_fs begin_op s) (\<lambda>s.
     bnd (argstr 0 s) (\<lambda>po.
     case po of
       None \<Rightarrow> on_fsr (create_op dv None) s
     | Some path \<Rightarrow>
         bnd (argint 1 s) (\<lambda>majo.
         case majo of
           None \<Rightarrow> on_fsr (create_op dv None) s
         | Some major \<Rightarrow>
             bnd (argint 2 s) (\<lambda>mino.
             on_fsr (create_op dv (map_option (\<lambda>minor. (path, T_DEV, ucast major, ucast minor)) mino)) s))))"

text \<open>The directory to change to, unlocked, once the old one has been released.\<close>

definition chdir_path :: "'a fs_scheme devsw \<Rightarrow> u8 list \<Rightarrow> 'a fs_scheme \<Rightarrow> (nat option \<times> 'a fs_scheme) outcome" where
  "chdir_path dv path s =
     bnd (namei dv path s) (\<lambda>(ipo, s).
     case ipo of
       None \<Rightarrow> bnd (end_op s) (\<lambda>s. Ret (None, s))
     | Some ip \<Rightarrow>
         bnd (ilock (Some ip) s) (\<lambda>s.
         if i_type (icache s ! ip) \<noteq> T_DIR
         then bnd (iunlockput ip s) (\<lambda>s. bnd (end_op s) (\<lambda>s. Ret (None, s)))
         else
           bnd (iunlock (Some ip) s) (\<lambda>s.
           case my_cwd s of
             None \<Rightarrow> Fault
           | Some cwd \<Rightarrow> bnd (iput cwd s) (\<lambda>s. bnd (end_op s) (\<lambda>s. Ret (Some ip, s))))))"

definition sys_chdir :: "'a files_scheme devsw \<Rightarrow> 'a files_scheme vst \<Rightarrow> (int \<times> 'a files_scheme vst) outcome" where
  "sys_chdir dv s =
     bnd (on_fs begin_op s) (\<lambda>s.
     bnd (argstr 0 s) (\<lambda>po.
     case po of
       None \<Rightarrow> bnd (on_fs end_op s) (\<lambda>s. Ret (-1, s))
     | Some path \<Rightarrow>
         bnd (on_fsr (chdir_path dv path) s) (\<lambda>(ipo, s).
         case ipo of
           None \<Rightarrow> Ret (-1, s)
         | Some ip \<Rightarrow> Ret (0, upd_proc (\<lambda>p. p\<lparr>p_cwd := Some ip\<rparr>) s))))"

text \<open>The arguments of \<open>sys_exec\<close>, with the number of places of \<open>argv\<close> that are left.\<close>

fun fetch_argv :: "nat \<Rightarrow> addr \<Rightarrow> 'f vst \<Rightarrow> u8 list list option outcome" where
  "fetch_argv 0 uargv s = Ret None"
| "fetch_argv (Suc n) uargv s =
     bnd (fetchint uargv s) (\<lambda>r.
     case r of
       None \<Rightarrow> Ret None
     | Some uarg \<Rightarrow>
         if uarg = 0 then Ret (Some [])
         else
           bnd (fetchstr uarg s) (\<lambda>a.
           case a of
             None \<Rightarrow> Ret None
           | Some arg \<Rightarrow> bnd (fetch_argv n (uargv + 4) s) (\<lambda>rest. Ret (map_option (\<lambda>as. arg # as) rest))))"

definition sys_exec :: "'a execs_scheme config \<Rightarrow> 'a execs_scheme vst \<Rightarrow> (int \<times> 'a execs_scheme vst) outcome" where
  "sys_exec cf s =
     with_arg (argstr 0 s) (\<lambda>path s.
     with_arg (argint 1 s) (\<lambda>uargv s.
     with_arg (fetch_argv MAXARG uargv s) (\<lambda>argv s. exec (cf_dv cf) (cf_sel cf) (cf_data cf) path argv s) s) s) s"

definition close_both :: "nat \<Rightarrow> nat \<Rightarrow> 'a files_scheme vst \<Rightarrow> (int \<times> 'a files_scheme vst) outcome" where
  "close_both rd wr s = bnd (fileclose rd s) (\<lambda>s. bnd (fileclose wr s) (\<lambda>s. Ret (-1, s)))"

definition sys_pipe :: "'a files_scheme vst \<Rightarrow> (int \<times> 'a files_scheme vst) outcome" where
  "sys_pipe s =
     with_arg (argptr 0 8 s) (\<lambda>fd s.
       bnd (pipealloc s) (\<lambda>(r, s).
       case r of
         None \<Rightarrow> Ret (-1, s)
       | Some (rd, wr) \<Rightarrow>
           (case fdalloc rd s of
              (None, s) \<Rightarrow> close_both rd wr s
            | (Some fd0, s) \<Rightarrow>
                (case fdalloc wr s of
                   (None, s) \<Rightarrow> close_both rd wr (upd_proc (\<lambda>p. p\<lparr>p_ofile := (p_ofile p)[fd0 := None]\<rparr>) s)
                 | (Some fd1, s) \<Rightarrow>
                     bnd (user_write fd (word_bytes (of_nat fd0)) s) (\<lambda>s.
                     bnd (user_write (fd + 4) (word_bytes (of_nat fd1)) s) (\<lambda>s. Ret (0, s))))))) s"

section \<open>Calls on processes\<close>

definition sys_kill :: "'f kernel \<Rightarrow> (int \<times> 'f kernel) outcome" where
  "sys_kill k = with_arg (argint 0 (vm_of (me k) k)) (\<lambda>pid k. Ret (kill (sint pid) k)) k"

definition sys_sbrk :: "'a execs_scheme config \<Rightarrow> 'a execs_scheme vst \<Rightarrow> (int \<times> 'a execs_scheme vst) outcome" where
  "sys_sbrk cf s =
     with_arg (argint 0 s) (\<lambda>n s.
       let addr = p_sz (cur s) in
       bnd (growproc cf (sint n) s) (\<lambda>(r, s). if r < 0 then Ret (-1, s) else Ret (sint addr, s))) s"

text \<open>
  \<open>sys_sleep\<close>: \<open>ticks - ticks0\<close> is compared unsigned with \<open>n\<close>. At first \<open>ticks\<close> is \<open>ticks0\<close>, so that the
  call returns at once or the process sleeps until the timer wakes it.
\<close>

definition sleep_over :: "u32 \<Rightarrow> u32 \<Rightarrow> u32 \<Rightarrow> bool" where
  "sleep_over ticks0 now n \<longleftrightarrow> \<not> now - ticks0 < n"

definition sys_sleep :: "'f kernel \<Rightarrow> (int \<times> 'f kernel) outcome" where
  "sys_sleep k =
     with_arg (argint 0 (vm_of (me k) k)) (\<lambda>n k.
       if sleep_over (ticks k) (ticks k) n then Ret (0, k)
       else if p_killed (curproc k) then Ret (-1, k)
       else Hang) k"

definition sys_uptime :: "'f kernel \<Rightarrow> (int \<times> 'f kernel) outcome" where
  "sys_uptime k = Ret (sint (ticks k), k)"

definition sys_getpid :: "'f vst \<Rightarrow> (int \<times> 'f vst) outcome" where
  "sys_getpid s = Ret (p_pid (cur s), s)"

definition sys_getNumberOfFreePages :: "'f vst \<Rightarrow> (int \<times> 'f vst) outcome" where
  "sys_getNumberOfFreePages s = (case getNumOfFreePages (vk s) of None \<Rightarrow> Hang | Some n \<Rightarrow> Ret (int n, s))"

definition sys_getNumRefs :: "'f vst \<Rightarrow> (int \<times> 'f vst) outcome" where
  "sys_getNumRefs s =
     with_arg (argint 0 s) (\<lambda>i s.
       if sint i < 0 then Fault else bnd (getNumRefsWarpper (unat i) s) (\<lambda>r. Ret (sint r, s))) s"

section \<open>Dispatch\<close>

text \<open>What a call ends in: a number for the caller, or the caller's end.\<close>

datatype 'k call_end = Returns int 'k | Exits 'k

definition returns_vm :: "nat \<Rightarrow> ('f vst \<Rightarrow> (int \<times> 'f vst) outcome) \<Rightarrow> 'f kernel \<Rightarrow> 'f kernel call_end outcome" where
  "returns_vm i f k = bnd (on_vmr i f k) (\<lambda>(r, k). Ret (Returns r k))"

definition returns_k :: "('f kernel \<Rightarrow> (int \<times> 'f kernel) outcome) \<Rightarrow> 'f kernel \<Rightarrow> 'f kernel call_end outcome" where
  "returns_k f k = bnd (f k) (\<lambda>(r, k). Ret (Returns r k))"

definition syscalls :: "'a execs_scheme config \<Rightarrow> int \<Rightarrow> ('a execs_scheme kernel \<Rightarrow> 'a execs_scheme kernel call_end outcome) option" where
  "syscalls cf num =
     (let vm = (\<lambda>f. Some (\<lambda>k. returns_vm (me k) f k)); dv = cf_dv cf in
      if num = 1 then Some (returns_k (fork cf))
      else if num = 2 then Some (\<lambda>k. bnd (exit cf k) (\<lambda>k. Ret (Exits k)))
      else if num = 3 then Some (returns_k (wait (cf_sel cf)))
      else if num = 4 then vm sys_pipe
      else if num = 5 then vm (sys_read dv)
      else if num = 6 then Some (returns_k sys_kill)
      else if num = 7 then vm (sys_exec cf)
      else if num = 8 then vm sys_fstat
      else if num = 9 then vm (sys_chdir dv)
      else if num = 10 then vm sys_dup
      else if num = 11 then vm sys_getpid
      else if num = 12 then vm (sys_sbrk cf)
      else if num = 13 then Some (returns_k sys_sleep)
      else if num = 14 then Some (returns_k sys_uptime)
      else if num = 15 then vm (sys_open dv)
      else if num = 16 then vm (sys_write dv)
      else if num = 17 then vm (sys_mknod dv)
      else if num = 18 then vm (sys_unlink dv)
      else if num = 19 then vm (sys_link dv)
      else if num = 20 then vm (sys_mkdir dv)
      else if num = 21 then vm sys_close
      else if num = 23 then vm sys_getNumberOfFreePages
      else if num = 24 then vm sys_getNumRefs
      else None)"

definition set_eax :: "int \<Rightarrow> proc \<Rightarrow> proc" where
  "set_eax r p = p\<lparr>p_tf := (p_tf p)\<lparr>tf_eax := of_int r\<rparr>\<rparr>"

definition syscall :: "'a execs_scheme config \<Rightarrow> 'a execs_scheme kernel \<Rightarrow> 'a execs_scheme kernel call_end outcome" where
  "syscall cf k =
     (case syscalls cf (sint (tf_eax (p_tf (curproc k)))) of
        None \<Rightarrow> Ret (Returns (-1) (upd_p (me k) (set_eax (-1)) k))
      | Some f \<Rightarrow>
          bnd (f k) (\<lambda>e.
          case e of
            Returns r k \<Rightarrow> Ret (Returns r (upd_p (me k) (set_eax r) k))
          | Exits k \<Rightarrow> Ret (Exits k)))"

end
