(* ===== verification/Console.thy ===== *)
theory Console
  imports Proc
begin

text \<open>
  \<^verbatim>\<open>console.c\<close>, \<^verbatim>\<open>kbd.c\<close> and \<^verbatim>\<open>uart.c\<close>: printing to the screen and the serial line, the editing of
  input lines by the interrupt handlers, and reading of lines by processes. The registers and
  the memory of the display are parts of the state, and what the serial line has sent is a list
  of bytes. What the devices deliver is an argument.
\<close>

unbundle bit_operations_syntax

record console = execs +
  in_buf :: "7 word \<Rightarrow> u8"
  in_r :: u32
  in_w :: u32
  in_e :: u32
  crt :: "nat \<Rightarrow> u16"
  crt_pos :: u16
  uart :: bool
  serial :: "u8 list"
  panicked :: bool
  kbd_shift :: u32

section \<open>Output\<close>

definition BACKSPACE :: int where "BACKSPACE = 0x100"

definition uartputc :: "int \<Rightarrow> 'a console_scheme \<Rightarrow> 'a console_scheme" where
  "uartputc c s = (if \<not> uart s then s else s\<lparr>serial := serial s @ [of_int c]\<rparr>)"

definition put_cell :: "int \<Rightarrow> nat \<times> (nat \<Rightarrow> u16) \<Rightarrow> nat \<times> (nat \<Rightarrow> u16)" where
  "put_cell c x =
     (case x of (pos, cells) \<Rightarrow>
        if c = 10 then (pos + (80 - pos mod 80), cells)
        else if c = BACKSPACE then (if pos > 0 then pos - 1 else pos, cells)
        else (pos + 1, cells(pos := (of_int c AND 0xFF) OR 0x0700)))"

definition scroll_up :: "nat \<times> (nat \<Rightarrow> u16) \<Rightarrow> nat \<times> (nat \<Rightarrow> u16)" where
  "scroll_up x =
     (case x of (pos, cells) \<Rightarrow>
        let cells = (\<lambda>i. if i < 23 * 80 then cells (i + 80) else cells i); pos = pos - 80
        in (pos, \<lambda>i. if pos \<le> i \<and> i < 24 * 80 then 0 else cells i))"

definition cgaputc :: "int \<Rightarrow> 'a console_scheme \<Rightarrow> 'a console_scheme outcome" where
  "cgaputc c s =
     (let x = put_cell c (unat (crt_pos s), crt s) in
      if fst x > 25 * 80 then Panic ''pos under/overflow''
      else
        let (pos, cells) = (if fst x div 80 \<ge> 24 then scroll_up x else x)
        in Ret (s\<lparr>crt_pos := of_nat pos, crt := cells(pos := 0x20 OR 0x0700)\<rparr>))"

text \<open>A CPU that prints once another has panicked stops.\<close>

definition consputc :: "int \<Rightarrow> 'a console_scheme \<Rightarrow> 'a console_scheme outcome" where
  "consputc c s =
     (if panicked s then Hang
      else cgaputc c (if c = BACKSPACE then uartputc 8 (uartputc 0x20 (uartputc 8 s)) else uartputc c s))"

text \<open>The digits of a number, in base 10 or 16, and its sign. The least \<^verbatim>\<open>int\<close> cannot be negated.\<close>

definition hex_digit :: "nat \<Rightarrow> int" where
  "hex_digit d = (if d < 10 then int (48 + d) else int (97 + (d - 10)))"

function num_chars :: "nat \<Rightarrow> nat \<Rightarrow> int list" where
  "num_chars x base =
     (if x < base \<or> base < 2 then [hex_digit x] else num_chars (x div base) base @ [hex_digit (x mod base)])"
  by pat_completeness auto
termination
  by (relation "measure fst") auto

declare num_chars.simps [simp del]

definition printint :: "u32 \<Rightarrow> nat \<Rightarrow> bool \<Rightarrow> 'a console_scheme \<Rightarrow> 'a console_scheme outcome" where
  "printint xx base sign s =
     (if sign \<and> xx = 0x80000000 then Fault
      else if sign \<and> sint xx < 0 then for_each consputc (45 # num_chars (unat (- xx)) base) s
      else for_each consputc (num_chars (unat xx) base) s)"

text \<open>The arguments of \<open>cprintf\<close>: numbers and strings, which may be null. Too few or other ones are undefined.\<close>

datatype cp_arg = CNum u32 | CStr "u8 list option"

definition char_codes :: "string \<Rightarrow> u8 list" where
  "char_codes = map (\<lambda>c. of_nat (of_char c))"

fun cprintf :: "u8 list \<Rightarrow> cp_arg list \<Rightarrow> 'a console_scheme \<Rightarrow> 'a console_scheme outcome" where
  "cprintf [] args s = Ret s"
| "cprintf [c] args s = (if c = 0x25 then Ret s else consputc (uint c) s)"
| "cprintf (c # d # fmt) args s =
     (if c \<noteq> 0x25 then bnd (consputc (uint c) s) (cprintf (d # fmt) args)
      else if d = 0x64
      then (case args of CNum x # args \<Rightarrow> bnd (printint x 10 True s) (cprintf fmt args) | _ \<Rightarrow> Fault)
      else if d = 0x78 \<or> d = 0x70
      then (case args of CNum x # args \<Rightarrow> bnd (printint x 16 False s) (cprintf fmt args) | _ \<Rightarrow> Fault)
      else if d = 0x73
      then (case args of
              CStr str # args \<Rightarrow>
                bnd (for_each consputc (map sint (case str of None \<Rightarrow> char_codes ''(null)'' | Some cs \<Rightarrow> cs)) s)
                  (cprintf fmt args)
            | _ \<Rightarrow> Fault)
      else if d = 0x25 then bnd (consputc 0x25 s) (cprintf fmt args)
      else bnd (consputc 0x25 s) (\<lambda>s. bnd (consputc (uint d) s) (cprintf fmt args)))"

definition cprint :: "string \<Rightarrow> cp_arg list \<Rightarrow> 'a console_scheme \<Rightarrow> 'a console_scheme outcome" where
  "cprint fmt args s = cprintf (char_codes fmt) args s"

text \<open>
  \<open>panic\<close> prints the message and the callers, and stops; this is the state the other CPUs see. The
  message is itself a format.
\<close>

definition panic :: "u32 \<Rightarrow> u8 list \<Rightarrow> u32 list \<Rightarrow> 'a console_scheme \<Rightarrow> 'a console_scheme outcome" where
  "panic lapicid msg pcs s =
     bnd (cprint ''lapicid %d: panic: '' [CNum lapicid] s) (\<lambda>s.
     bnd (cprintf msg [] s) (\<lambda>s.
     bnd (cprintf [10] [] s) (\<lambda>s.
     bnd (for_each (\<lambda>pc. cprint '' %p'' [CNum pc]) pcs s) (\<lambda>s.
     Ret (s\<lparr>panicked := True\<rparr>)))))"

section \<open>Editing of input lines\<close>

definition INPUT_BUF :: u32 where "INPUT_BUF = 128"

definition in_at :: "u32 \<Rightarrow> 'a console_scheme \<Rightarrow> u8" where
  "in_at i s = in_buf s (ucast i)"

lemma consputc_input:
  "consputc c s = Ret t \<Longrightarrow>
     in_buf t = in_buf s \<and> in_r t = in_r s \<and> in_w t = in_w s \<and> in_e t = in_e s \<and> kbd_shift t = kbd_shift s \<and>
     panicked t = panicked s \<and> uart t = uart s"
  by (auto simp: consputc_def cgaputc_def uartputc_def Let_def split: if_splits prod.splits)

function kill_line :: "'a console_scheme \<Rightarrow> 'a console_scheme outcome" where
  "kill_line s =
     (if in_e s \<noteq> in_w s \<and> in_at (in_e s - 1) s \<noteq> 10
      then bnd (consputc BACKSPACE (s\<lparr>in_e := in_e s - 1\<rparr>)) kill_line
      else Ret s)"
  by pat_completeness auto
termination
proof (relation "measure (\<lambda>s. unat (in_e s - in_w s))", simp, goal_cases)
  case (1 s t)
  then have t: "in_e t - in_w t = in_e s - in_w s - 1" by (auto dest: consputc_input)
  from 1 have nz: "in_e s - in_w s \<noteq> 0" by simp
  have "unat (in_e s - in_w s - 1) < unat (in_e s - in_w s)"
    using unat_minus_one [OF nz] nz by (simp add: unat_eq_0 [symmetric] del: unat_eq_0)
  then show ?case by (simp only: t in_measure)
qed

declare kill_line.simps [simp del]

definition rub_out :: "'a console_scheme \<Rightarrow> 'a console_scheme outcome" where
  "rub_out s = (if in_e s \<noteq> in_w s then consputc BACKSPACE (s\<lparr>in_e := in_e s - 1\<rparr>) else Ret s)"

text \<open>Whether readers are to be woken is a part of the result.\<close>

definition type_char :: "int \<Rightarrow> 'a console_scheme \<Rightarrow> (bool \<times> 'a console_scheme) outcome" where
  "type_char c s =
     (if c \<noteq> 0 \<and> in_e s - in_r s < INPUT_BUF
      then
        let c = (if c = 13 then 10 else c);
            s = s\<lparr>in_buf := (in_buf s)(ucast (in_e s) := of_int c), in_e := in_e s + 1\<rparr>
        in bnd (consputc c s) (\<lambda>s.
           if c = 10 \<or> c = 4 \<or> in_e s = in_r s + INPUT_BUF then Ret (True, s\<lparr>in_w := in_e s\<rparr>) else Ret (False, s))
      else Ret (False, s))"

definition quiet :: "'s outcome \<Rightarrow> (bool \<times> 's) outcome" where
  "quiet m = bnd m (\<lambda>s. Ret (False, s))"

definition console_char :: "int \<Rightarrow> 'a console_scheme \<Rightarrow> (bool \<times> 'a console_scheme) outcome" where
  "console_char c s =
     (if c = 16 then Ret (False, s)
      else if c = 21 then quiet (kill_line s)
      else if c = 8 \<or> c = 0x7F then quiet (rub_out s)
      else type_char c s)"

text \<open>
  \<open>consoleintr\<close> with the characters the device delivers before it has none; \<open>chan\<close> is the address of
  \<open>input.r\<close> and \<open>dump\<close> is \<open>procdump\<close>.
\<close>

fun console_chars :: "addr \<Rightarrow> int list \<Rightarrow> 'a console_scheme kernel \<Rightarrow> 'a console_scheme kernel outcome" where
  "console_chars chan [] k = Ret k"
| "console_chars chan (c # cs) k =
     bnd (console_char c (k_sw k)) (\<lambda>(wake, s).
     let k = k\<lparr>k_sw := s\<rparr> in console_chars chan cs (if wake then wakeup chan k else k))"

definition state_name :: "procstate \<Rightarrow> string" where
  "state_name x =
     (case x of UNUSED \<Rightarrow> ''unused'' | EMBRYO \<Rightarrow> ''embryo'' | SLEEPING \<Rightarrow> ''sleep '' | RUNNABLE \<Rightarrow> ''runble''
        | RUNNING \<Rightarrow> ''run   '' | ZOMBIE \<Rightarrow> ''zombie'')"

text \<open>
  \<open>ebp\<close> has the frame pointers that \<open>swtch\<close> saved for the processes, and \<open>initial\<close> is
  \<open>initialNumOfFreePages\<close>.
\<close>

definition dump_proc :: "(nat \<Rightarrow> addr) \<Rightarrow> u32 \<Rightarrow> nat \<Rightarrow> 'a console_scheme kernel \<Rightarrow> 'a console_scheme kernel outcome" where
  "dump_proc ebp initial i k =
     (let p = proc_at i k in
      if p_state p = UNUSED then Ret k
      else
        bnd (cprintf (char_codes ''<pid: %d> <state: %s> <name: %s> <num_ram: %d> <num swap: %d> <page faults: %d> <total paged out: %d>'' @ [10])
               [CNum (of_int (p_pid p)), CStr (Some (char_codes (state_name (p_state p)))), CStr (Some (char_codes (p_name p))),
                CNum (of_int (num_ram p)), CNum (of_int (num_swap p)), CNum (totalPgfltCount p), CNum (totalPgoutCount p)]
               (k_sw k)) (\<lambda>s.
        bnd (if p_state p = SLEEPING
             then for_each (\<lambda>pc. cprint '' %p'' [CNum pc])
               (takeWhile (\<lambda>pc. pc \<noteq> 0) (getcallerpcs (load32 (mem (k_vk k))) (ebp i + 8))) s
             else Ret s) (\<lambda>s.
        case getNumOfFreePages (k_vk k) of
          None \<Rightarrow> Hang
        | Some n \<Rightarrow>
            bnd (cprintf (10 # char_codes ''<%d / %d>'') [CNum (of_nat n), CNum initial] s) (\<lambda>s.
            bnd (cprintf [10] [] s) (\<lambda>s. Ret (k\<lparr>k_sw := s\<rparr>))))))"

definition procdump :: "(nat \<Rightarrow> addr) \<Rightarrow> u32 \<Rightarrow> 'a console_scheme kernel \<Rightarrow> 'a console_scheme kernel outcome" where
  "procdump ebp initial k = for_each (dump_proc ebp initial) [0..<NPROC] k"

definition consoleintr :: "('a console_scheme kernel \<Rightarrow> 'a console_scheme kernel outcome) \<Rightarrow> addr \<Rightarrow> int list \<Rightarrow> 'a console_scheme kernel \<Rightarrow> 'a console_scheme kernel outcome" where
  "consoleintr dump chan cs k =
     bnd (console_chars chan cs k) (\<lambda>k. if 16 \<in> set cs then dump k else Ret k)"

section \<open>Reading and writing\<close>

text \<open>
  The loop of \<open>consoleread\<close>, with the number of bytes read so far: the bytes, and whether it returned -1.
  A process that has to wait for input sleeps.
\<close>

fun read_line :: "bool \<Rightarrow> nat \<Rightarrow> nat \<Rightarrow> 'a console_scheme \<Rightarrow> (bool \<times> u8 list \<times> 'a console_scheme) outcome" where
  "read_line killed got 0 s = Ret (True, [], s)"
| "read_line killed got (Suc n) s =
     (if in_r s = in_w s then (if killed then Ret (False, [], s) else Hang)
      else
        let c = in_at (in_r s) s; s' = s\<lparr>in_r := in_r s + 1\<rparr> in
        if c = 4 then Ret (True, [], if got > 0 then s else s')
        else if c = 10 then Ret (True, [c], s')
        else bnd (read_line killed (Suc got) n s') (\<lambda>(ok, cs, s). Ret (ok, c # cs, s)))"

definition consoleread :: "nat \<Rightarrow> u32 \<Rightarrow> 'a console_scheme \<Rightarrow> (int \<times> u8 list \<times> 'a console_scheme) outcome" where
  "consoleread ip n s =
     bnd (iunlock (Some ip) s) (\<lambda>s.
     bnd (read_line (my_killed s) 0 (nat (sint n)) s) (\<lambda>(ok, bytes, s).
     bnd (ilock (Some ip) s) (\<lambda>s.
     Ret (if ok then int (length bytes) else -1, bytes, s))))"

definition consolewrite :: "nat \<Rightarrow> u8 list \<Rightarrow> 'a console_scheme \<Rightarrow> (int \<times> 'a console_scheme) outcome" where
  "consolewrite ip bytes s =
     bnd (iunlock (Some ip) s) (\<lambda>s.
     bnd (for_each consputc (map uint bytes) s) (\<lambda>s.
     bnd (ilock (Some ip) s) (\<lambda>s. Ret (int (length bytes), s))))"

definition CONSOLE :: nat where "CONSOLE = 1"

definition consoleinit :: "'a console_scheme devsw \<Rightarrow> 'a console_scheme devsw" where
  "consoleinit dv = dv\<lparr>dev_read := (dev_read dv)(CONSOLE := Some consoleread), dev_write := (dev_write dv)(CONSOLE := Some consolewrite)\<rparr>"

section \<open>The serial line\<close>

definition uartinit :: "u8 \<Rightarrow> 'a console_scheme \<Rightarrow> 'a console_scheme" where
  "uartinit status s =
     (if status = 0xFF then s else fold uartputc (map uint (char_codes ''xv6...'') @ [10]) (s\<lparr>uart := True\<rparr>))"

text \<open>The bytes that have arrived; there are none without a serial port.\<close>

definition uartintr :: "('a console_scheme kernel \<Rightarrow> 'a console_scheme kernel outcome) \<Rightarrow> addr \<Rightarrow> u8 list \<Rightarrow> 'a console_scheme kernel \<Rightarrow> 'a console_scheme kernel outcome" where
  "uartintr dump chan bytes k = consoleintr dump chan (if uart (k_sw k) then map uint bytes else []) k"

section \<open>The keyboard\<close>

definition KBD_SHIFT :: u32 where "KBD_SHIFT = 1"
definition KBD_CTL :: u32 where "KBD_CTL = 2"
definition KBD_ALT :: u32 where "KBD_ALT = 4"
definition CAPSLOCK :: u32 where "CAPSLOCK = 8"
definition NUMLOCK :: u32 where "NUMLOCK = 16"
definition SCROLLLOCK :: u32 where "SCROLLLOCK = 32"
definition E0ESC :: u32 where "E0ESC = 64"

definition shiftcode :: "u8 \<Rightarrow> u32" where
  "shiftcode d =
     (if d = 0x1D \<or> d = 0x9D then KBD_CTL else if d = 0x2A \<or> d = 0x36 then KBD_SHIFT
      else if d = 0x38 \<or> d = 0xB8 then KBD_ALT else 0)"

definition togglecode :: "u8 \<Rightarrow> u32" where
  "togglecode d = (if d = 0x3A then CAPSLOCK else if d = 0x45 then NUMLOCK else if d = 0x46 then SCROLLLOCK else 0)"

definition normalmap_low :: "u8 list" where
  "normalmap_low =
     [0, 27, 49, 50, 51, 52, 53, 54, 55, 56, 57, 48, 45, 61, 8, 9,
      113, 119, 101, 114, 116, 121, 117, 105, 111, 112, 91, 93, 10, 0, 97, 115,
      100, 102, 103, 104, 106, 107, 108, 59, 39, 96, 0, 92, 122, 120, 99, 118,
      98, 110, 109, 44, 46, 47, 0, 42, 0, 32, 0, 0, 0, 0, 0, 0,
      0, 0, 0, 0, 0, 0, 0, 55, 56, 57, 45, 52, 53, 54, 43, 49,
      50, 51, 48, 46, 0, 0, 0, 0]"

definition shiftmap_low :: "u8 list" where
  "shiftmap_low =
     [0, 27, 33, 64, 35, 36, 37, 94, 38, 42, 40, 41, 95, 43, 8, 9,
      81, 87, 69, 82, 84, 89, 85, 73, 79, 80, 123, 125, 10, 0, 65, 83,
      68, 70, 71, 72, 74, 75, 76, 58, 34, 126, 0, 124, 90, 88, 67, 86,
      66, 78, 77, 60, 62, 63, 0, 42, 0, 32, 0, 0, 0, 0, 0, 0,
      0, 0, 0, 0, 0, 0, 0, 55, 56, 57, 45, 52, 53, 54, 43, 49,
      50, 51, 48, 46, 0, 0, 0, 0]"

definition ctlmap_low :: "u8 list" where
  "ctlmap_low =
     [0, 0, 0, 0, 0, 0, 0, 0, 0, 0, 0, 0, 0, 0, 0, 0,
      17, 23, 5, 18, 20, 25, 21, 9, 15, 16, 0, 0, 13, 0, 1, 19,
      4, 6, 7, 8, 10, 11, 12, 0, 0, 0, 0, 28, 26, 24, 3, 22,
      2, 14, 13, 0, 0, 239, 0, 0]"

text \<open>The keys whose codes are the same in all the maps.\<close>

definition special_key :: "u8 \<Rightarrow> u8" where
  "special_key d =
     (if d = 0xC8 then 0xE2 else if d = 0xD0 then 0xE3 else if d = 0xC9 then 0xE6 else if d = 0xD1 then 0xE7
      else if d = 0xCB then 0xE4 else if d = 0xCD then 0xE5 else if d = 0x97 then 0xE0 else if d = 0xCF then 0xE1
      else if d = 0xD2 then 0xE8 else if d = 0xD3 then 0xE9 else 0)"

definition key_map :: "u8 list \<Rightarrow> u8 \<Rightarrow> u8 \<Rightarrow> u8 \<Rightarrow> u8" where
  "key_map low enter kp_div d =
     (if unat d < length low then low ! unat d else if d = 0x9C then enter else if d = 0xB5 then kp_div else special_key d)"

definition normalmap :: "u8 \<Rightarrow> u8" where "normalmap = key_map normalmap_low 10 47"
definition shiftmap :: "u8 \<Rightarrow> u8" where "shiftmap = key_map shiftmap_low 10 47"
definition ctlmap :: "u8 \<Rightarrow> u8" where "ctlmap = key_map ctlmap_low 13 239"

text \<open>\<open>kbdgetc\<close> with a byte of the keyboard: the character, or 0, and the new state of the sh keys.\<close>

definition kbdgetc :: "u8 \<Rightarrow> u32 \<Rightarrow> int \<times> u32" where
  "kbdgetc data sh =
     (if data = 0xE0 then (0, sh OR E0ESC)
      else if data AND 0x80 \<noteq> 0
      then
        let data = (if sh AND E0ESC \<noteq> 0 then data else data AND 0x7F)
        in (0, sh AND NOT (shiftcode data OR E0ESC))
      else
        let (data, sh) = (if sh AND E0ESC \<noteq> 0 then (data OR 0x80, sh AND NOT E0ESC) else (data, sh));
            sh = (sh OR shiftcode data) XOR togglecode data;
            c = (if sh AND KBD_CTL \<noteq> 0 then ctlmap data else if sh AND KBD_SHIFT \<noteq> 0 then shiftmap data else normalmap data);
            c = (if sh AND CAPSLOCK = 0 then c
                 else if 97 \<le> c \<and> c \<le> 122 then c - 32 else if 65 \<le> c \<and> c \<le> 90 then c + 32 else c)
        in (uint c, sh))"

fun kbd_chars :: "u8 list \<Rightarrow> u32 \<Rightarrow> int list \<times> u32" where
  "kbd_chars [] sh = ([], sh)"
| "kbd_chars (d # ds) sh = (let (c, sh) = kbdgetc d sh; (cs, sh) = kbd_chars ds sh in (c # cs, sh))"

definition kbdintr :: "('a console_scheme kernel \<Rightarrow> 'a console_scheme kernel outcome) \<Rightarrow> addr \<Rightarrow> u8 list \<Rightarrow> 'a console_scheme kernel \<Rightarrow> 'a console_scheme kernel outcome" where
  "kbdintr dump chan bytes k =
     (let (cs, sh) = kbd_chars bytes (kbd_shift (k_sw k))
      in consoleintr dump chan cs (k\<lparr>k_sw := (k_sw k)\<lparr>kbd_shift := sh\<rparr>\<rparr>))"

text \<open>The state of the file system and the console as the loader leaves it, on an empty disk without buffers.\<close>

definition zero_console :: console where
  "zero_console = \<lparr>my_pid = 0, disksize = 0, memdisk = (\<lambda>_ _. 0), disk_writes = [], bufs = [],
     lg_start = 0, lg_size = 0, lg_outstanding = 0, lg_committing = False, lg_dev = 0, lh_n = 0, lh_block = replicate 30 0,
     sb = \<lparr>sb_size = 0, sb_nblocks = 0, sb_ninodes = 0, sb_nlog = 0, sb_logstart = 0, sb_inodestart = 0, sb_bmapstart = 0\<rparr>,
     icache = [], my_cwd = None, my_killed = False, ftable = replicate NFILE zero_file, pipes = (\<lambda>_. zero_pipe),
     vm_buffer = replicate 4096 0,
     ex_backup = \<lparr>bk_ramPages = [], bk_swappedPages = [], bk_num_ram = 0, bk_num_swap = 0, bk_clockHand = 0, bk_free_head = 0,
       bk_free_tail = 0, bk_queue_head = 0, bk_queue_tail = 0, bk_swapFile = None\<rparr>,
     in_buf = (\<lambda>_. 0), in_r = 0, in_w = 0, in_e = 0, crt = (\<lambda>_. 0), crt_pos = 0, uart = True, serial = [],
     panicked = False, kbd_shift = 0\<rparr>"

end
