(* ===== verification/Trap.thy ===== *)
theory Trap
  imports Sysfile Console
begin

text \<open>
  \<^verbatim>\<open>trap.c\<close>: what the kernel does for a system call, a page fault, an interrupt or another trap. What the
  hardware delivers with it is an argument: the trap frame, the faulting address, and the bytes
  of the keyboard and the serial line.
\<close>

unbundle bit_operations_syntax

definition T_PGFLT :: u32 where "T_PGFLT = 14"
definition T_SYSCALL :: u32 where "T_SYSCALL = 64"
definition T_IRQ0 :: u32 where "T_IRQ0 = 32"
definition IRQ_TIMER :: u32 where "IRQ_TIMER = 0"
definition IRQ_KBD :: u32 where "IRQ_KBD = 1"
definition IRQ_COM1 :: u32 where "IRQ_COM1 = 4"
definition IRQ_IDE :: u32 where "IRQ_IDE = 14"
definition IRQ_SPURIOUS :: u32 where "IRQ_SPURIOUS = 31"
definition DPL_USER :: u16 where "DPL_USER = 3"

text \<open>
  The machine: the addresses of \<open>ticks\<close> and \<open>input.r\<close>, which are sleeping channels, and the number of
  free pages at the start. And what comes with a trap: the CPU it happens on, whether no process
  runs there, and the frame pointers of the switched-out processes.
\<close>

record machine =
  ticks_chan :: addr
  input_chan :: addr
  initial_pages :: u32

record arrival =
  ar_tf :: trapframe
  ar_cr2 :: addr
  ar_cpu :: nat
  ar_idle :: bool
  ar_kbd :: "u8 list"
  ar_com1 :: "u8 list"
  ar_ebp :: "nat \<Rightarrow> addr"

definition from_user :: "arrival \<Rightarrow> bool" where
  "from_user ar \<longleftrightarrow> tf_cs (ar_tf ar) AND 3 = DPL_USER"

text \<open>What a trap ends in: its return, the end of the process, or a call of \<open>yield\<close>, after which it goes on.\<close>

datatype 'k trap_end = TReturns 'k | TExits 'k | TYields 'k

definition exits :: "'a execs_scheme config \<Rightarrow> 'a execs_scheme kernel \<Rightarrow> 'a execs_scheme kernel trap_end outcome" where
  "exits cf k = bnd (exit cf k) (\<lambda>k. Ret (TExits k))"

definition on_con :: "('a console_scheme \<Rightarrow> 'a console_scheme outcome) \<Rightarrow> 'a console_scheme kernel \<Rightarrow> 'a console_scheme kernel outcome" where
  "on_con f k = bnd (f (k_sw k)) (\<lambda>s. Ret (k\<lparr>k_sw := s\<rparr>))"

definition goes_on :: "'k outcome \<Rightarrow> 'k trap_end outcome" where
  "goes_on m = bnd m (\<lambda>k. Ret (TReturns k))"

definition trap_syscall :: "'a execs_scheme config \<Rightarrow> arrival \<Rightarrow> 'a execs_scheme kernel \<Rightarrow> 'a execs_scheme kernel trap_end outcome" where
  "trap_syscall cf ar k =
     (if ar_idle ar then Fault
      else if p_killed (curproc k) then exits cf k
      else
        bnd (syscall cf (upd_p (me k) (\<lambda>p. p\<lparr>p_tf := ar_tf ar\<rparr>) k)) (\<lambda>e.
        case e of
          Exits k \<Rightarrow> Ret (TExits k)
        | Returns r k \<Rightarrow> if p_killed (curproc k) then exits cf k else Ret (TReturns k)))"

definition timer_tick :: "machine \<Rightarrow> 'f kernel \<Rightarrow> 'f kernel" where
  "timer_tick mc k = wakeup (ticks_chan mc) (k\<lparr>ticks := ticks k + 1\<rparr>)"

text \<open>
  The \<open>switch\<close> of \<open>trap\<close>. The trap frame of a trap from user space is the one \<open>tf\<close> of the process points
  to. The disk is that of \<^verbatim>\<open>memide.c\<close>, whose \<open>ideintr\<close> does nothing.
\<close>

definition trap_pgflt :: "'a execs_scheme config \<Rightarrow> arrival \<Rightarrow> 'a execs_scheme kernel \<Rightarrow> 'a execs_scheme kernel trap_end outcome" where
  "trap_pgflt cf ar k =
     (if ar_idle ar then Fault
      else if p_pid (curproc k) > 2
      then
        bnd (on_vm (me k) (pagefault (cf_dv cf) (cf_sel cf) (ar_cr2 ar)) k) (\<lambda>k.
        if p_killed (curproc k) then exits cf k else Ret (TReturns k))
      else Ret (TReturns k))"

definition trap_other :: "arrival \<Rightarrow> 'a console_scheme kernel \<Rightarrow> 'a console_scheme kernel outcome" where
  "trap_other ar k =
     (let tf = ar_tf ar in
      if ar_idle ar \<or> tf_cs tf AND 3 = 0 then Panic ''trap''
      else
        bnd (on_con (cprintf (char_codes ''pid %d %s: trap %d err %d on cpu %d eip 0x%x addr 0x%x--kill proc'' @ [10])
               [CNum (of_int (p_pid (curproc k))), CStr (Some (char_codes (p_name (curproc k)))), CNum (tf_trapno tf),
                CNum (tf_err tf), CNum (of_nat (ar_cpu ar)), CNum (tf_eip tf), CNum (ar_cr2 ar)]) k) (\<lambda>k.
        Ret (upd_p (me k) (\<lambda>p. p\<lparr>p_killed := True\<rparr>) k)))"

definition trap_switch :: "machine \<Rightarrow> 'a console_scheme config \<Rightarrow> arrival \<Rightarrow> 'a console_scheme kernel \<Rightarrow> 'a console_scheme kernel trap_end outcome" where
  "trap_switch mc cf ar k =
     (let tf = ar_tf ar; no = tf_trapno tf; dump = procdump (ar_ebp ar) (initial_pages mc) in
      if no = T_PGFLT then trap_pgflt cf ar k
      else if no = T_IRQ0 + IRQ_TIMER then Ret (TReturns (if ar_cpu ar = 0 then timer_tick mc k else k))
      else if no = T_IRQ0 + IRQ_IDE \<or> no = T_IRQ0 + IRQ_IDE + 1 then Ret (TReturns k)
      else if no = T_IRQ0 + IRQ_KBD then goes_on (kbdintr dump (input_chan mc) (ar_kbd ar) k)
      else if no = T_IRQ0 + IRQ_COM1 then goes_on (uartintr dump (input_chan mc) (ar_com1 ar) k)
      else if no = T_IRQ0 + 7 \<or> no = T_IRQ0 + IRQ_SPURIOUS
      then goes_on (on_con (cprintf (char_codes ''cpu%d: spurious interrupt at %x:%x'' @ [10])
             [CNum (of_nat (ar_cpu ar)), CNum (ucast (tf_cs tf)), CNum (tf_eip tf)]) k)
      else goes_on (trap_other ar k))"

text \<open>The counters of the replacement policy at a tick.\<close>

definition age_pages :: "selection \<Rightarrow> 'f vst \<Rightarrow> 'f vst outcome" where
  "age_pages sel s =
     (if p_pid (cur s) > 2
      then (case sel of NFUA \<Rightarrow> updateNfua s | LAPA \<Rightarrow> updateLapa s | AQ \<Rightarrow> updateAQ s | _ \<Rightarrow> Ret s)
      else Ret s)"

definition trap_leave :: "'a execs_scheme config \<Rightarrow> arrival \<Rightarrow> 'a execs_scheme kernel \<Rightarrow> 'a execs_scheme kernel trap_end outcome" where
  "trap_leave cf ar k =
     (if \<not> ar_idle ar \<and> p_killed (curproc k) \<and> from_user ar then exits cf k else Ret (TReturns k))"

definition trap_clock :: "'a execs_scheme config \<Rightarrow> arrival \<Rightarrow> 'a execs_scheme kernel \<Rightarrow> 'a execs_scheme kernel trap_end outcome" where
  "trap_clock cf ar k =
     (if \<not> ar_idle ar \<and> p_state (curproc k) = RUNNING \<and> tf_trapno (ar_tf ar) = T_IRQ0 + IRQ_TIMER
      then bnd (on_vm (me k) (age_pages (cf_sel cf)) k) (\<lambda>k. Ret (TYields (yield k)))
      else trap_leave cf ar k)"

text \<open>\<open>trap\<close> up to its call of \<open>yield\<close>; \<open>trap_leave\<close> is what it does once the process runs again.\<close>

definition trap :: "machine \<Rightarrow> 'a console_scheme config \<Rightarrow> arrival \<Rightarrow> 'a console_scheme kernel \<Rightarrow> 'a console_scheme kernel trap_end outcome" where
  "trap mc cf ar k =
     (if tf_trapno (ar_tf ar) = T_SYSCALL then trap_syscall cf ar k
      else
        let k = (if from_user ar \<and> \<not> ar_idle ar then upd_p (me k) (\<lambda>p. p\<lparr>p_tf := ar_tf ar\<rparr>) k else k) in
        bnd (trap_switch mc cf ar k) (\<lambda>e.
        case e of
          TReturns k \<Rightarrow>
            bnd (trap_leave cf ar k) (\<lambda>e. case e of TReturns k \<Rightarrow> trap_clock cf ar k | e \<Rightarrow> Ret e)
        | e \<Rightarrow> Ret e))"

end
