(* ===== verification/Frames.thy ===== *)
theory Frames
  imports Trap
begin

text \<open>
  What the operations of the memory management and of the files leave alone in the process they run
  for. They change the counters, entries of the page arrays and of the open files, and the list
  heads of the process, so a part of the process that does not depend on those is the same before
  and after. The locales have one lemma per operation, up to the system calls. They are
  interpreted for the identity of a process (its pid, state and parent) and for the lengths of
  its arrays.
\<close>

lemma case_Ret_iff:
  "(case r of None \<Rightarrow> m | Some x \<Rightarrow> f x) = Ret y \<longleftrightarrow> r = None \<and> m = Ret y \<or> (\<exists>x. r = Some x \<and> f x = Ret y)"
  "(case q of (a, b) \<Rightarrow> g a b) = Ret y \<longleftrightarrow> (\<exists>a b. q = (a, b) \<and> g a b = Ret y)"
  by (auto split: option.splits prod.splits)

named_theorems frame_rules \<open>what an operation keeps of the process it runs for\<close>

locale process_kept =
  fixes part :: "proc \<Rightarrow> 'o"
  assumes counts: "part (p\<lparr>num_ram := n\<rparr>) = part p" "part (p\<lparr>num_swap := n\<rparr>) = part p"
      "part (p\<lparr>totalPgfltCount := u\<rparr>) = part p" "part (p\<lparr>clockHand := h\<rparr>) = part p"
    and heads: "part (p\<lparr>free_head := a\<rparr>) = part p" "part (p\<lparr>free_tail := a\<rparr>) = part p"
      "part (p\<lparr>queue_head := a\<rparr>) = part p" "part (p\<lparr>queue_tail := a\<rparr>) = part p"
    and arrays: "part (p\<lparr>ramPages := (ramPages p)[i := g]\<rparr>) = part p"
      "part (p\<lparr>swappedPages := (swappedPages p)[i := g]\<rparr>) = part p"
      "part (p\<lparr>p_ofile := (p_ofile p)[i := f]\<rparr>) = part p"
    and scalars: "part (p\<lparr>p_sz := u\<rparr>) = part p" "part (p\<lparr>p_cwd := f\<rparr>) = part p"
      "part (p\<lparr>p_tf := tf\<rparr>) = part p" "part (p\<lparr>p_chan := a\<rparr>) = part p"
begin

lemmas part_simps [simp] = counts heads arrays scalars

section \<open>The allocator and memory\<close>

lemma on_k_part [frame_rules]: "on_k f s = Ret s' \<Longrightarrow> part (cur s') = part (cur s)"
  by (auto simp: on_k_def ret_iff dest!: frame_rules)

lemma on_kr_part [frame_rules]: "on_kr f s = Ret (r, s') \<Longrightarrow> part (cur s') = part (cur s)"
  by (auto simp: on_kr_def ret_iff dest!: frame_rules)

lemma set_field_part [frame_rules]: "set_field fld n v s = Ret s' \<Longrightarrow> part (cur s') = part (cur s)"
  by (auto simp: set_field_def split: if_splits dest!: frame_rules)

lemma set_ram_page_part [frame_rules]: "set_ram_page i f s = Ret s' \<Longrightarrow> part (cur s') = part (cur s)"
  by (auto simp: set_ram_page_def split: if_splits dest!: frame_rules)

lemma set_swap_page_part [frame_rules]: "set_swap_page i f s = Ret s' \<Longrightarrow> part (cur s') = part (cur s)"
  by (auto simp: set_swap_page_def split: if_splits dest!: frame_rules)

section \<open>Replacement policies\<close>

lemma scfifo_scan_part [frame_rules]: "scfifo_scan hand is s = Ret (r, s') \<Longrightarrow> part (cur s') = part (cur s)"
proof (induction hand "is" s arbitrary: r s' rule: scfifo_scan.induct)
  case (2 hand i js s)
  then show ?case by (auto simp: ret_iff scfifo_scan.simps split: if_splits dest!: frame_rules)
qed (auto simp: scfifo_scan.simps)

lemma scfifo_rounds_part [frame_rules]: "scfifo_rounds n s = Ret (r, s') \<Longrightarrow> part (cur s') = part (cur s)"
proof (induction n arbitrary: s)
  case (Suc n)
  then show ?case by (auto simp: ret_iff split: option.splits dest!: frame_rules)
qed simp

lemma scfifo_part [frame_rules]: "scfifo s = Ret (r, s') \<Longrightarrow> part (cur s') = part (cur s)"
  by (auto simp: scfifo_def ret_iff dest!: frame_rules)

lemma aq_part [frame_rules]: "aq s = Ret (r, s') \<Longrightarrow> part (cur s') = part (cur s)"
  by (auto simp: aq_def ret_iff Let_def split: if_splits dest!: frame_rules)

lemma indexToEvict_part [frame_rules]: "indexToEvict sel s = Ret (r, s') \<Longrightarrow> part (cur s') = part (cur s)"
  by (auto simp: indexToEvict_def ret_iff split: selection.splits dest!: frame_rules)

lemma enqueue_AQ_part [frame_rules]: "enqueue_AQ i s = Ret s' \<Longrightarrow> part (cur s') = part (cur s)"
  unfolding enqueue_AQ_def by (auto simp: ret_iff Let_def split: if_splits dest!: frame_rules)

lemma update_part [frame_rules]:
  "update_selectionfiled_allocuvm sel i s = Ret s' \<Longrightarrow> part (cur s') = part (cur s)"
  "update_selectionfiled_pagefault sel i s = Ret s' \<Longrightarrow> part (cur s') = part (cur s)"
  by (auto simp: update_selectionfiled_allocuvm_def update_selectionfiled_pagefault_def split: selection.splits dest!: frame_rules)

section \<open>Address spaces\<close>

lemma forget_page_part [simp]: "part (forget_page pgdir a p) = part p"
proof -
  have "part (forget_turn pgdir a i p) = part p" for i p
    by (auto simp: forget_turn_def Let_def)
  then have "part (fold (forget_turn pgdir a) xs p) = part p" for xs by (induction xs arbitrary: p) auto
  then show ?thesis by (simp add: forget_page_def)
qed

lemma deallocuvm_turn_part: "deallocuvm_turn pgdir a s = Ret (r, s') \<Longrightarrow> part (cur s') = part (cur s)"
  by (auto simp: deallocuvm_turn_def ret_iff Let_def split: if_splits dest!: frame_rules)

lemma deallocuvm_loop_part [frame_rules]: "deallocuvm_loop pgdir a oldsz s = Ret s' \<Longrightarrow> part (cur s') = part (cur s)"
proof (induction pgdir a oldsz s rule: deallocuvm_loop.induct)
  case (1 pgdir a oldsz s)
  from 1(2) show ?case
    by (subst (asm) deallocuvm_loop.simps) (auto simp: ret_iff split: if_splits, (metis 1(1) deallocuvm_turn_part)+)
qed

lemma deallocuvm_part [frame_rules]: "deallocuvm pgdir oldsz newsz s = Ret (r, s') \<Longrightarrow> part (cur s') = part (cur s)"
  by (auto simp: deallocuvm_def ret_iff split: if_splits dest!: frame_rules)

lemma for_each_part:
  "(\<And>x s s'. f x s = Ret s' \<Longrightarrow> part (cur s') = part (cur s)) \<Longrightarrow> for_each f xs s = Ret s' \<Longrightarrow> part (cur s') = part (cur s)"
  by (induction xs arbitrary: s) (auto simp: ret_iff dest!: frame_rules)

lemma freevm_turns_part [frame_rules]: "for_each (freevm_turn pgdir) is s = Ret s' \<Longrightarrow> part (cur s') = part (cur s)"
  by (rule for_each_part) (auto simp: freevm_turn_def Let_def split: if_splits dest!: frame_rules)

lemma freevm_part [frame_rules]: "freevm pgdir s = Ret s' \<Longrightarrow> part (cur s') = part (cur s)"
  by (auto simp: freevm_def ret_iff split: if_splits dest!: frame_rules)

lemma setupkvm_loop_part [frame_rules]: "setupkvm_loop pgdir ks s = Ret (r, s') \<Longrightarrow> part (cur s') = part (cur s)"
proof (induction ks arbitrary: s)
  case (Cons k ks)
  then show ?case by (cases k) (auto simp: ret_iff split: if_splits dest!: frame_rules)
qed simp

lemma setupkvm_part [frame_rules]: "setupkvm data s = Ret (r, s') \<Longrightarrow> part (cur s') = part (cur s)"
  by (auto simp: setupkvm_def ret_iff Let_def split: if_splits dest!: frame_rules)

lemma cowuvm_turn_part: "cowuvm_turn pgdir d i s = Ret (r, s') \<Longrightarrow> part (cur s') = part (cur s)"
  by (auto simp: cowuvm_turn_def ret_iff Let_def split: if_splits dest!: frame_rules)

lemma cowuvm_loop_part [frame_rules]: "cowuvm_loop pgdir d i sz s = Ret (r, s') \<Longrightarrow> part (cur s') = part (cur s)"
proof (induction pgdir d i sz s rule: cowuvm_loop.induct)
  case (1 pgdir d i sz s)
  from 1(2) show ?case
    by (subst (asm) cowuvm_loop.simps) (auto simp: ret_iff split: if_splits, (metis 1(1) cowuvm_turn_part)+)
qed

lemma cowuvm_part [frame_rules]: "cowuvm data pgdir sz s = Ret (r, s') \<Longrightarrow> part (cur s') = part (cur s)"
  by (auto simp: cowuvm_def ret_iff split: if_splits dest!: frame_rules)

lemma copyuvm_turn_part: "copyuvm_turn paged pgdir d i s = Ret (r, s') \<Longrightarrow> part (cur s') = part (cur s)"
  by (auto simp: copyuvm_turn_def ret_iff Let_def split: if_splits dest!: frame_rules)

lemma copyuvm_loop_part [frame_rules]: "copyuvm_loop paged pgdir d i sz s = Ret (r, s') \<Longrightarrow> part (cur s') = part (cur s)"
proof (induction paged pgdir d i sz s rule: copyuvm_loop.induct)
  case (1 paged pgdir d i sz s)
  from 1(2) show ?case
    by (subst (asm) copyuvm_loop.simps) (auto simp: ret_iff split: if_splits, (metis 1(1) copyuvm_turn_part)+)
qed

lemma copyuvm_part [frame_rules]: "copyuvm sel data pgdir sz s = Ret (r, s') \<Longrightarrow> part (cur s') = part (cur s)"
  by (auto simp: copyuvm_def ret_iff split: if_splits dest!: frame_rules)

lemma switchuvm_part [frame_rules]: "switchuvm p s = Ret s' \<Longrightarrow> part (cur s') = part (cur s)"
  by (auto simp: switchuvm_def split: if_splits dest!: frame_rules)

section \<open>Aging\<close>

lemma updateLapa_part [frame_rules]: "updateLapa s = Ret s' \<Longrightarrow> part (cur s') = part (cur s)"
  unfolding updateLapa_def
  by (rule for_each_part) (auto simp: updateLapa_turn_def ret_iff split: if_splits dest!: frame_rules)

lemma updateNfua_part [frame_rules]: "updateNfua s = Ret s' \<Longrightarrow> part (cur s') = part (cur s)"
  unfolding updateNfua_def
  by (rule for_each_part) (auto simp: updateNfua_turn_def ret_iff split: if_splits dest!: frame_rules)

lemma swapAQ_part [frame_rules]: "swapAQ n s = Ret s' \<Longrightarrow> part (cur s') = part (cur s)"
  unfolding swapAQ_def by (auto simp: ret_iff split: if_splits dest!: frame_rules)

lemma updateAQ_loop_part [frame_rules]: "updateAQ_loop n c i j s = Ret s' \<Longrightarrow> part (cur s') = part (cur s)"
proof (induction n arbitrary: c i j s)
  case (Suc n)
  then show ?case by (auto simp: ret_iff Let_def split: if_splits dest!: Suc.IH frame_rules)
qed (simp split: if_splits)

lemma updateAQ_part [frame_rules]: "updateAQ s = Ret s' \<Longrightarrow> part (cur s') = part (cur s)"
  by (auto simp: updateAQ_def ret_iff Let_def split: if_splits dest!: frame_rules)

lemma age_pages_part [frame_rules]: "age_pages sel s = Ret s' \<Longrightarrow> part (cur s') = part (cur s)"
  by (auto simp: age_pages_def split: if_splits selection.splits dest!: frame_rules)

section \<open>Files\<close>

lemma upd_file_cur [simp]: "cur (upd_file f g s) = cur s" "cur (upd_pipe q h s) = cur s"
  by (simp_all add: upd_file_def upd_pipe_def)

lemma filealloc_part [frame_rules]: "filealloc s = (r, s') \<Longrightarrow> part (cur s') = part (cur s)"
  by (auto simp: filealloc_def split: option.splits)

lemma on_fs_part [frame_rules]: "on_fs f s = Ret s' \<Longrightarrow> part (cur s') = part (cur s)"
  by (auto simp: on_fs_def ret_iff)

lemma on_fsr_part [frame_rules]: "on_fsr f s = Ret (r, s') \<Longrightarrow> part (cur s') = part (cur s)"
  by (auto simp: on_fsr_def ret_iff)

lemma filedup_part [frame_rules]: "filedup f s = Ret (r, s') \<Longrightarrow> part (cur s') = part (cur s)"
  by (auto simp: filedup_def split: if_splits)

lemma fileclose_part [frame_rules]: "fileclose f s = Ret s' \<Longrightarrow> part (cur s') = part (cur s)"
  by (auto simp: fileclose_def pipeclose_def Let_def split: if_splits fd_type.splits prod.splits dest!: frame_rules)

lemma filestat_part [frame_rules]: "filestat f s = Ret (r, s') \<Longrightarrow> part (cur s') = part (cur s)"
  by (auto simp: filestat_def Let_def ret_iff split: if_splits option.splits dest!: frame_rules)

lemma fileread_part [frame_rules]: "fileread dv f n s = Ret (r, bs, s') \<Longrightarrow> part (cur s') = part (cur s)"
  by (auto simp: fileread_def Let_def ret_iff split: if_splits option.splits fd_type.splits dest!: frame_rules)

lemma filewrite_turn_part [frame_rules]: "filewrite_turn dv f ip bs s = Ret (r, s') \<Longrightarrow> part (cur s') = part (cur s)"
  by (auto simp: filewrite_turn_def Let_def ret_iff split: if_splits dest!: frame_rules)

lemma filewrite_loop_part [frame_rules]: "filewrite_loop dv f ip src s = Ret (r, s') \<Longrightarrow> part (cur s') = part (cur s)"
proof (induction dv f ip src s rule: filewrite_loop.induct)
  case (1 dv f ip src s)
  show ?case
  proof (cases "src = []")
    case True
    with 1(2) show ?thesis by (simp add: filewrite_loop.simps)
  next
    case False
    let ?n = "min (length src) max_write"
    obtain r1 s1 where t: "filewrite_turn dv f ip (take ?n src) s = Ret (r1, s1)"
      and l: "r1 < 0 \<and> s' = s1 \<or> \<not> r1 < 0 \<and> r1 = int ?n \<and> filewrite_loop dv f ip (drop ?n src) s1 = Ret (r, s')"
      using 1(2) False by (subst (asm) filewrite_loop.simps) (auto simp: ret_iff Let_def split: if_splits)
    from l show ?thesis using 1(1) [OF False refl t refl] filewrite_turn_part [OF t] by auto
  qed
qed

lemma filewrite_part [frame_rules]: "filewrite dv f src s = Ret (r, s') \<Longrightarrow> part (cur s') = part (cur s)"
  by (auto simp: filewrite_def Let_def ret_iff split: if_splits option.splits fd_type.splits dest!: frame_rules)

lemma close_opt_part [frame_rules]: "close_opt f s = Ret s' \<Longrightarrow> part (cur s') = part (cur s)"
  by (auto simp: close_opt_def split: option.splits dest!: frame_rules)

lemma pipealloc_part [frame_rules]: "pipealloc s = Ret (r, s') \<Longrightarrow> part (cur s') = part (cur s)"
  by (auto simp: pipealloc_def pipealloc_bad_def filealloc_def Let_def ret_iff split: if_splits option.split_asm prod.split_asm dest!: frame_rules)

lemma swap_file_part [frame_rules]:
  "createSwapFile dv pid s = Ret (r, s') \<Longrightarrow> part (cur s') = part (cur s)"
  "removeSwapFile dv pid f s = Ret (r', s') \<Longrightarrow> part (cur s') = part (cur s)"
  "writeToSwapFile dv f bs off s = Ret (r', s') \<Longrightarrow> part (cur s') = part (cur s)"
  "readFromSwapFile dv f off n s = Ret (r', bs, s') \<Longrightarrow> part (cur s') = part (cur s)"
  by (auto simp: createSwapFile_def removeSwapFile_def writeToSwapFile_def readFromSwapFile_def filealloc_def Let_def ret_iff
      split: option.split_asm prod.split_asm dest!: frame_rules)

section \<open>Paging\<close>

lemma loaduvm_turn_part: "loaduvm_turn dv pgdir a ip off sz i s = Ret (r, s') \<Longrightarrow> part (cur s') = part (cur s)"
  by (auto simp: loaduvm_turn_def Let_def ret_iff split: if_splits dest!: frame_rules)

lemma loaduvm_loop_part [frame_rules]: "loaduvm_loop dv pgdir a ip off sz i s = Ret (r, s') \<Longrightarrow> part (cur s') = part (cur s)"
proof (induction dv pgdir a ip off sz i s rule: loaduvm_loop.induct)
  case (1 dv pgdir a ip off sz i s)
  from 1(2) show ?case
    by (subst (asm) loaduvm_loop.simps) (auto simp: ret_iff split: if_splits, (metis 1(1) loaduvm_turn_part)+)
qed

lemma loaduvm_part [frame_rules]: "loaduvm dv pgdir a ip off sz s = Ret (r, s') \<Longrightarrow> part (cur s') = part (cur s)"
  by (auto simp: loaduvm_def split: if_splits dest!: frame_rules)

lemma take_block_part [frame_rules]: "take_block s = Ret (r, s') \<Longrightarrow> part (cur s') = part (cur s)"
  by (auto simp: take_block_def ret_iff split: if_splits)

lemma give_block_part [frame_rules]: "give_block off s = Ret s' \<Longrightarrow> part (cur s') = part (cur s)"
  by (auto simp: give_block_def ret_iff split: if_splits dest!: frame_rules)

lemma unmap_evicted_part [frame_rules]: "unmap_evicted msg pgdir va s = Ret s' \<Longrightarrow> part (cur s') = part (cur s)"
  by (auto simp: unmap_evicted_def Let_def ret_iff split: if_splits dest!: frame_rules)

lemma allocuvm_noswap_part [frame_rules]: "allocuvm_noswap sel pgdir va s = Ret s' \<Longrightarrow> part (cur s') = part (cur s)"
  by (auto simp: allocuvm_noswap_def Let_def ret_iff split: if_splits dest!: frame_rules)

lemma allocuvm_withswap_part [frame_rules]: "allocuvm_withswap dv sel pgdir va s = Ret s' \<Longrightarrow> part (cur s') = part (cur s)"
  by (auto simp: allocuvm_withswap_def Let_def ret_iff split: if_splits dest!: frame_rules)

lemma allocuvm_paging_part [frame_rules]: "allocuvm_paging dv sel pgdir va s = Ret s' \<Longrightarrow> part (cur s') = part (cur s)"
  by (auto simp: allocuvm_paging_def split: if_splits dest!: frame_rules)

lemma allocuvm_turn_part: "allocuvm_turn dv sel pgdir oldsz newsz a s = Ret (r, s') \<Longrightarrow> part (cur s') = part (cur s)"
  by (auto simp: allocuvm_turn_def Let_def ret_iff split: if_splits dest!: frame_rules)

lemma allocuvm_loop_part [frame_rules]: "allocuvm_loop dv sel pgdir oldsz newsz a s = Ret (r, s') \<Longrightarrow> part (cur s') = part (cur s)"
proof (induction dv sel pgdir oldsz newsz a s rule: allocuvm_loop.induct)
  case (1 dv sel pgdir oldsz newsz a s)
  from 1(2) show ?case
    by (subst (asm) allocuvm_loop.simps) (auto simp: ret_iff split: if_splits, (metis 1(1) allocuvm_turn_part)+)
qed

lemma allocuvm_part [frame_rules]: "allocuvm dv sel pgdir oldsz newsz s = Ret (r, s') \<Longrightarrow> part (cur s') = part (cur s)"
  by (auto simp: allocuvm_def split: if_splits dest!: frame_rules)

lemma read_buffer_part [frame_rules]: "read_buffer dv off s = Ret s' \<Longrightarrow> part (cur s') = part (cur s)"
  by (auto simp: read_buffer_def ret_iff split: if_splits dest!: frame_rules)

lemma pagein_evict_part [frame_rules]: "pagein_evict dv sel a i s = Ret s' \<Longrightarrow> part (cur s') = part (cur s)"
  by (auto simp: pagein_evict_def ret_iff split: if_splits dest!: frame_rules)

lemma pagein_space_part [frame_rules]: "pagein_space sel a s = Ret s' \<Longrightarrow> part (cur s') = part (cur s)"
  by (auto simp: pagein_space_def Let_def ret_iff split: if_splits dest!: frame_rules)

lemma pagein_map_part [frame_rules]: "pagein_map pte s = Ret s' \<Longrightarrow> part (cur s') = part (cur s)"
  by (auto simp: pagein_map_def Let_def ret_iff split: if_splits dest!: frame_rules)

lemma handle_pagedout_part [frame_rules]: "handle_pagedout dv sel a pte s = Ret s' \<Longrightarrow> part (cur s') = part (cur s)"
  by (auto simp: handle_pagedout_def Let_def ret_iff split: if_splits dest!: frame_rules)

section \<open>Processes\<close>

lemma growproc_part [frame_rules]: "growproc cf n s = Ret (r, s') \<Longrightarrow> part (cur s') = part (cur s)"
  by (auto simp: growproc_def Let_def ret_iff split: if_splits dest!: frame_rules)

lemma fork_swap_part [frame_rules]: "fork_swap dv src dst off s = Ret s' \<Longrightarrow> part (cur s') = part (cur s)"
proof (induction "2 ^ 31 - off" arbitrary: off s rule: less_induct)
  case less
  from less.prems obtain n bs s1 where rd: "off < 2 ^ 31" "readFromSwapFile dv src (of_nat off) 2048 s = Ret (n, bs, s1)"
    and l: "n = 0 \<and> s' = s1 \<or> 0 < n \<and> (\<exists>r s2. writeToSwapFile dv dst bs (of_nat off) s1 = Ret (r, s2) \<and>
      fork_swap dv src dst (off + nat n) s2 = Ret s')"
    by (subst (asm) fork_swap.simps) (auto simp: ret_iff split: if_splits)
  note 1 = swap_file_part(4) [OF rd(2)]
  from l show ?case
  proof
    assume "n = 0 \<and> s' = s1"
    then show ?thesis using 1 by simp
  next
    assume "0 < n \<and> (\<exists>r s2. writeToSwapFile dv dst bs (of_nat off) s1 = Ret (r, s2) \<and>
      fork_swap dv src dst (off + nat n) s2 = Ret s')"
    then obtain r s2 where "0 < n" and w: "writeToSwapFile dv dst bs (of_nat off) s1 = Ret (r, s2)"
      and f: "fork_swap dv src dst (off + nat n) s2 = Ret s'" by blast
    moreover have "2 ^ 31 - (off + nat n) < 2 ^ 31 - off" using rd(1) \<open>0 < n\<close> by simp
    ultimately have "part (cur s') = part (cur s2)" using less.hyps by blast
    then show ?thesis using swap_file_part(3) [OF w] 1 by simp
  qed
qed

lemma copyAQ_loop_part [frame_rules]: "copyAQ_loop n old prev s = Ret (r, s') \<Longrightarrow> part (cur s') = part (cur s)"
proof (induction n arbitrary: old prev s)
  case (Suc n)
  then show ?case by (auto simp: ret_iff split: if_splits dest!: Suc.IH frame_rules)
qed simp

lemma copyAQ_part [frame_rules]: "copyAQ old s = Ret (r, s') \<Longrightarrow> part (cur s') = part (cur s)"
  by (auto simp: copyAQ_def ret_iff split: if_splits dest!: frame_rules)

lemma close_fds_part [frame_rules]: "for_each close_fd fds s = Ret s' \<Longrightarrow> part (cur s') = part (cur s)"
  by (rule for_each_part) (auto simp: close_fd_def ret_iff split: option.splits dest!: frame_rules)

section \<open>System calls\<close>

lemma user_write_part [frame_rules]: "user_write va bs s = Ret s' \<Longrightarrow> part (cur s') = part (cur s)"
  by (induction va bs s rule: user_write.induct) (auto simp: user_put_def ret_iff split: if_splits)

lemma user_writes_part [frame_rules]: "for_each (\<lambda>(a, bs). user_write a bs) xs s = Ret s' \<Longrightarrow> part (cur s') = part (cur s)"
  by (rule for_each_part) (auto dest!: frame_rules)

lemma with_arg_part:
  "with_arg m f s = Ret (r, s') \<Longrightarrow> (\<And>x r s'. f x s = Ret (r, s') \<Longrightarrow> part (cur s') = part (cur s)) \<Longrightarrow> part (cur s') = part (cur s)"
  by (auto simp: with_arg_def ret_iff split: option.splits)

lemma fdalloc_part [frame_rules]: "fdalloc f s = (r, s') \<Longrightarrow> part (cur s') = part (cur s)"
  by (auto simp: fdalloc_def split: option.splits)

lemma sys_files_part [frame_rules]:
  "sys_dup s = Ret (r, s') \<Longrightarrow> part (cur s') = part (cur s)"
  "sys_close s = Ret (r, s') \<Longrightarrow> part (cur s') = part (cur s)"
  "sys_fstat s = Ret (r, s') \<Longrightarrow> part (cur s') = part (cur s)"
  "sys_read dv s = Ret (r, s') \<Longrightarrow> part (cur s') = part (cur s)"
  "sys_write dv s = Ret (r, s') \<Longrightarrow> part (cur s') = part (cur s)"
  by (auto simp: sys_dup_def sys_close_def sys_fstat_def sys_read_def sys_write_def fdalloc_def ret_iff
      split: option.split_asm prod.split_asm elim!: with_arg_part dest!: frame_rules)

lemma sys_paths_part [frame_rules]:
  "sys_link dv s = Ret (r, s') \<Longrightarrow> part (cur s') = part (cur s)"
  "sys_unlink dv s = Ret (r, s') \<Longrightarrow> part (cur s') = part (cur s)"
  "sys_mkdir dv s = Ret (r, s') \<Longrightarrow> part (cur s') = part (cur s)"
  "sys_mknod dv s = Ret (r, s') \<Longrightarrow> part (cur s') = part (cur s)"
  "sys_chdir dv s = Ret (r, s') \<Longrightarrow> part (cur s') = part (cur s)"
  by (auto simp: sys_link_def sys_unlink_def sys_mkdir_def sys_mknod_def sys_chdir_def ret_iff
      split: option.split_asm elim!: with_arg_part dest!: frame_rules)

lemma sys_open_part [frame_rules]: "sys_open dv s = Ret (r, s') \<Longrightarrow> part (cur s') = part (cur s)"
  by (auto simp: sys_open_def open_fail_def filealloc_def fdalloc_def ret_iff split: option.split_asm prod.split_asm elim!: with_arg_part dest!: frame_rules)

lemma sys_pipe_part [frame_rules]: "sys_pipe s = Ret (r, s') \<Longrightarrow> part (cur s') = part (cur s)"
  by (auto simp: sys_pipe_def close_both_def ret_iff case_Ret_iff elim!: with_arg_part dest!: frame_rules)

lemma sys_procs_part [frame_rules]:
  "sys_sbrk cf s = Ret (r, s') \<Longrightarrow> part (cur s') = part (cur s)"
  "sys_getpid s = Ret (r, s') \<Longrightarrow> part (cur s') = part (cur s)"
  "sys_getNumberOfFreePages s = Ret (r, s') \<Longrightarrow> part (cur s') = part (cur s)"
  "sys_getNumRefs s = Ret (r, s') \<Longrightarrow> part (cur s') = part (cur s)"
  by (auto simp: sys_sbrk_def sys_getpid_def sys_getNumberOfFreePages_def sys_getNumRefs_def Let_def ret_iff
      split: option.split_asm if_splits elim!: with_arg_part dest!: frame_rules)

end

section \<open>Page faults\<close>

text \<open>A page fault may kill the process.\<close>

locale process_part = process_kept +
  assumes killed: "part (p\<lparr>p_killed := b\<rparr>) = part p"
begin

lemmas killed_simps [simp] = killed

lemma handle_cow_part [frame_rules]: "handle_cow_pagefault pte s = Ret s' \<Longrightarrow> part (cur s') = part (cur s)"
  by (auto simp: handle_cow_pagefault_def ret_iff Let_def split: if_splits dest!: frame_rules)

lemma pagefault_part [frame_rules]: "pagefault dv sel va s = Ret s' \<Longrightarrow> part (cur s') = part (cur s)"
  by (auto simp: pagefault_def Let_def ret_iff split: if_splits dest!: frame_rules)

end

section \<open>The identity of a process\<close>

text \<open>\<open>exec\<close> replaces the page arrays, the swap file, the page table and the name as well.\<close>

locale process_identity = process_kept +
  assumes replaced: "part (p\<lparr>ramPages := xs\<rparr>) = part p" "part (p\<lparr>swappedPages := xs\<rparr>) = part p"
      "part (p\<lparr>p_swapFile := fo\<rparr>) = part p" "part (p\<lparr>p_pgdir := a\<rparr>) = part p" "part (p\<lparr>p_name := nm\<rparr>) = part p"
begin

lemmas replaced_simps [simp] = replaced

lemma fblock_nodes_part [frame_rules]: "fblock_nodes ks prev s = Ret (r, s') \<Longrightarrow> part (cur s') = part (cur s)"
proof (induction ks arbitrary: prev s)
  case (Cons k ks)
  then show ?case by (auto simp: ret_iff dest!: Cons.IH frame_rules)
qed simp

lemma alloc_fresh_fblocklst_part [frame_rules]: "alloc_fresh_fblocklst s = Ret s' \<Longrightarrow> part (cur s') = part (cur s)"
  by (auto simp: alloc_fresh_fblocklst_def Let_def ret_iff dest!: frame_rules)

lemma clean_part [simp]:
  "part (cur (clean_arrays s)) = part (cur s)" "part (cur (clean_by_selection s)) = part (cur s)"
  by (simp_all add: clean_arrays_def clean_by_selection_def Let_def)

lemma allocate_fresh_part [frame_rules]: "allocate_fresh dv s = Ret s' \<Longrightarrow> part (cur s') = part (cur s)"
  by (auto simp: allocate_fresh_def Let_def ret_iff dest!: frame_rules)

lemma read_header_part [frame_rules]: "read_header dv ip off n s = Ret (r, s') \<Longrightarrow> part (cur s') = part (cur s)"
  by (auto simp: read_header_def dest!: frame_rules)

lemma exec_load_part [frame_rules]: "exec_load ks dv sel pgdir ip off sz s = Ret (r, s') \<Longrightarrow> part (cur s') = part (cur s)"
proof (induction ks arbitrary: off sz s)
  case (Cons k ks)
  then show ?case by (auto simp: ret_iff case_Ret_iff Let_def split: if_splits dest!: Cons.IH frame_rules)
qed simp

lemma push_args_part [frame_rules]: "push_args as pgdir sp us s = Ret (r, s') \<Longrightarrow> part (cur s') = part (cur s)"
proof (induction "as" arbitrary: sp us s)
  case (Cons a "as")
  then show ?case by (auto simp: ret_iff Let_def split: if_splits dest!: Cons.IH frame_rules)
qed simp

lemma exec_stack_part [frame_rules]: "exec_stack argv pgdir sp s = Ret (r, s') \<Longrightarrow> part (cur s') = part (cur s)"
  by (auto simp: exec_stack_def ret_iff case_Ret_iff Let_def split: if_splits dest!: frame_rules)

lemma exec_bad_part [frame_rules]: "exec_bad sel pgdir ipo s = Ret (r, s') \<Longrightarrow> part (cur s') = part (cur s)"
  by (auto simp: exec_bad_def restore_def ret_iff case_Ret_iff Let_def split: if_splits option.split_asm dest!: frame_rules)

lemma exec_commit_part [frame_rules]: "exec_commit sel path pgdir sz entry sp s = Ret (r, s') \<Longrightarrow> part (cur s') = part (cur s)"
  by (auto simp: exec_commit_def own_pages_def ret_iff Let_def dest!: frame_rules)

lemma exec_image_part [frame_rules]: "exec_image dv sel path argv pgdir elf ip s = Ret (r, s') \<Longrightarrow> part (cur s') = part (cur s)"
  by (auto simp: exec_image_def ret_iff case_Ret_iff Let_def split: if_splits dest!: frame_rules)

lemma exec_part [frame_rules]: "exec dv sel data path argv s = Ret (r, s') \<Longrightarrow> part (cur s') = part (cur s)"
  by (auto simp: exec_def backup_def ret_iff case_Ret_iff Let_def split: if_splits dest!: frame_rules)

lemma sys_exec_part [frame_rules]: "sys_exec cf s = Ret (r, s') \<Longrightarrow> part (cur s') = part (cur s)"
  by (auto simp: sys_exec_def elim!: with_arg_part dest!: frame_rules)

end

definition identity :: "proc \<Rightarrow> int \<times> procstate \<times> nat option" where
  "identity p = (p_pid p, p_state p, p_parent p)"

interpretation ident: process_identity identity
  by unfold_locales (simp_all add: identity_def)

interpretation ident_fault: process_part identity
  by unfold_locales (simp_all add: identity_def)

text \<open>The request to end a process is not taken back by the calls that serve it.\<close>

interpretation kill_flag: process_identity p_killed
  by unfold_locales simp_all

text \<open>The lengths of the page arrays and of the table of open files.\<close>

definition sizes :: "proc \<Rightarrow> nat \<times> nat \<times> nat" where
  "sizes p = (length (ramPages p), length (swappedPages p), length (p_ofile p))"

interpretation sizes: process_part sizes
  by unfold_locales (simp_all add: sizes_def)

end
