(* ===== verification/Proc_Table.thy ===== *)
theory Proc_Table
  imports Frames
begin

text \<open>
  The process table under everything the kernel does: system calls, traps and the scheduler. The pids of
  the processes are distinct, and the parent of every process is alive, so that every zombie has
  somebody to wait for it. What the operations do with the pids, states and parents of
  the table is all there is to it: the rest of a process does not matter here.
\<close>

section \<open>Tables\<close>

type_synonym entry = "int \<times> procstate \<times> nat option"

abbreviation e_pid :: "entry \<Rightarrow> int" where "e_pid e \<equiv> fst e"
abbreviation e_state :: "entry \<Rightarrow> procstate" where "e_state e \<equiv> fst (snd e)"
abbreviation e_parent :: "entry \<Rightarrow> nat option" where "e_parent e \<equiv> snd (snd e)"

definition alive :: "procstate \<Rightarrow> bool" where
  "alive q \<longleftrightarrow> q = SLEEPING \<or> q = RUNNABLE \<or> q = RUNNING"

definition tab :: "'f kernel \<Rightarrow> entry list" where
  "tab k = map identity (ptable k)"

definition tab_ok :: "entry list \<Rightarrow> nat option \<Rightarrow> int \<Rightarrow> bool" where
  "tab_ok T ini np \<longleftrightarrow>
     length T = NPROC \<and> 1 \<le> np \<and>
     (\<forall>i < NPROC. 0 \<le> e_pid (T ! i) \<and> e_pid (T ! i) < np \<and> (e_state (T ! i) \<noteq> UNUSED \<longrightarrow> 1 \<le> e_pid (T ! i))) \<and>
     (\<forall>i < NPROC. \<forall>j < NPROC. i \<noteq> j \<longrightarrow> e_pid (T ! i) = e_pid (T ! j) \<longrightarrow> e_pid (T ! i) = 0) \<and>
     (\<forall>i < NPROC. \<forall>j. e_parent (T ! i) = Some j \<longrightarrow> j < NPROC \<and> alive (e_state (T ! j))) \<and>
     (\<forall>i. ini = Some i \<longrightarrow> i < NPROC \<and> alive (e_state (T ! i)))"

lemma tab_ok_update:
  assumes "tab_ok T ini np" "i < NPROC" "np \<le> np'"
    and e: "0 \<le> e_pid e" "e_pid e < np'" "e_state e \<noteq> UNUSED \<longrightarrow> 1 \<le> e_pid e"
    and pid: "e_pid e = 0 \<or> e_pid e = e_pid (T ! i) \<or> np \<le> e_pid e"
    and st: "alive (e_state (T ! i)) \<longrightarrow> alive (e_state e)"
    and par: "\<And>j. e_parent e = Some j \<Longrightarrow> j < NPROC \<and> alive (e_state (T[i := e] ! j))"
  shows "tab_ok (T[i := e]) ini np'"
proof -
  have len: "length T = NPROC" using assms(1) by (simp add: tab_ok_def)
  have nth: "T[i := e] ! j = (if j = i then e else T ! j)" if "j < NPROC" for j
    using that len assms(2) by (simp add: nth_list_update)
  have al: "alive (e_state (T ! j)) \<Longrightarrow> j < NPROC \<Longrightarrow> alive (e_state (T[i := e] ! j))" for j
    using st by (auto simp: nth)
  have old: "j < NPROC \<Longrightarrow> e_pid (T ! j) < np" for j using assms(1) by (auto simp: tab_ok_def)
  have "\<forall>j < NPROC. 0 \<le> e_pid (T[i := e] ! j) \<and> e_pid (T[i := e] ! j) < np' \<and>
      (e_state (T[i := e] ! j) \<noteq> UNUSED \<longrightarrow> 1 \<le> e_pid (T[i := e] ! j))"
    using assms(1,3) e by (auto simp: tab_ok_def nth)
  moreover have "\<forall>j < NPROC. \<forall>l < NPROC. j \<noteq> l \<longrightarrow> e_pid (T[i := e] ! j) = e_pid (T[i := e] ! l) \<longrightarrow> e_pid (T[i := e] ! j) = 0"
  proof (intro allI impI)
    fix j l
    assume jl: "j < NPROC" "l < NPROC" "j \<noteq> l" "e_pid (T[i := e] ! j) = e_pid (T[i := e] ! l)"
    have "e_pid e = 0" if "m < NPROC" "m \<noteq> i" "e_pid (T ! m) = e_pid e" for m
      using pid that old [of m] assms(1,2) by (auto simp: tab_ok_def)
    then show "e_pid (T[i := e] ! j) = 0"
      using jl assms(1) by (auto simp: nth tab_ok_def split: if_splits)
  qed
  moreover have "\<forall>j < NPROC. \<forall>l. e_parent (T[i := e] ! j) = Some l \<longrightarrow> l < NPROC \<and> alive (e_state (T[i := e] ! l))"
    using assms(1) al par by (auto simp: tab_ok_def nth split: if_splits)
  moreover have "\<forall>l. ini = Some l \<longrightarrow> l < NPROC \<and> alive (e_state (T[i := e] ! l))"
    using assms(1) al by (auto simp: tab_ok_def)
  moreover have "length (T[i := e]) = NPROC" "1 \<le> np'" using assms(1,3) len by (auto simp: tab_ok_def)
  ultimately show ?thesis unfolding tab_ok_def by blast
qed

lemma tab_ok_pids:
  "tab_ok T ini np \<Longrightarrow> i < NPROC \<Longrightarrow> j < NPROC \<Longrightarrow> i \<noteq> j \<Longrightarrow> e_pid (T ! i) = e_pid (T ! j) \<Longrightarrow> e_pid (T ! i) = 0"
  unfolding tab_ok_def by blast

text \<open>Waking processes up.\<close>

definition woken :: "entry list \<Rightarrow> entry list \<Rightarrow> bool" where
  "woken T T' \<longleftrightarrow> length T' = length T \<and>
     (\<forall>i < length T. e_pid (T' ! i) = e_pid (T ! i) \<and> e_parent (T' ! i) = e_parent (T ! i) \<and>
        (e_state (T' ! i) = e_state (T ! i) \<or> e_state (T ! i) = SLEEPING \<and> e_state (T' ! i) = RUNNABLE))"

lemma woken_refl [simp]: "woken T T"
  by (simp add: woken_def)

lemma woken_trans: "woken T T' \<Longrightarrow> woken T' T'' \<Longrightarrow> woken T T''"
  unfolding woken_def by (metis procstate.distinct(21))

lemma woken_ok:
  assumes "tab_ok T ini np" "woken T T'"
  shows "tab_ok T' ini np"
proof -
  have len: "length T = NPROC" using assms(1) by (simp add: tab_ok_def)
  have w: "e_pid (T' ! i) = e_pid (T ! i)" "e_parent (T' ! i) = e_parent (T ! i)"
      "alive (e_state (T' ! i)) = alive (e_state (T ! i))" "e_state (T' ! i) = UNUSED \<longleftrightarrow> e_state (T ! i) = UNUSED" if "i < NPROC" for i
    using assms(2) that len by (auto simp: woken_def alive_def)
  then show ?thesis using assms len by (auto simp: tab_ok_def woken_def)
qed

section \<open>The invariant of the kernel\<close>

definition table_ok :: "'f kernel \<Rightarrow> bool" where
  "table_ok k \<longleftrightarrow> tab_ok (tab k) (initproc k) (nextpid k) \<and> me k < NPROC \<and> initproc k \<noteq> None"

text \<open>The parts of the kernel state the invariant is about.\<close>

definition kcore :: "'f kernel \<Rightarrow> entry list \<times> nat option \<times> int \<times> nat" where
  "kcore k = (tab k, initproc k, nextpid k, me k)"

lemma kcore_eq: "kcore k' = kcore k \<longleftrightarrow> tab k' = tab k \<and> initproc k' = initproc k \<and> nextpid k' = nextpid k \<and> me k' = me k"
  by (auto simp: kcore_def)

lemma table_ok_kcore: "kcore k' = kcore k \<Longrightarrow> table_ok k \<Longrightarrow> table_ok k'"
  by (simp add: table_ok_def kcore_eq)

lemma kcore_length: "table_ok k \<Longrightarrow> length (ptable k) = NPROC"
  by (auto simp: table_ok_def tab_ok_def tab_def)

lemma tab_length: "table_ok k \<Longrightarrow> length (tab k) = NPROC"
  by (simp add: table_ok_def tab_ok_def)

lemma tab_nth: "i < length (ptable k) \<Longrightarrow> tab k ! i = identity (ptable k ! i)"
  by (simp add: tab_def)

lemma tab_update_same: "(map identity ps)[i := identity (ps ! i)] = map identity ps"
  by (cases "i < length ps") (auto simp: list_eq_iff_nth_eq nth_list_update)

lemma on_vm_kcore:
  assumes "on_vm i f k = Ret k'" "\<And>s s'. f s = Ret s' \<Longrightarrow> identity (cur s') = identity (cur s)"
  shows "kcore k' = kcore k"
proof -
  obtain s where "f (vm_of i k) = Ret s" "k' = put_vm i s k" using assms(1) by (auto simp: on_vm_def ret_iff)
  with assms(2) [of "vm_of i k" s] show ?thesis
    by (simp add: kcore_def tab_def put_vm_def vm_of_def map_update tab_update_same)
qed

lemma on_vmr_kcore:
  assumes "on_vmr i f k = Ret (r, k')" "\<And>s r s'. f s = Ret (r, s') \<Longrightarrow> identity (cur s') = identity (cur s)"
  shows "kcore k' = kcore k"
proof -
  obtain s where "f (vm_of i k) = Ret (r, s)" "k' = put_vm i s k" using assms(1) by (auto simp: on_vmr_def ret_iff)
  with assms(2) [of "vm_of i k" r s] show ?thesis
    by (simp add: kcore_def tab_def put_vm_def vm_of_def map_update tab_update_same)
qed

lemma upd_p_kcore: "identity (f (ptable k ! i)) = identity (ptable k ! i) \<Longrightarrow> kcore (upd_p i f k) = kcore k"
  by (simp add: kcore_def tab_def upd_p_def map_update tab_update_same)

lemma upd_p_tab: "tab (upd_p i f k) = (tab k)[i := identity (f (ptable k ! i))]"
  by (simp add: tab_def upd_p_def map_update)

lemma upd_p_fields [simp]:
  "initproc (upd_p i f k) = initproc k" "nextpid (upd_p i f k) = nextpid k" "me (upd_p i f k) = me k"
  by (simp_all add: upd_p_def)

text \<open>An update of one entry.\<close>

definition put_entry :: "nat \<Rightarrow> (entry \<Rightarrow> entry) \<Rightarrow> entry list \<times> nat option \<times> int \<times> nat \<Rightarrow> entry list \<times> nat option \<times> int \<times> nat" where
  "put_entry i g c = (case c of (T, rest) \<Rightarrow> (T[i := g (T ! i)], rest))"

lemma put_entry_twice [simp]: "put_entry i g (put_entry i h c) = put_entry i (\<lambda>e. g (h e)) c"
  by (cases "i < length (fst c)") (auto simp: put_entry_def list_update_beyond split: prod.splits)

lemma upd_p_entry:
  assumes "\<And>p. identity (f p) = g (identity p)"
  shows "kcore (upd_p i f k) = put_entry i g (kcore k)"
  by (cases "i < length (ptable k)")
    (auto simp: kcore_def put_entry_def upd_p_def tab_def map_update assms list_update_beyond)

definition set_state :: "procstate \<Rightarrow> entry \<Rightarrow> entry" where
  "set_state q e = (e_pid e, q, e_parent e)"

lemma upd_state_entry: "kcore (upd_p i (\<lambda>p. p\<lparr>p_state := q\<rparr>) k) = put_entry i (set_state q) (kcore k)"
  by (rule upd_p_entry) (simp add: identity_def set_state_def)

lemma upd_other_kcore [simp]:
  "kcore (upd_p i (\<lambda>p. p\<lparr>p_kstack := a\<rparr>) k) = kcore k" "kcore (upd_p i (\<lambda>p. p\<lparr>p_context_eip := u\<rparr>) k) = kcore k"
  "kcore (upd_p i (\<lambda>p. p\<lparr>p_pgdir := a\<rparr>) k) = kcore k" "kcore (upd_p i (\<lambda>p. p\<lparr>p_killed := b\<rparr>) k) = kcore k"
  "kcore (upd_p i (\<lambda>p. p\<lparr>p_cwd := c\<rparr>) k) = kcore k" "kcore (upd_p i (\<lambda>p. p\<lparr>p_tf := tf\<rparr>) k) = kcore k"
  "kcore (upd_p i (set_eax r) k) = kcore k"
  by (rule upd_p_kcore, simp add: identity_def set_eax_def)+

section \<open>Creating processes\<close>

lemma allocproc_paging_kcore: "allocproc_paging cf i k = Ret k' \<Longrightarrow> kcore k' = kcore k"
  unfolding allocproc_paging_def Let_def ret_iff
  apply clarsimp
  apply (drule on_vm_kcore, erule ident.alloc_fresh_fblocklst_part)
  apply (drule on_vmr_kcore, erule ident.swap_file_part)
  apply (simp add: upd_p_kcore identity_def)
  done

definition fresh_entry :: "int \<Rightarrow> procstate \<Rightarrow> entry \<Rightarrow> entry" where
  "fresh_entry pid q e = (pid, q, e_parent e)"

definition new_entry :: "nat \<Rightarrow> (entry \<Rightarrow> entry) \<Rightarrow> 'f kernel \<Rightarrow> entry list \<times> nat option \<times> int \<times> nat" where
  "new_entry i g k = put_entry i g (kcore (k\<lparr>nextpid := nextpid k + 1\<rparr>))"

lemma set_fresh [simp]: "(\<lambda>e. set_state q (fresh_entry pid q' e)) = fresh_entry pid q"
  by (auto simp: set_state_def fresh_entry_def)

lemma allocproc_kcore:
  assumes "allocproc cf k = Ret (po, k')"
  shows "case po of
      Some i \<Rightarrow> first_index (\<lambda>p. p_state p = UNUSED) (ptable k) = Some i \<and> kcore k' = new_entry i (fresh_entry (nextpid k) EMBRYO) k
    | None \<Rightarrow> kcore k' = kcore k \<or>
        (\<exists>i. first_index (\<lambda>p. p_state p = UNUSED) (ptable k) = Some i \<and> kcore k' = new_entry i (fresh_entry (nextpid k) UNUSED) k)"
proof (cases "first_index (\<lambda>p. p_state p = UNUSED) (ptable k)")
  case None
  then show ?thesis using assms by (auto simp: allocproc_def)
next
  case (Some i)
  let ?k1 = "(upd_p i (\<lambda>p. p\<lparr>p_state := EMBRYO, p_pid := nextpid k\<rparr>) k)\<lparr>nextpid := nextpid k + 1\<rparr>"
  have "kcore ?k1 = kcore (upd_p i (\<lambda>p. p\<lparr>p_state := EMBRYO, p_pid := nextpid k\<rparr>) (k\<lparr>nextpid := nextpid k + 1\<rparr>))"
    by (simp add: kcore_def tab_def upd_p_def)
  also have "\<dots> = new_entry i (fresh_entry (nextpid k) EMBRYO) k"
    unfolding new_entry_def by (rule upd_p_entry) (simp add: identity_def fresh_entry_def)
  finally have k1: "kcore ?k1 = new_entry i (fresh_entry (nextpid k) EMBRYO) k" .
  obtain stack k2 where st: "on_vmr i (on_kr kalloc) ?k1 = Ret (stack, k2)"
    and rest: "stack = 0 \<and> po = None \<and> k' = upd_p i (\<lambda>p. p\<lparr>p_state := UNUSED\<rparr>) (upd_p i (\<lambda>p. p\<lparr>p_kstack := stack\<rparr>) k2) \<or>
      po = Some i \<and> (let k3 = upd_p i (\<lambda>p. p\<lparr>p_context_eip := cf_forkret cf\<rparr>) (upd_p i (\<lambda>p. p\<lparr>p_kstack := stack\<rparr>) k2) in
        k' = k3 \<or> allocproc_paging cf i k3 = Ret k')"
    using assms Some by (auto simp: allocproc_def Let_def ret_iff split: if_splits)
  have k2: "kcore k2 = new_entry i (fresh_entry (nextpid k) EMBRYO) k"
    using on_vmr_kcore [OF st ident.on_kr_part] k1 by simp
  from rest show ?thesis
  proof
    assume "stack = 0 \<and> po = None \<and> k' = upd_p i (\<lambda>p. p\<lparr>p_state := UNUSED\<rparr>) (upd_p i (\<lambda>p. p\<lparr>p_kstack := stack\<rparr>) k2)"
    then show ?thesis using Some k2
      by (simp add: upd_state_entry new_entry_def)
  next
    assume "po = Some i \<and> (let k3 = upd_p i (\<lambda>p. p\<lparr>p_context_eip := cf_forkret cf\<rparr>) (upd_p i (\<lambda>p. p\<lparr>p_kstack := stack\<rparr>) k2) in
        k' = k3 \<or> allocproc_paging cf i k3 = Ret k')"
    then show ?thesis using Some k2 by (auto simp: Let_def dest!: allocproc_paging_kcore)
  qed
qed

lemma fork_swap_pages_identity [simp]: "identity (fork_pages sel c p) = identity p"
  by (simp add: fork_pages_def identity_def Let_def)

lemma fork_paging_kcore: "fork_paging cf i k = Ret k' \<Longrightarrow> kcore k' = kcore k"
  unfolding fork_paging_def Let_def ret_iff
  apply clarsimp
  apply (drule on_vm_kcore, erule ident.fork_swap_part)
  apply (auto simp: ret_iff upd_p_kcore identity_def dest!: on_vmr_kcore [OF _ ident.copyAQ_part])
  apply (simp_all add: upd_p_kcore fork_pages_def identity_def Let_def)
  done

lemma dup_files_kcore: "for_each (dup_file i) fds k = Ret k' \<Longrightarrow> kcore k' = kcore k"
proof (induction fds arbitrary: k)
  case (Cons fd fds)
  then obtain k1 where d: "dup_file i fd k = Ret k1" and r: "for_each (dup_file i) fds k1 = Ret k'" by (auto simp: ret_iff)
  have "kcore k1 = kcore k"
    using d by (auto simp: dup_file_def case_Ret_iff ret_iff upd_p_kcore identity_def dest!: on_vmr_kcore [OF _ ident.filedup_part])
  then show ?case using Cons.IH [OF r] by simp
qed simp

definition child_entry :: "int \<Rightarrow> nat \<Rightarrow> entry \<Rightarrow> entry" where
  "child_entry pid m e = (pid, RUNNABLE, Some m)"

lemma new_entry_me [simp]: "snd (snd (snd (new_entry i g k))) = me k"
  by (simp add: new_entry_def put_entry_def kcore_def)

lemma me_kcore: "kcore k = c \<Longrightarrow> me k = snd (snd (snd c))"
  by (auto simp: kcore_def)

lemma fork_kcore:
  assumes "fork cf k = Ret (r, k')"
  shows "kcore k' = kcore k \<or> (\<exists>i g. first_index (\<lambda>p. p_state p = UNUSED) (ptable k) = Some i \<and> kcore k' = new_entry i g k \<and>
    (g = fresh_entry (nextpid k) UNUSED \<or> g = child_entry (nextpid k) (me k)))"
proof -
  obtain po k1 where a: "allocproc cf k = Ret (po, k1)" using assms by (auto simp: fork_def ret_iff)
  note A = allocproc_kcore [OF a]
  show ?thesis
  proof (cases po)
    case None
    then show ?thesis using A assms a by (auto simp: fork_def)
  next
    case (Some i)
    let ?e = "fresh_entry (nextpid k) EMBRYO"
    have i: "first_index (\<lambda>p. p_state p = UNUSED) (ptable k) = Some i" and k1: "kcore k1 = new_entry i ?e k"
      using A Some by simp_all
    let ?f = "if p_pid (curproc k1) \<le> 2 then copyuvm (cf_sel cf) (cf_data cf) (p_pgdir (curproc k1)) (p_sz (curproc k1))
              else cowuvm (cf_data cf) (p_pgdir (curproc k1)) (p_sz (curproc k1))"
    obtain d k2 where d: "on_vmr (me k1) ?f k1 = Ret (d, k2)" using assms a Some by (auto simp: fork_def ret_iff Let_def)
    have "kcore k2 = kcore k1"
      by (rule on_vmr_kcore [OF d]) (auto split: if_splits dest: ident.copyuvm_part ident.cowuvm_part)
    then have k2: "kcore k2 = new_entry i ?e k" using k1 by simp
    define k3 where "k3 = upd_p i (\<lambda>p. p\<lparr>p_pgdir := d\<rparr>) k2"
    have k3: "kcore k3 = new_entry i ?e k" using k2 by (simp add: k3_def)
    show ?thesis
    proof (cases "d = 0")
      case True
      then obtain k4 where k4: "on_vm i (on_k (kfree (p_kstack (proc_at i k3)))) k3 = Ret k4"
        and k': "k' = upd_p i (\<lambda>p. p\<lparr>p_kstack := 0, p_state := UNUSED\<rparr>) k4"
        using assms a Some d by (auto simp: fork_def ret_iff Let_def k3_def)
      have "kcore k' = put_entry i (set_state UNUSED) (kcore k4)"
        unfolding k' by (rule upd_p_entry) (simp add: identity_def set_state_def)
      then show ?thesis using on_vm_kcore [OF k4 ident.on_k_part] k3 i by (auto simp: new_entry_def)
    next
      case False
      define k4 where "k4 = upd_p i (\<lambda>p. p\<lparr>p_sz := p_sz (curproc k1), p_parent := Some (me k3), p_tf := p_tf (curproc k3)\<rparr>) k3"
      have m: "me k3 = me k" using me_kcore [OF k3] by simp
      have k4: "kcore k4 = new_entry i (\<lambda>e. (nextpid k, EMBRYO, Some (me k))) k"
      proof -
        have "kcore k4 = put_entry i (\<lambda>e. (e_pid e, e_state e, Some (me k))) (kcore k3)"
          unfolding k4_def by (rule upd_p_entry) (simp add: identity_def m)
        then show ?thesis using k3 by (simp add: new_entry_def fresh_entry_def)
      qed
      obtain k5 k6 cwd k7 where
        5: "(if p_pid (curproc k4) > 2 then fork_paging cf i k4 else Ret k4) = Ret k5"
        and 6: "for_each (dup_file i) [0..<NOFILE] (upd_p i (\<lambda>p. p\<lparr>p_tf := (p_tf p)\<lparr>tf_eax := 0\<rparr>\<rparr>) k5) = Ret k6"
        and 7: "(case p_cwd (curproc k6) of None \<Rightarrow> Fault | Some cwd \<Rightarrow> on_vmr (me k6) (on_fsr (idup cwd)) k6) = Ret (cwd, k7)"
        and k': "k' = upd_p i (\<lambda>p. p\<lparr>p_state := RUNNABLE\<rparr>) (upd_p i (\<lambda>p. p\<lparr>p_cwd := Some cwd, p_name := take 15 (p_name (curproc k7))\<rparr>) k7)"
        using assms a Some d False by (auto simp: fork_def ret_iff Let_def k3_def k4_def)
      have "kcore k5 = kcore k4" using 5 by (auto split: if_splits dest: fork_paging_kcore)
      moreover have "kcore k6 = kcore k5" using dup_files_kcore [OF 6] by (simp add: upd_p_kcore identity_def)
      moreover have "kcore k7 = kcore k6" using 7 by (auto simp: case_Ret_iff dest!: on_vmr_kcore [OF _ ident.on_fsr_part])
      moreover have "kcore k' = put_entry i (set_state RUNNABLE) (kcore k7)"
        unfolding k' by (simp add: upd_state_entry upd_p_kcore identity_def)
      ultimately have "kcore k' = put_entry i (set_state RUNNABLE) (kcore k4)" by simp
      then have "kcore k' = new_entry i (child_entry (nextpid k) (me k)) k"
        unfolding k4 by (simp add: new_entry_def set_state_def child_entry_def [abs_def])
      then show ?thesis using i by blast
    qed
  qed
qed

section \<open>What a running process does\<close>

text \<open>
  The invariant holds afterwards, the same process runs on this CPU, with its pid, and no other process that is ready to
  run ceases to be so.
\<close>

definition proceeds :: "'f kernel \<Rightarrow> 'f kernel \<Rightarrow> bool" where
  "proceeds k k' \<longleftrightarrow> table_ok k' \<and> me k' = me k \<and> initproc k' = initproc k \<and> e_pid (tab k' ! me k) = e_pid (tab k ! me k) \<and>
     (\<forall>i < NPROC. i \<noteq> me k \<longrightarrow> e_state (tab k ! i) = RUNNABLE \<longrightarrow> e_state (tab k' ! i) = RUNNABLE)"

lemma proceeds_trans: "proceeds k k' \<Longrightarrow> proceeds k' k'' \<Longrightarrow> proceeds k k''"
  by (simp add: proceeds_def)

lemma proceeds_kcore: "table_ok k \<Longrightarrow> kcore k' = kcore k \<Longrightarrow> proceeds k k'"
  by (simp add: proceeds_def table_ok_def kcore_eq)

lemma proceeds_cong: "proceeds k k' \<Longrightarrow> kcore k'' = kcore k' \<Longrightarrow> proceeds k k''"
  by (auto simp: proceeds_def table_ok_def kcore_eq)

lemma proceeds_woken:
  assumes "table_ok k" "woken (tab k) (tab k')" "initproc k' = initproc k" "nextpid k' = nextpid k" "me k' = me k"
  shows "proceeds k k'"
proof -
  have "length (tab k) = NPROC" using assms(1) by (simp add: table_ok_def tab_ok_def)
  then have "\<forall>i < NPROC. e_state (tab k ! i) = RUNNABLE \<longrightarrow> e_state (tab k' ! i) = RUNNABLE"
    using assms(2) by (auto simp: woken_def)
  moreover have "e_pid (tab k' ! me k) = e_pid (tab k ! me k)"
    using assms(1,2) tab_length [OF assms(1)] by (simp add: woken_def table_ok_def)
  ultimately show ?thesis using assms woken_ok [of "tab k"] by (simp add: proceeds_def table_ok_def)
qed

lemma proceeds_entry:
  assumes "table_ok k" "i < NPROC" "kcore k' = put_entry i g (kcore (k\<lparr>nextpid := np\<rparr>))" "nextpid k \<le> np"
    and e: "0 \<le> e_pid (g (tab k ! i))" "e_pid (g (tab k ! i)) < np" "e_state (g (tab k ! i)) \<noteq> UNUSED \<longrightarrow> 1 \<le> e_pid (g (tab k ! i))"
      "e_pid (g (tab k ! i)) = 0 \<or> e_pid (g (tab k ! i)) = e_pid (tab k ! i) \<or> nextpid k \<le> e_pid (g (tab k ! i))"
      "alive (e_state (tab k ! i)) \<longrightarrow> alive (e_state (g (tab k ! i)))"
      "i \<noteq> me k \<longrightarrow> e_state (tab k ! i) = RUNNABLE \<longrightarrow> e_state (g (tab k ! i)) = RUNNABLE"
      "i = me k \<longrightarrow> e_pid (g (tab k ! i)) = e_pid (tab k ! i)"
    and par: "\<And>j. e_parent (g (tab k ! i)) = Some j \<Longrightarrow> j < NPROC \<and> alive (e_state ((tab k)[i := g (tab k ! i)] ! j))"
  shows "proceeds k k'"
proof -
  have k': "tab k' = (tab k)[i := g (tab k ! i)]" "initproc k' = initproc k" "nextpid k' = np" "me k' = me k"
    using assms(3) by (auto simp: kcore_def put_entry_def tab_def)
  have ok: "tab_ok (tab k) (initproc k) (nextpid k)" using assms(1) by (simp add: table_ok_def)
  then have "length (tab k) = NPROC" by (simp add: tab_ok_def)
  then have "\<forall>j < NPROC. j \<noteq> me k \<longrightarrow> e_state (tab k ! j) = RUNNABLE \<longrightarrow> e_state (tab k' ! j) = RUNNABLE"
    using e(6) assms(2) by (auto simp: k' nth_list_update)
  moreover have "e_pid (tab k' ! me k) = e_pid (tab k ! me k)"
    using e(7) assms(2) by (cases "me k = i") (auto simp: k' tab_length [OF assms(1)])
  moreover have "tab_ok (tab k') (initproc k') (nextpid k')"
    unfolding k' by (rule tab_ok_update [OF ok assms(2,4)]) (use e par in auto)
  ultimately show ?thesis using assms(1) by (simp add: proceeds_def table_ok_def k')
qed

text \<open>The entries of a table that is well formed.\<close>

lemma entry_facts:
  assumes "table_ok k" "i < NPROC"
  shows "0 \<le> e_pid (tab k ! i)" "e_pid (tab k ! i) < nextpid k" "e_state (tab k ! i) \<noteq> UNUSED \<longrightarrow> 1 \<le> e_pid (tab k ! i)"
    "\<And>j. e_parent (tab k ! i) = Some j \<Longrightarrow> j < NPROC \<and> alive (e_state (tab k ! j))"
  using assms by (auto simp: table_ok_def tab_ok_def)

lemma proceeds_state:
  assumes "table_ok k" "i < NPROC" "kcore k' = put_entry i (set_state q) (kcore k)"
    "q \<noteq> UNUSED \<longrightarrow> e_state (tab k ! i) \<noteq> UNUSED" "alive (e_state (tab k ! i)) \<longrightarrow> alive q"
    "i \<noteq> me k \<longrightarrow> e_state (tab k ! i) = RUNNABLE \<longrightarrow> q = RUNNABLE"
  shows "proceeds k k'"
proof (rule proceeds_entry [OF assms(1,2), where g = "set_state q" and np = "nextpid k"])
  fix j
  assume "e_parent (set_state q (tab k ! i)) = Some j"
  then have "j < NPROC \<and> alive (e_state (tab k ! j))" using entry_facts(4) [OF assms(1,2)] by (simp add: set_state_def)
  then show "j < NPROC \<and> alive (e_state ((tab k)[i := set_state q (tab k ! i)] ! j))"
    using assms(5) by (cases "j = i") (auto simp: set_state_def tab_length [OF assms(1)])
qed (use assms entry_facts(1,2,3) [OF assms(1,2)] in \<open>auto simp: set_state_def\<close>)

lemma curproc_state: "table_ok k \<Longrightarrow> e_state (tab k ! me k) = p_state (curproc k)"
  using kcore_length [of k] by (simp add: tab_nth identity_def table_ok_def)

lemma fork_proceeds:
  assumes "table_ok k" "p_state (curproc k) = RUNNING" "fork cf k = Ret (r, k')"
  shows "proceeds k k'"
proof (cases "kcore k' = kcore k")
  case True
  with assms(1) show ?thesis by (rule proceeds_kcore)
next
  case False
  then obtain i g where fi: "first_index (\<lambda>p. p_state p = UNUSED) (ptable k) = Some i" and k': "kcore k' = new_entry i g k"
    and g: "g = fresh_entry (nextpid k) UNUSED \<or> g = child_entry (nextpid k) (me k)"
    using fork_kcore [OF assms(3)] by blast
  have i: "i < NPROC" "e_state (tab k ! i) = UNUSED"
    using first_index_Some [OF fi] kcore_length [OF assms(1)] by (auto simp: tab_nth identity_def)
  have m: "me k < NPROC" "e_state (tab k ! me k) = RUNNING" "me k \<noteq> i"
    using assms(1,2) i curproc_state [OF assms(1)] by (auto simp: table_ok_def)
  have np: "1 \<le> nextpid k" using assms(1) by (simp add: table_ok_def tab_ok_def)
  show ?thesis
  proof (rule proceeds_entry [OF assms(1) i(1), where g = g and np = "nextpid k + 1"])
    show "kcore k' = put_entry i g (kcore (k\<lparr>nextpid := nextpid k + 1\<rparr>))" using k' by (simp add: new_entry_def)
  next
    fix j
    assume "e_parent (g (tab k ! i)) = Some j"
    then have "j = me k \<or> e_parent (tab k ! i) = Some j" using g by (auto simp: fresh_entry_def child_entry_def)
    then have "j < NPROC \<and> alive (e_state (tab k ! j))" using m entry_facts(4) [OF assms(1) i(1)] by (auto simp: alive_def)
    then show "j < NPROC \<and> alive (e_state ((tab k)[i := g (tab k ! i)] ! j))"
      using i by (cases "j = i") (auto simp: alive_def tab_length [OF assms(1)])
  qed (use g np i m in \<open>auto simp: fresh_entry_def child_entry_def alive_def\<close>)
qed

section \<open>Waking, ending and reaping\<close>

lemma wakeup1_woken: "woken (tab k) (tab (wakeup1 chan k))"
  by (auto simp: woken_def wakeup1_def tab_def identity_def)

lemma wakeup1_fields [simp]:
  "initproc (wakeup1 chan k) = initproc k" "nextpid (wakeup1 chan k) = nextpid k" "me (wakeup1 chan k) = me k"
  by (simp_all add: wakeup1_def)

lemma wakeup1_proceeds: "table_ok k \<Longrightarrow> proceeds k (wakeup1 chan k)"
  by (rule proceeds_woken) (simp_all add: wakeup1_woken)

lemma wakeup1_parent: "i < length (tab k) \<Longrightarrow> e_parent (tab (wakeup1 chan k) ! i) = e_parent (tab k ! i)"
  using wakeup1_woken [of k chan] by (simp add: woken_def)

lemma abandon_proceeds:
  assumes "table_ok k" "i < NPROC"
  shows "proceeds k (abandon cf i k)"
    and "j < NPROC \<Longrightarrow> e_parent (tab (abandon cf i k) ! j) =
      (if j = i \<and> e_parent (tab k ! i) = Some (me k) then initproc k else e_parent (tab k ! j))"
proof -
  let ?k = "upd_p i (\<lambda>p. p\<lparr>p_parent := initproc k\<rparr>) k"
  have par: "e_parent (tab k ! i) = p_parent (proc_at i k)"
    using assms kcore_length [OF assms(1)] by (simp add: tab_nth identity_def)
  have c: "kcore ?k = put_entry i (\<lambda>e. (e_pid e, e_state e, initproc k)) (kcore (k\<lparr>nextpid := nextpid k\<rparr>))"
    by (subst upd_p_entry [where g = "\<lambda>e. (e_pid e, e_state e, initproc k)"]) (simp_all add: identity_def)
  have p: "proceeds k ?k"
  proof (rule proceeds_entry [OF assms c])
    fix j
    assume "e_parent (e_pid (tab k ! i), e_state (tab k ! i), initproc k) = Some j"
    then have "j < NPROC \<and> alive (e_state (tab k ! j))" using assms(1) by (auto simp: table_ok_def tab_ok_def)
    then show "j < NPROC \<and> alive (e_state ((tab k)[i := (e_pid (tab k ! i), e_state (tab k ! i), initproc k)] ! j))"
      by (cases "j = i") (auto simp: tab_length [OF assms(1)])
  qed (use entry_facts [OF assms] in auto)
  have t: "tab ?k = (tab k)[i := (e_pid (tab k ! i), e_state (tab k ! i), initproc k)]"
    using c by (simp add: kcore_def put_entry_def tab_def)
  have ok: "table_ok ?k" using p by (simp add: proceeds_def)
  show "proceeds k (abandon cf i k)"
    using p proceeds_trans [OF p wakeup1_proceeds [OF ok]] assms(1) by (auto simp: abandon_def Let_def proceeds_kcore)
  show "e_parent (tab (abandon cf i k) ! j) =
      (if j = i \<and> e_parent (tab k ! i) = Some (me k) then initproc k else e_parent (tab k ! j))" if "j < NPROC"
    using that assms(2) par tab_length [OF assms(1)]
    by (auto simp: abandon_def Let_def wakeup1_parent t nth_list_update)
qed

lemma abandon_all:
  assumes "table_ok k" "initproc k \<noteq> Some (me k)" "n \<le> NPROC"
  shows "proceeds k (fold (abandon cf) [0..<n] k) \<and> (\<forall>i < n. e_parent (tab (fold (abandon cf) [0..<n] k) ! i) \<noteq> Some (me k))"
  using assms(3)
proof (induction n)
  case 0
  then show ?case using assms(1) by (simp add: proceeds_kcore)
next
  case (Suc n)
  let ?k = "fold (abandon cf) [0..<n] k"
  have IH: "proceeds k ?k" "\<forall>i < n. e_parent (tab ?k ! i) \<noteq> Some (me k)" using Suc by auto
  then have ok: "table_ok ?k" and f: "me ?k = me k" "initproc ?k = initproc k" by (auto simp: proceeds_def)
  have n: "n < NPROC" using Suc by simp
  note A = abandon_proceeds [OF ok n, where cf = cf]
  have "e_parent (tab (abandon cf n ?k) ! i) \<noteq> Some (me k)" if "i < Suc n" for i
    using IH(2) that n A(2) [of i] f assms(2) by (cases "i = n") auto
  then show ?case using proceeds_trans [OF IH(1) A(1)] by simp
qed

lemma zombie_ok:
  assumes "tab_ok T ini np" "m < NPROC" "ini \<noteq> Some m" "1 \<le> e_pid (T ! m)" "\<forall>i < NPROC. e_parent (T ! i) \<noteq> Some m"
  shows "tab_ok (T[m := set_state ZOMBIE (T ! m)]) ini np"
proof -
  let ?T = "T[m := set_state ZOMBIE (T ! m)]"
  have len: "length T = NPROC" using assms(1) by (simp add: tab_ok_def)
  have same: "e_pid (?T ! i) = e_pid (T ! i)" "e_parent (?T ! i) = e_parent (T ! i)" for i
    using assms(2) len by (cases "i = m"; simp add: set_state_def)+
  have st: "i \<noteq> m \<Longrightarrow> e_state (?T ! i) = e_state (T ! i)" for i by simp
  have "e_state (?T ! i) \<noteq> UNUSED \<longrightarrow> 1 \<le> e_pid (T ! i)" if "i < NPROC" for i
    using assms(1,4) st [of i] that by (cases "i = m") (auto simp: tab_ok_def)
  moreover have "j < NPROC \<and> alive (e_state (?T ! j))" if "i < NPROC" "e_parent (T ! i) = Some j" for i j
    using assms(1,5) st [of j] that by (cases "j = m") (auto simp: tab_ok_def)
  moreover have "j < NPROC \<and> alive (e_state (?T ! j))" if "ini = Some j" for j
    using assms(1,3) st [of j] that by (cases "j = m") (auto simp: tab_ok_def)
  moreover have "length ?T = NPROC" "1 \<le> np"
      "\<forall>i < NPROC. 0 \<le> e_pid (T ! i) \<and> e_pid (T ! i) < np"
      "\<forall>i < NPROC. \<forall>j < NPROC. i \<noteq> j \<longrightarrow> e_pid (T ! i) = e_pid (T ! j) \<longrightarrow> e_pid (T ! i) = 0"
    using assms(1) len by (simp_all add: tab_ok_def)
  ultimately show ?thesis unfolding tab_ok_def same by blast
qed

lemma exit_proceeds:
  assumes "table_ok k" "alive (p_state (curproc k))" "exit cf k = Ret k'"
  shows "proceeds k k'"
proof -
  obtain k1 k2 k3 where ini: "initproc k \<noteq> Some (me k)"
    and 1: "on_vm (me k) (for_each close_fd [0..<NOFILE]) k = Ret k1"
    and 2: "on_vm (me k1) (on_fs (iput_op (p_cwd (curproc k1)))) k1 = Ret k2"
    and 3: "(let k = upd_p (me k2) (\<lambda>p. p\<lparr>p_cwd := None\<rparr>) k2 in
      k3 = k \<or> (\<exists>r. on_vmr (me k) (removeSwapFile (cf_dv cf) (p_pid (curproc k)) (p_swapFile (curproc k))) k = Ret (r, k3)))"
    and k': "k' = (let k = fold (abandon cf) [0..<NPROC] (wakeup1 (parent_chan cf (p_parent (curproc k3))) k3)
      in upd_p (me k) (\<lambda>p. p\<lparr>p_state := ZOMBIE\<rparr>) k)"
    using assms(3) by (auto simp: exit_def ret_iff Let_def split: if_splits)
  have "kcore k1 = kcore k" "kcore k2 = kcore k1"
    using on_vm_kcore [OF 1 ident.close_fds_part] on_vm_kcore [OF 2 ident.on_fs_part] by simp_all
  moreover have "kcore k3 = kcore k2"
    using 3 by (auto simp: Let_def dest!: on_vmr_kcore [OF _ ident.swap_file_part(2)])
  ultimately have c3: "kcore k3 = kcore k" by simp
  have p3: "proceeds k k3" using assms(1) c3 by (rule proceeds_kcore)
  let ?k4 = "wakeup1 (parent_chan cf (p_parent (curproc k3))) k3"
  have p4: "proceeds k ?k4" using p3 wakeup1_proceeds by (metis proceeds_trans proceeds_def)
  then have ok4: "table_ok ?k4" and f4: "me ?k4 = me k" "initproc ?k4 = initproc k" by (auto simp: proceeds_def)
  let ?k5 = "fold (abandon cf) [0..<NPROC] ?k4"
  have A: "proceeds ?k4 ?k5" "\<forall>i < NPROC. e_parent (tab ?k5 ! i) \<noteq> Some (me k)"
    using abandon_all [OF ok4, of NPROC cf] ini f4 by auto
  have p5: "proceeds k ?k5" using p4 A(1) by (rule proceeds_trans)
  then have ok5: "table_ok ?k5" and f5: "me ?k5 = me k" "initproc ?k5 = initproc k" by (auto simp: proceeds_def)
  have m: "me k < NPROC" using assms(1) by (simp add: table_ok_def)
  have pid: "1 \<le> e_pid (tab ?k5 ! me k)"
    using p5 entry_facts(3) [OF assms(1) m] curproc_state [OF assms(1)] assms(2) by (auto simp: proceeds_def alive_def)
  have "kcore k' = put_entry (me k) (set_state ZOMBIE) (kcore ?k5)" by (simp add: k' Let_def upd_state_entry f5)
  then have t: "tab k' = (tab ?k5)[me k := set_state ZOMBIE (tab ?k5 ! me k)]" and
    f: "initproc k' = initproc k" "nextpid k' = nextpid ?k5" "me k' = me k"
    using f5 by (auto simp: kcore_def put_entry_def)
  have "tab_ok (tab k') (initproc k') (nextpid k')"
    unfolding t f using ok5 A(2) ini m pid f5 by (intro zombie_ok) (auto simp: table_ok_def)
  then show ?thesis using p5 m tab_length [OF ok5] by (auto simp: proceeds_def table_ok_def t f set_state_def nth_list_update)
qed

section \<open>System calls\<close>

text \<open>The process that runs goes on running.\<close>

definition continues :: "'f kernel \<Rightarrow> 'f kernel \<Rightarrow> bool" where
  "continues k k' \<longleftrightarrow> proceeds k k' \<and> (p_state (curproc k) = RUNNING \<longrightarrow> p_state (curproc k') = RUNNING)"

lemma continuesI:
  assumes "table_ok k" "proceeds k k'" "e_state (tab k ! me k) = RUNNING \<Longrightarrow> e_state (tab k' ! me k) = RUNNING"
  shows "continues k k'"
proof -
  have "table_ok k'" "me k' = me k" using assms(2) by (auto simp: proceeds_def)
  then show ?thesis using assms curproc_state [of k] curproc_state [of k'] by (simp add: continues_def)
qed

lemma continues_kcore: "table_ok k \<Longrightarrow> kcore k' = kcore k \<Longrightarrow> continues k k'"
  by (rule continuesI) (auto simp: proceeds_kcore kcore_eq)

lemma continues_refl [simp]: "table_ok k \<Longrightarrow> continues k k"
  by (rule continues_kcore) simp_all

lemma continues_trans: "continues k k' \<Longrightarrow> continues k' k'' \<Longrightarrow> continues k k''"
  using proceeds_trans by (auto simp: continues_def)

lemma continuesD: "continues k k' \<Longrightarrow> proceeds k k'" "continues k k' \<Longrightarrow> table_ok k'"
  "continues k k' \<Longrightarrow> p_state (curproc k) = RUNNING \<Longrightarrow> p_state (curproc k') = RUNNING"
  by (auto simp: continues_def proceeds_def)

lemma continues_woken:
  assumes "table_ok k" "woken (tab k) (tab k')" "initproc k' = initproc k" "nextpid k' = nextpid k" "me k' = me k"
  shows "continues k k'"
  using assms tab_length [OF assms(1)]
  by (intro continuesI proceeds_woken) (auto simp: woken_def table_ok_def)

lemma continues_entry:
  assumes "table_ok k" "proceeds k k'" "kcore k' = put_entry i g (kcore (k\<lparr>nextpid := np\<rparr>))" "i \<noteq> me k"
  shows "continues k k'"
proof (rule continuesI [OF assms(1,2)])
  have "tab k' = (tab k)[i := g (tab k ! i)]" using assms(3) by (auto simp: kcore_def put_entry_def tab_def)
  then show "e_state (tab k ! me k) = RUNNING \<Longrightarrow> e_state (tab k' ! me k) = RUNNING" using assms(4) by simp
qed

lemma fork_continues:
  assumes "table_ok k" "p_state (curproc k) = RUNNING" "fork cf k = Ret (r, k')"
  shows "continues k k'"
proof (cases "kcore k' = kcore k")
  case False
  then obtain i g where fi: "first_index (\<lambda>p. p_state p = UNUSED) (ptable k) = Some i" and k': "kcore k' = new_entry i g k"
    using fork_kcore [OF assms(3)] by blast
  have "i \<noteq> me k" using first_index_Some [OF fi] assms(2) by auto
  then show ?thesis using continues_entry [OF assms(1) fork_proceeds [OF assms]] k' by (simp add: new_entry_def)
qed (rule continues_kcore [OF assms(1)])

lemma reap_kcore:
  assumes "reap sel i k = Ret (r, k')"
  shows "kcore k' = put_entry i (\<lambda>e. (0, UNUSED, None)) (kcore k)"
proof -
  obtain k1 k2 where 1: "on_vm (me k) (on_k (kfree (p_kstack (proc_at i k)))) k = Ret k1"
    and 2: "on_vm (me k1) (freevm (p_pgdir (proc_at i (upd_p i (\<lambda>p. p\<lparr>p_kstack := 0\<rparr>) k1)))) (upd_p i (\<lambda>p. p\<lparr>p_kstack := 0\<rparr>) k1) = Ret k2"
    and k': "k' = (let k = upd_p i (\<lambda>p. p\<lparr>p_pid := 0, p_parent := None, p_name := [], p_killed := False, clockHand := 0,
            free_head := 0, free_tail := 0, queue_head := 0, queue_tail := 0, numswappages := 0, nummemorypages := 0\<rparr>) k2;
          k = (if sel \<noteq> NONE then upd_p i (\<lambda>p. p\<lparr>ramPages := replicate MAX_PSYC_PAGES zero_page,
                swappedPages := replicate MAX_PSYC_PAGES zero_page\<rparr>) k else k)
      in upd_p i (\<lambda>p. p\<lparr>p_state := UNUSED\<rparr>) k)"
    using assms by (auto simp: reap_def ret_iff Let_def)
  have "kcore k2 = kcore k"
    using on_vm_kcore [OF 1 ident.on_k_part] on_vm_kcore [OF 2 ident.freevm_part] by simp
  moreover define k3 where "k3 = upd_p i (\<lambda>p. p\<lparr>p_pid := 0, p_parent := None, p_name := [], p_killed := False, clockHand := 0,
            free_head := 0, free_tail := 0, queue_head := 0, queue_tail := 0, numswappages := 0, nummemorypages := 0\<rparr>) k2"
  have "kcore k3 = put_entry i (\<lambda>e. (0, e_state e, None)) (kcore k2)"
    unfolding k3_def by (rule upd_p_entry) (simp add: identity_def)
  moreover have "kcore k' = put_entry i (set_state UNUSED) (kcore k3)"
    unfolding k' k3_def [symmetric] Let_def by (simp add: upd_state_entry upd_p_kcore identity_def)
  ultimately show ?thesis by (simp add: set_state_def)
qed

lemma wait_continues:
  assumes "table_ok k" "p_state (curproc k) = RUNNING" "wait sel k = Ret (r, k')"
  shows "continues k k'"
proof (cases "first_index (\<lambda>p. p_parent p = Some (me k) \<and> p_state p = ZOMBIE) (ptable k)")
  case None
  then have "k' = k" using assms(3) by (auto simp: wait_def split: if_splits)
  then show ?thesis using assms(1) by simp
next
  case (Some i)
  then have "reap sel i k = Ret (r, k')" using assms(3) by (simp add: wait_def)
  then have c: "kcore k' = put_entry i (\<lambda>e. (0, UNUSED, None)) (kcore (k\<lparr>nextpid := nextpid k\<rparr>))" using reap_kcore by simp
  have i: "i < NPROC" "e_state (tab k ! i) = ZOMBIE"
    using first_index_Some [OF Some] kcore_length [OF assms(1)] by (auto simp: tab_nth identity_def)
  have ne: "i \<noteq> me k" using first_index_Some [OF Some] assms(2) by auto
  have np: "1 \<le> nextpid k" using assms(1) by (simp add: table_ok_def tab_ok_def)
  have "proceeds k k'"
    by (rule proceeds_entry [OF assms(1) i(1) c]) (use i ne np in \<open>auto simp: alive_def\<close>)
  then show ?thesis using c ne by (rule continues_entry [OF assms(1)])
qed

lemma kill_continues:
  assumes "table_ok k" "kill pid k = (r, k')"
  shows "continues k k'"
proof (cases "first_index (\<lambda>p. p_pid p = pid) (ptable k)")
  case None
  then show ?thesis using assms by (simp add: kill_def)
next
  case (Some i)
  let ?f = "\<lambda>p. p\<lparr>p_killed := True, p_state := if p_state p = SLEEPING then RUNNABLE else p_state p\<rparr>"
  have k': "k' = upd_p i ?f k" using Some assms(2) by (simp add: kill_def)
  have "woken (tab k) (tab k')"
    using first_index_Some [OF Some] unfolding k' by (auto simp: woken_def upd_p_def tab_def nth_list_update identity_def)
  then show ?thesis by (rule continues_woken [OF assms(1)]) (simp_all add: k')
qed

fun call_kernel :: "'k call_end \<Rightarrow> 'k" where
  "call_kernel (Returns r k) = k"
| "call_kernel (Exits k) = k"

lemma returns_vm_continues:
  assumes "table_ok k" "returns_vm i f k = Ret e" "\<And>s r s'. f s = Ret (r, s') \<Longrightarrow> identity (cur s') = identity (cur s)"
  shows "continues k (call_kernel e)"
proof -
  obtain r k' where v: "on_vmr i f k = Ret (r, k')" and e: "e = Returns r k'" using assms(2) by (auto simp: returns_vm_def ret_iff)
  have "kcore k' = kcore k" by (rule on_vmr_kcore [OF v]) (rule assms(3))
  then show ?thesis using continues_kcore [OF assms(1)] e by simp
qed

lemma returns_k_continues:
  assumes "returns_k f k = Ret e" "\<And>r k'. f k = Ret (r, k') \<Longrightarrow> continues k k'"
  shows "continues k (call_kernel e)"
  using assms by (auto simp: returns_k_def ret_iff)

lemma with_arg_continues:
  assumes "table_ok k" "with_arg m f k = Ret (r, k')" "\<And>x r k'. f x k = Ret (r, k') \<Longrightarrow> continues k k'"
  shows "continues k k'"
  using assms by (auto simp: with_arg_def ret_iff case_Ret_iff)

text \<open>A call that returns lets the process run on; \<open>exit\<close> ends it.\<close>

definition call_ok :: "'f kernel \<Rightarrow> 'f kernel call_end \<Rightarrow> bool" where
  "call_ok k e \<longleftrightarrow> (case e of Returns r k' \<Rightarrow> continues k k' | Exits k' \<Rightarrow> proceeds k k')"

lemma call_okI: "continues k (call_kernel e) \<Longrightarrow> call_ok k e"
  by (cases e) (auto simp: call_ok_def continues_def)

lemmas vm_calls =
  ident.sys_pipe_part ident.sys_files_part ident.sys_exec_part ident.sys_paths_part ident.sys_procs_part ident.sys_open_part

lemma syscalls_ok:
  assumes ok: "table_ok k" and run: "p_state (curproc k) = RUNNING" and f: "syscalls cf num = Some f" and e: "f k = Ret e"
  shows "call_ok k e"
proof -
  have vm: "call_ok k e" if "g = (\<lambda>k. returns_vm (me k) h k)" "g k = Ret e"
    "\<And>s r s'. h s = Ret (r, s') \<Longrightarrow> identity (cur s') = identity (cur s)" for g h
    using that returns_vm_continues [OF ok, of "me k" h e] by (intro call_okI) auto
  have kern: "call_ok k e" if "returns_k g k = Ret e" "\<And>r k'. g k = Ret (r, k') \<Longrightarrow> continues k k'" for g
    using that by (intro call_okI returns_k_continues)
  have "sys_kill k = Ret (r, k') \<Longrightarrow> continues k k'" for r k'
    unfolding sys_kill_def by (erule with_arg_continues [OF ok]) (auto intro: kill_continues [OF ok])
  moreover have "sys_sleep k = Ret (r, k') \<Longrightarrow> continues k k'" for r k'
    unfolding sys_sleep_def by (erule with_arg_continues [OF ok]) (use ok in \<open>auto split: if_splits\<close>)
  moreover have "sys_uptime k = Ret (r, k') \<Longrightarrow> continues k k'" for r k'
    using ok by (auto simp: sys_uptime_def)
  moreover have "bnd (exit cf k) (\<lambda>k. Ret (Exits k)) = Ret e \<Longrightarrow> call_ok k e"
    using exit_proceeds [OF ok] run by (auto simp: ret_iff call_ok_def alive_def)
  ultimately show ?thesis
    using f e fork_continues [OF ok run] wait_continues [OF ok run]
    unfolding syscalls_def Let_def
    by (auto split: if_splits intro: kern vm vm_calls)
qed

lemma syscall_ok:
  assumes "table_ok k" "p_state (curproc k) = RUNNING" "syscall cf k = Ret e"
  shows "call_ok k e"
proof (cases "syscalls cf (sint (tf_eax (p_tf (curproc k))))")
  case None
  then show ?thesis using assms by (auto simp: syscall_def call_ok_def intro!: continues_kcore)
next
  case (Some f)
  then obtain e' where f: "f k = Ret e'"
    and e: "(case e' of Returns r k \<Rightarrow> Ret (Returns r (upd_p (me k) (set_eax r) k)) | Exits k \<Rightarrow> Ret (Exits k)) = Ret e"
    using assms(3) by (auto simp: syscall_def ret_iff)
  have ok: "call_ok k e'" using assms(1,2) Some f by (rule syscalls_ok)
  show ?thesis
  proof (cases e')
    case (Returns r k')
    then have "continues k k'" using ok by (simp add: call_ok_def)
    moreover have "continues k' (upd_p (me k') (set_eax r) k')"
      by (rule continues_kcore) (use \<open>continues k k'\<close> in \<open>auto dest: continuesD\<close>)
    ultimately show ?thesis using Returns e continues_trans by (auto simp: call_ok_def)
  next
    case (Exits k')
    then show ?thesis using ok e by (auto simp: call_ok_def)
  qed
qed

section \<open>Traps\<close>

lemma k_sw_kcore [simp]: "kcore (k\<lparr>k_sw := s\<rparr>) = kcore k" "kcore (k\<lparr>ticks := t\<rparr>) = kcore k"
  by (simp_all add: kcore_def tab_def)

lemma table_ok_cong: "kcore k' = kcore k \<Longrightarrow> table_ok k' = table_ok k"
  by (auto simp: table_ok_def kcore_eq)

lemma wakeup_continues: "table_ok k \<Longrightarrow> continues k (wakeup chan k)"
  unfolding wakeup_def by (rule continues_woken) (simp_all add: wakeup1_woken)

lemma console_chars_continues: "table_ok k \<Longrightarrow> console_chars chan cs k = Ret k' \<Longrightarrow> continues k k'"
proof (induction cs arbitrary: k)
  case (Cons c cs)
  then obtain wake s where r: "console_chars chan cs (if wake then wakeup chan (k\<lparr>k_sw := s\<rparr>) else k\<lparr>k_sw := s\<rparr>) = Ret k'"
    by (auto simp: ret_iff Let_def)
  have 1: "continues k (k\<lparr>k_sw := s\<rparr>)" by (rule continues_kcore [OF Cons.prems(1)]) simp
  have 2: "continues k (if wake then wakeup chan (k\<lparr>k_sw := s\<rparr>) else k\<lparr>k_sw := s\<rparr>)"
    using 1 wakeup_continues [OF continuesD(2) [OF 1], of chan] continues_trans by auto
  from continues_trans [OF 2 Cons.IH [OF continuesD(2) [OF 2] r]] show ?case .
qed auto

lemma dump_proc_kcore: "dump_proc ebp n i k = Ret k' \<Longrightarrow> kcore k' = kcore k"
  by (auto simp: dump_proc_def Let_def ret_iff case_Ret_iff split: if_splits)

lemma procdump_kcore: "procdump ebp n k = Ret k' \<Longrightarrow> kcore k' = kcore k"
proof -
  have "for_each (dump_proc ebp n) is k = Ret k' \<Longrightarrow> kcore k' = kcore k" for "is"
    by (induction "is" arbitrary: k) (auto simp: ret_iff dest!: dump_proc_kcore)
  then show "procdump ebp n k = Ret k' \<Longrightarrow> kcore k' = kcore k" by (simp add: procdump_def)
qed

lemma consoleintr_continues:
  assumes "table_ok k" "consoleintr (procdump ebp n) chan cs k = Ret k'"
  shows "continues k k'"
proof -
  obtain k1 where 1: "console_chars chan cs k = Ret k1" and 2: "(if 16 \<in> set cs then procdump ebp n k1 else Ret k1) = Ret k'"
    using assms(2) by (auto simp: consoleintr_def ret_iff)
  have c: "continues k k1" using assms(1) 1 by (rule console_chars_continues)
  have "kcore k' = kcore k1" using 2 by (auto split: if_splits dest: procdump_kcore)
  from continues_trans [OF c continues_kcore [OF continuesD(2) [OF c] this]] show ?thesis .
qed

fun trap_kernel :: "'k trap_end \<Rightarrow> 'k" where
  "trap_kernel (TReturns k) = k"
| "trap_kernel (TExits k) = k"
| "trap_kernel (TYields k) = k"

definition trap_ok :: "'f kernel \<Rightarrow> 'f kernel trap_end \<Rightarrow> bool" where
  "trap_ok k e \<longleftrightarrow> (case e of TReturns k' \<Rightarrow> continues k k' | e \<Rightarrow> proceeds k (trap_kernel e))"

lemma trap_ok_trans: "continues k k' \<Longrightarrow> trap_ok k' e \<Longrightarrow> trap_ok k e"
  by (cases e) (auto simp: trap_ok_def dest: continues_trans continuesD(1) proceeds_trans)

lemma exits_ok: "table_ok k \<Longrightarrow> p_state (curproc k) = RUNNING \<Longrightarrow> exits cf k = Ret e \<Longrightarrow> trap_ok k e"
  by (auto simp: exits_def ret_iff trap_ok_def alive_def dest: exit_proceeds [rotated -1])

lemma trap_syscall_ok:
  assumes ok: "table_ok k" and run: "\<not> ar_idle ar \<Longrightarrow> p_state (curproc k) = RUNNING" and t: "trap_syscall cf ar k = Ret e"
  shows "trap_ok k e"
proof -
  have run: "p_state (curproc k) = RUNNING" using run t by (auto simp: trap_syscall_def split: if_splits)
  let ?k = "upd_p (me k) (\<lambda>p. p\<lparr>p_tf := ar_tf ar\<rparr>) k"
  have 1: "continues k ?k" by (rule continues_kcore [OF ok]) simp
  show ?thesis
  proof (cases "p_killed (curproc k)")
    case True
    then show ?thesis using exits_ok [OF ok run] t by (auto simp: trap_syscall_def split: if_splits)
  next
    case False
    then obtain c where c: "syscall cf ?k = Ret c" and e: "(case c of Exits k \<Rightarrow> Ret (TExits k)
        | Returns r k \<Rightarrow> if p_killed (curproc k) then exits cf k else Ret (TReturns k)) = Ret e"
      using t by (auto simp: trap_syscall_def ret_iff split: if_splits)
    have run': "p_state (curproc ?k) = RUNNING" using 1 run by (rule continuesD(3))
    have c': "call_ok ?k c" using continuesD(2) [OF 1] run' c by (rule syscall_ok)
    have "trap_ok ?k e"
    proof (cases c)
      case (Returns r k')
      then have 2: "continues ?k k'" using c' by (simp add: call_ok_def)
      show ?thesis
      proof (cases "p_killed (curproc k')")
        case True
        then have "exits cf k' = Ret e" using e Returns by simp
        from trap_ok_trans [OF 2 exits_ok [OF continuesD(2) [OF 2] continuesD(3) [OF 2 run'] this]] show ?thesis .
      next
        case False
        then show ?thesis using e Returns 2 by (auto simp: trap_ok_def)
      qed
    next
      case (Exits k')
      then show ?thesis using e c' by (auto simp: call_ok_def trap_ok_def)
    qed
    with 1 show ?thesis by (rule trap_ok_trans)
  qed
qed

lemma trap_pgflt_ok:
  assumes ok: "table_ok k" and run: "\<not> ar_idle ar \<Longrightarrow> p_state (curproc k) = RUNNING" and t: "trap_pgflt cf ar k = Ret e"
  shows "trap_ok k e"
proof (cases "p_pid (curproc k) > 2")
  case False
  then show ?thesis using t ok by (auto simp: trap_pgflt_def trap_ok_def split: if_splits)
next
  case True
  have run: "p_state (curproc k) = RUNNING" using run t by (auto simp: trap_pgflt_def split: if_splits)
  obtain k1 where 1: "on_vm (me k) (pagefault (cf_dv cf) (cf_sel cf) (ar_cr2 ar)) k = Ret k1"
    and e: "(if p_killed (curproc k1) then exits cf k1 else Ret (TReturns k1)) = Ret e"
    using t True by (auto simp: trap_pgflt_def ret_iff split: if_splits)
  have c: "continues k k1" by (rule continues_kcore [OF ok on_vm_kcore [OF 1 ident_fault.pagefault_part]])
  from e show ?thesis using exits_ok [OF continuesD(2) [OF c] continuesD(3) [OF c run]] c
    by (auto simp: trap_ok_def split: if_splits intro: trap_ok_trans [unfolded trap_ok_def])
qed

lemma on_con_kcore: "on_con f k = Ret k' \<Longrightarrow> kcore k' = kcore k"
  by (auto simp: on_con_def ret_iff)

lemma trap_other_kcore: "trap_other ar k = Ret k' \<Longrightarrow> kcore k' = kcore k"
  by (auto simp: trap_other_def Let_def ret_iff split: if_splits dest!: on_con_kcore)

lemma goes_on_ok: "goes_on m = Ret e \<Longrightarrow> (\<And>k'. m = Ret k' \<Longrightarrow> continues k k') \<Longrightarrow> trap_ok k e"
  by (auto simp: goes_on_def ret_iff trap_ok_def)

lemma timer_tick_continues:
  assumes "table_ok k"
  shows "continues k (timer_tick mc k)"
proof -
  have 1: "continues k (k\<lparr>ticks := ticks k + 1\<rparr>)" by (rule continues_kcore [OF assms]) simp
  show ?thesis unfolding timer_tick_def by (rule continues_trans [OF 1 wakeup_continues [OF continuesD(2) [OF 1]]])
qed

lemma trap_switch_ok:
  assumes ok: "table_ok k" and run: "\<not> ar_idle ar \<Longrightarrow> p_state (curproc k) = RUNNING" and t: "trap_switch mc cf ar k = Ret e"
  shows "trap_ok k e"
proof -
  let ?dump = "procdump (ar_ebp ar) (initial_pages mc)"
  have "kbdintr ?dump chan bytes k = Ret k' \<Longrightarrow> continues k k'" for chan bytes k'
  proof -
    assume "kbdintr ?dump chan bytes k = Ret k'"
    then obtain cs sh where c: "consoleintr ?dump chan cs (k\<lparr>k_sw := (k_sw k)\<lparr>kbd_shift := sh\<rparr>\<rparr>) = Ret k'"
      by (auto simp: kbdintr_def Let_def split: prod.split_asm)
    have 1: "continues k (k\<lparr>k_sw := (k_sw k)\<lparr>kbd_shift := sh\<rparr>\<rparr>)" by (rule continues_kcore [OF ok]) simp
    from continues_trans [OF 1 consoleintr_continues [OF continuesD(2) [OF 1] c]] show "continues k k'" .
  qed
  moreover have "uartintr ?dump chan bytes k = Ret k' \<Longrightarrow> continues k k'" for chan bytes k'
    unfolding uartintr_def by (rule consoleintr_continues [OF ok])
  moreover have "on_con f k = Ret k' \<Longrightarrow> continues k k'" for f k'
    by (rule continues_kcore [OF ok on_con_kcore])
  moreover have "trap_other ar k = Ret k' \<Longrightarrow> continues k k'" for k'
    by (rule continues_kcore [OF ok trap_other_kcore])
  moreover have "trap_pgflt cf ar k = Ret e \<Longrightarrow> trap_ok k e" using ok run by (rule trap_pgflt_ok)
  moreover have "trap_ok k (TReturns k)" "trap_ok k (TReturns (timer_tick mc k))"
    using ok timer_tick_continues [OF ok] by (simp_all add: trap_ok_def)
  ultimately show ?thesis using t unfolding trap_switch_def Let_def
    by (auto split: if_splits elim!: goes_on_ok)
qed

lemma trap_leave_ok:
  assumes "table_ok k" "\<not> ar_idle ar \<Longrightarrow> p_state (curproc k) = RUNNING" "trap_leave cf ar k = Ret e"
  shows "trap_ok k e"
  using assms exits_ok [OF assms(1), of cf e] by (auto simp: trap_leave_def trap_ok_def split: if_splits)

lemma yield_proceeds:
  assumes "table_ok k" "p_state (curproc k) = RUNNING"
  shows "proceeds k (yield k)"
proof (rule proceeds_state [where i = "me k" and q = RUNNABLE])
  show "kcore (yield k) = put_entry (me k) (set_state RUNNABLE) (kcore k)"
    unfolding yield_def by (rule upd_state_entry)
qed (use assms curproc_state [OF assms(1)] in \<open>auto simp: table_ok_def alive_def\<close>)

lemma trap_clock_ok:
  assumes "table_ok k" "\<not> ar_idle ar \<Longrightarrow> p_state (curproc k) = RUNNING" "trap_clock cf ar k = Ret e"
  shows "trap_ok k e"
proof (cases "\<not> ar_idle ar \<and> p_state (curproc k) = RUNNING \<and> tf_trapno (ar_tf ar) = T_IRQ0 + IRQ_TIMER")
  case True
  then obtain k1 where 1: "on_vm (me k) (age_pages (cf_sel cf)) k = Ret k1" and e: "e = TYields (yield k1)"
    using assms(3) by (auto simp: trap_clock_def ret_iff)
  have c: "continues k k1" by (rule continues_kcore [OF assms(1) on_vm_kcore [OF 1 ident.age_pages_part]])
  from proceeds_trans [OF continuesD(1) [OF c] yield_proceeds [OF continuesD(2) [OF c] continuesD(3) [OF c]]] True
  show ?thesis by (simp add: trap_ok_def e)
next
  case False
  then have "trap_leave cf ar k = Ret e" using assms(3) by (auto simp: trap_clock_def split: if_splits)
  then show ?thesis using assms(1,2) by (intro trap_leave_ok)
qed

lemma trap_proceeds:
  assumes ok: "table_ok k" and run: "\<not> ar_idle ar \<Longrightarrow> p_state (curproc k) = RUNNING" and t: "trap mc cf ar k = Ret e"
  shows "trap_ok k e"
proof (cases "tf_trapno (ar_tf ar) = T_SYSCALL")
  case True
  then show ?thesis using trap_syscall_ok [OF ok run, where cf = cf and e = e] t by (simp add: trap_def)
next
  case False
  let ?k = "if from_user ar \<and> \<not> ar_idle ar then upd_p (me k) (\<lambda>p. p\<lparr>p_tf := ar_tf ar\<rparr>) k else k"
  obtain e1 where 1: "trap_switch mc cf ar ?k = Ret e1"
    and e: "(case e1 of TReturns k \<Rightarrow> bnd (trap_leave cf ar k) (\<lambda>e. case e of TReturns k \<Rightarrow> trap_clock cf ar k | e \<Rightarrow> Ret e) | e \<Rightarrow> Ret e) = Ret e"
    using t False by (auto simp: trap_def Let_def ret_iff)
  have c: "continues k ?k" by (rule continues_kcore [OF ok]) simp
  have run0: "\<not> ar_idle ar \<Longrightarrow> p_state (curproc ?k) = RUNNING" using continuesD(3) [OF c] run by simp
  have ok1: "trap_ok ?k e1" using continuesD(2) [OF c] run0 1 by (rule trap_switch_ok)
  have "trap_ok ?k e"
  proof (cases e1)
    case (TReturns k1)
    then obtain e2 where 2: "trap_leave cf ar k1 = Ret e2" and e': "(case e2 of TReturns k \<Rightarrow> trap_clock cf ar k | e \<Rightarrow> Ret e) = Ret e"
      using e by (auto simp: ret_iff)
    have c1: "continues ?k k1" using ok1 TReturns by (simp add: trap_ok_def)
    have run1: "\<not> ar_idle ar \<Longrightarrow> p_state (curproc k1) = RUNNING" using continuesD(3) [OF c1] run0 by simp
    have ok2: "trap_ok k1 e2" using continuesD(2) [OF c1] run1 2 by (rule trap_leave_ok)
    have "trap_ok k1 e"
    proof (cases e2)
      case (TReturns k2)
      then have c2: "continues k1 k2" and t2: "trap_clock cf ar k2 = Ret e" using ok2 e' by (auto simp: trap_ok_def)
      have "trap_ok k2 e" using continuesD(2) [OF c2] _ t2 by (rule trap_clock_ok) (use continuesD(3) [OF c2] run1 in simp)
      with c2 show ?thesis by (rule trap_ok_trans)
    qed (use ok2 e' in auto)
    with c1 show ?thesis by (rule trap_ok_trans)
  qed (use ok1 e in auto)
  with c show ?thesis by (rule trap_ok_trans)
qed

section \<open>The steps of the kernel\<close>

text \<open>
  What happens while a process has the CPU: a trap, with the whole of its handling; the rest of a trap after
  the process has run again; going to sleep in a call, and waking up again; and a wake-up by a call on a
  file. An interrupt may also come while no process runs.
\<close>

inductive acts :: "machine \<Rightarrow> 'a console_scheme config \<Rightarrow> 'a console_scheme kernel \<Rightarrow> 'a console_scheme kernel \<Rightarrow> bool"
  for mc cf where
  traps: "(\<not> ar_idle ar \<Longrightarrow> p_state (curproc k) = RUNNING) \<Longrightarrow> trap mc cf ar k = Ret e \<Longrightarrow> acts mc cf k (trap_kernel e)"
| leaves: "p_state (curproc k) = RUNNING \<Longrightarrow> trap_leave cf ar k = Ret e \<Longrightarrow> acts mc cf k (trap_kernel e)"
| sleeps: "p_state (curproc k) = RUNNING \<Longrightarrow> acts mc cf k (sleep_on chan k)"
| wakes: "p_state (curproc k) = RUNNING \<Longrightarrow> acts mc cf k (sleep_return k)"
| wakes_others: "acts mc cf k (wakeup chan k)"

lemma sleep_on_proceeds:
  assumes "table_ok k" "p_state (curproc k) = RUNNING"
  shows "proceeds k (sleep_on chan k)"
proof (rule proceeds_state [where i = "me k" and q = SLEEPING])
  show "kcore (sleep_on chan k) = put_entry (me k) (set_state SLEEPING) (kcore k)"
    unfolding sleep_on_def by (rule upd_p_entry) (simp add: identity_def set_state_def)
qed (use assms curproc_state [OF assms(1)] in \<open>auto simp: table_ok_def alive_def\<close>)

lemma trap_okD: "trap_ok k e \<Longrightarrow> proceeds k (trap_kernel e)"
  by (cases e) (auto simp: trap_ok_def dest: continuesD)

lemma acts_proceeds:
  assumes "acts mc cf k k'" "table_ok k"
  shows "proceeds k k'"
  using assms
proof (induction rule: acts.induct)
  case (traps ar k e)
  then show ?case by (intro trap_okD trap_proceeds)
next
  case (leaves k ar e)
  then show ?case by (intro trap_okD trap_leave_ok)
next
  case (sleeps k chan)
  then show ?case by (intro sleep_on_proceeds)
next
  case (wakes k)
  then show ?case by (intro proceeds_kcore) (simp_all add: sleep_return_def upd_p_kcore identity_def)
next
  case (wakes_others k chan)
  then show ?case by (intro continuesD(1) wakeup_continues)
qed

text \<open>The scheduler gives the CPU to a process that is ready.\<close>

inductive kernel_step :: "machine \<Rightarrow> 'a console_scheme config \<Rightarrow> 'a console_scheme kernel \<Rightarrow> 'a console_scheme kernel \<Rightarrow> bool"
  for mc cf where
  process: "acts mc cf k k' \<Longrightarrow> kernel_step mc cf k k'"
| schedule: "i < NPROC \<Longrightarrow> p_state (proc_at i k) = RUNNABLE \<Longrightarrow> dispatch i k = Ret k' \<Longrightarrow> kernel_step mc cf k k'"

lemma dispatch_kcore:
  assumes "dispatch i k = Ret k'"
  shows "kcore k' = put_entry i (set_state RUNNING) (kcore (k\<lparr>me := i\<rparr>))"
proof -
  obtain k1 where 1: "on_vm i (switchuvm (proc_at i k)) (k\<lparr>me := i\<rparr>) = Ret k1" and k': "k' = upd_p i (\<lambda>p. p\<lparr>p_state := RUNNING\<rparr>) k1"
    using assms by (auto simp: dispatch_def ret_iff)
  show ?thesis using on_vm_kcore [OF 1 ident.switchuvm_part] by (simp add: k' upd_state_entry)
qed

lemma dispatch_ok:
  assumes "table_ok k" "i < NPROC" "p_state (proc_at i k) = RUNNABLE" "dispatch i k = Ret k'"
  shows "table_ok k'" "me k' = i" "p_state (curproc k') = RUNNING"
    "\<And>j. j < NPROC \<Longrightarrow> j \<noteq> i \<Longrightarrow> p_state (proc_at j k') = p_state (proc_at j k)"
proof -
  let ?k = "k\<lparr>me := i\<rparr>"
  have ok: "table_ok ?k" using assms(1,2) by (simp add: table_ok_def tab_def)
  have st: "e_state (tab ?k ! i) = RUNNABLE"
    using assms(2,3) kcore_length [OF assms(1)] by (simp add: tab_def identity_def)
  have p: "proceeds ?k k'"
    by (rule proceeds_state [OF ok assms(2) dispatch_kcore [OF assms(4)]]) (use st in \<open>auto simp: alive_def\<close>)
  then show ok': "table_ok k'" and m: "me k' = i" by (simp_all add: proceeds_def)
  have t: "tab k' = (tab k)[i := set_state RUNNING (tab k ! i)]"
    using dispatch_kcore [OF assms(4)] by (auto simp: kcore_def put_entry_def tab_def)
  have s: "j < NPROC \<Longrightarrow> p_state (proc_at j k') = e_state (tab k' ! j) \<and> p_state (proc_at j k) = e_state (tab k ! j)" for j
    using kcore_length [OF ok'] kcore_length [OF assms(1)] by (simp add: tab_nth identity_def)
  show "p_state (curproc k') = RUNNING"
    using s [OF assms(2)] m assms(2) tab_length [OF assms(1)] by (simp add: t set_state_def)
  show "j < NPROC \<Longrightarrow> j \<noteq> i \<Longrightarrow> p_state (proc_at j k') = p_state (proc_at j k)" for j
    using s [of j] by (simp add: t)
qed

lemma kernel_steps_ok: "(kernel_step mc cf)\<^sup>*\<^sup>* k k' \<Longrightarrow> table_ok k \<Longrightarrow> table_ok k'"
proof (induction rule: rtranclp_induct)
  case (step k1 k2)
  from step.hyps(2) step.IH [OF step.prems] show ?case
    by cases (auto dest: acts_proceeds dispatch_ok(1) simp: proceeds_def)
qed

section \<open>The table at the start\<close>

lemma tab_ok_blank: "tab_ok (replicate NPROC (0, UNUSED, None)) None 1"
  by (simp add: tab_ok_def)

lemma tab_ok_init: "tab_ok T None np \<Longrightarrow> i < NPROC \<Longrightarrow> alive (e_state (T ! i)) \<Longrightarrow> tab_ok T (Some i) np"
  unfolding tab_ok_def by (elim conjE, intro conjI) simp_all

lemma blank_identity: "identity blank_proc = (0, UNUSED, None)"
  by (simp add: identity_def blank_proc_def)

lemma userinit_table:
  assumes "userinit cf initcode k = Ret k'" "ptable k = replicate NPROC blank_proc" "nextpid k = 1" "me k < NPROC" "initproc k = None"
  shows "table_ok k'"
proof -
  have T: "tab k = replicate NPROC (0, UNUSED, None)" using assms(2) by (simp add: tab_def blank_identity)
  obtain i k1 where a: "allocproc cf k = Ret (Some i, k1)" using assms(1) by (auto simp: userinit_def ret_iff case_Ret_iff)
  note A = allocproc_kcore [OF a, simplified]
  have i: "i < NPROC" using A first_index_Some [of "\<lambda>p. p_state p = UNUSED" "ptable k" i] assms(2) by auto
  define k2 where "k2 = k1\<lparr>initproc := Some i\<rparr>"
  obtain pgdir k3 k4 cwd k5 where 3: "on_vmr i (setupkvm (cf_data cf)) k2 = Ret (pgdir, k3)"
    and 4: "on_vm i (on_k (inituvm pgdir initcode)) (upd_p i (\<lambda>p. p\<lparr>p_pgdir := pgdir\<rparr>) k3) = Ret k4"
    and 5: "on_vmr i (on_fsr (namei (cf_dv cf) [slash])) (upd_p i (\<lambda>p. p\<lparr>p_sz := PGSIZE, p_tf := zero_trapframe\<lparr>tf_cs := 0x1B, tf_ds := 0x23, tf_es := 0x23,
                 tf_ss := 0x23, tf_eflags := 0x200, tf_esp := PGSIZE, tf_eip := 0\<rparr>, p_name := ''initcode''\<rparr>) k4) = Ret (cwd, k5)"
    and k': "k' = upd_p i (\<lambda>p. p\<lparr>p_cwd := cwd, p_state := RUNNABLE\<rparr>) k5"
    using assms(1) a by (auto simp: userinit_def ret_iff Let_def k2_def split: if_splits)
  have "kcore k3 = kcore k2" by (rule on_vmr_kcore [OF 3 ident.setupkvm_part])
  moreover have "kcore k4 = kcore k3" using on_vm_kcore [OF 4 ident.on_k_part] by simp
  moreover have "kcore k5 = kcore k4" using on_vmr_kcore [OF 5 ident.on_fsr_part] by (simp add: upd_p_kcore identity_def)
  moreover have "kcore k' = put_entry i (set_state RUNNABLE) (kcore k5)"
    unfolding k' by (rule upd_p_entry) (simp add: identity_def set_state_def)
  ultimately have "kcore k' = put_entry i (set_state RUNNABLE) (kcore k2)" by simp
  moreover have "tab k2 = (tab k)[i := (1, EMBRYO, None)]" "nextpid k2 = 2" "me k2 = me k" "initproc k2 = Some i"
    using A i by (auto simp: k2_def kcore_def new_entry_def put_entry_def tab_def fresh_entry_def assms(3) T [unfolded tab_def])
  ultimately have f: "tab k' = (tab k)[i := (1, RUNNABLE, None)]" "nextpid k' = 2" "me k' = me k" "initproc k' = Some i"
    using i by (auto simp: kcore_def put_entry_def set_state_def T)
  have "tab_ok (tab k') None 2"
    unfolding f(1) T by (rule tab_ok_update [OF tab_ok_blank i]) (use i in \<open>auto simp: alive_def\<close>)
  moreover have "e_state (tab k' ! i) = RUNNABLE" using i by (simp add: f(1) T)
  ultimately have "tab_ok (tab k') (Some i) 2" using i by (intro tab_ok_init) (auto simp: alive_def)
  then show ?thesis using f assms(4) by (simp add: table_ok_def)
qed

end
