(* ===== verification/Proc_Props.thy ===== *)
theory Proc_Props
  imports Proc_Table
begin

text \<open>
  Properties of the process table and of the scheduler, over the steps of the kernel of \<^verbatim>\<open>Proc_Table\<close>:
  the invariant of the table, the fairness of the scheduler, the lengths of the page arrays, and what
  \<open>kill\<close> does to a slot of the table that is free.
\<close>

section \<open>Properties\<close>

text \<open>
  (C28) The process table stays well formed under everything the kernel does. From a table that is, no
  sequence of traps, system calls (\<open>fork\<close>, \<open>exec\<close>, \<open>exit\<close>, \<open>wait\<close>, \<open>kill\<close> and the calls on files and
  memory), sleeps, wake-ups and scheduling decisions leads to two processes with the same pid, to a process with
  a pid of 0, or to a process whose parent is not alive: a zombie always has a living parent that can wait for it.
\<close>

theorem process_table_invariant:
  assumes "table_ok k" "(kernel_step mc cf)\<^sup>*\<^sup>* k k'" "i < NPROC" "p_state (proc_at i k') \<noteq> UNUSED"
  shows "0 < p_pid (proc_at i k') \<and> p_pid (proc_at i k') < nextpid k' \<and>
    (\<forall>j < NPROC. j \<noteq> i \<longrightarrow> p_pid (proc_at j k') \<noteq> p_pid (proc_at i k')) \<and>
    (\<forall>j. p_parent (proc_at i k') = Some j \<longrightarrow> j < NPROC \<and> alive (p_state (proc_at j k')))"
proof -
  have ok: "table_ok k'" using kernel_steps_ok [OF assms(2,1)] .
  then have e: "j < NPROC \<Longrightarrow> tab k' ! j = (p_pid (proc_at j k'), p_state (proc_at j k'), p_parent (proc_at j k'))" for j
    using kcore_length [OF ok] by (simp add: tab_nth identity_def)
  note F = entry_facts [OF ok assms(3)]
  have "1 \<le> p_pid (proc_at i k')" "p_pid (proc_at i k') < nextpid k'" using F assms(3,4) e by auto
  moreover have "p_pid (proc_at j k') \<noteq> p_pid (proc_at i k')" if "j < NPROC" "j \<noteq> i" for j
  proof
    assume "p_pid (proc_at j k') = p_pid (proc_at i k')"
    then have "p_pid (proc_at i k') = 0"
      using tab_ok_pids [of "tab k'" "initproc k'" "nextpid k'" i j] ok that assms(3) e by (simp add: table_ok_def)
    then show False using \<open>1 \<le> p_pid (proc_at i k')\<close> by simp
  qed
  moreover have "j < NPROC \<and> alive (p_state (proc_at j k'))" if "p_parent (proc_at i k') = Some j" for j
    using F(4) [of j] that e assms(3) by auto
  ultimately show ?thesis by simp
qed

text \<open>A kernel with \<open>init\<close> asleep and the shell running, and the hardware's timer interrupt.\<close>

definition demo_proc :: "int \<Rightarrow> procstate \<Rightarrow> nat option \<Rightarrow> proc" where
  "demo_proc pid q par = blank_proc\<lparr>p_pid := pid, p_state := q, p_parent := par, p_kstack := 0x80400000, p_pgdir := 0x80401000\<rparr>"

definition demo_kernel :: "console kernel" where
  "demo_kernel = \<lparr>k_vk = two_frames, k_cr3 = 0, k_sw = zero_console,
     ptable = demo_proc 1 SLEEPING None # demo_proc 2 RUNNING (Some 0) # replicate 62 blank_proc,
     initproc = Some 0, nextpid = 3, me = 1, ticks = 0\<rparr>"

definition demo_config :: "console config" where
  "demo_config = \<lparr>cf_dv = consoleinit \<lparr>dev_read = (\<lambda>_. None), dev_write = (\<lambda>_. None)\<rparr>, cf_sel = SCFIFO, cf_data = 0x80108000,
     cf_forkret = 0x80103000, cf_proc = (\<lambda>i. 0x80110000 + of_nat i * 1024)\<rparr>"

definition demo_machine :: machine where
  "demo_machine = \<lparr>ticks_chan = 0x80120000, input_chan = 0x80120100, initial_pages = 57000\<rparr>"

definition timer_interrupt :: arrival where
  "timer_interrupt = \<lparr>ar_tf = zero_trapframe\<lparr>tf_trapno := 32, tf_cs := 0x1B\<rparr>, ar_cr2 = 0, ar_cpu = 1, ar_idle = False,
     ar_kbd = [], ar_com1 = [], ar_ebp = (\<lambda>_. 0)\<rparr>"

lemma demo_table: "table_ok demo_kernel"
proof -
  have T: "tab demo_kernel = (1, SLEEPING, None) # (2, RUNNING, Some 0) # replicate 62 (0, UNUSED, None)"
    by (simp add: tab_def demo_kernel_def demo_proc_def identity_def blank_proc_def)
  have n: "i < NPROC \<Longrightarrow> tab demo_kernel ! i = (if i = 0 then (1, SLEEPING, None) else if i = 1 then (2, RUNNING, Some 0) else (0, UNUSED, None))" for i
    unfolding T by (cases i; cases "i - 1") (auto simp: NPROC_def)
  have "tab_ok (tab demo_kernel) None 3"
    unfolding tab_ok_def by (auto simp: n) (simp_all add: T NPROC_def alive_def)
  then have "tab_ok (tab demo_kernel) (Some 0) 3"
    by (rule tab_ok_init) (simp_all add: n alive_def NPROC_def T)
  then show ?thesis by (simp add: table_ok_def demo_kernel_def NPROC_def)
qed

lemma demo_yield:
  assumes "me k = 1" "1 < length (ptable k)" "curproc k = demo_proc 2 RUNNING par"
  shows "trap demo_machine demo_config timer_interrupt k =
    Ret (TYields (yield (upd_p 1 (\<lambda>p. p\<lparr>p_tf := ar_tf timer_interrupt\<rparr>) k)))"
proof -
  let ?k = "upd_p 1 (\<lambda>p. p\<lparr>p_tf := ar_tf timer_interrupt\<rparr>) k"
  have no: "tf_trapno (ar_tf timer_interrupt) = 32" "tf_cs (ar_tf timer_interrupt) = 27" "ar_cpu timer_interrupt = 1" "\<not> ar_idle timer_interrupt"
    by (simp_all add: timer_interrupt_def)
  have p: "curproc ?k = (demo_proc 2 RUNNING par)\<lparr>p_tf := ar_tf timer_interrupt\<rparr>" using assms by (simp add: upd_p_def)
  have "\<not> p_killed (curproc ?k)" "p_state (curproc ?k) = RUNNING" "p_pid (curproc ?k) = 2"
    unfolding p by (simp_all add: demo_proc_def blank_proc_def)
  moreover have "from_user timer_interrupt" by (simp add: from_user_def no DPL_USER_def)
  moreover have "put_vm (me ?k) (vm_of (me ?k) ?k) ?k = ?k" by (simp add: put_vm_def vm_of_def)
  ultimately show ?thesis using assms(1)
    by (simp add: trap_def trap_switch_def trap_leave_def trap_clock_def no T_SYSCALL_def T_PGFLT_def T_IRQ0_def IRQ_TIMER_def Let_def
        age_pages_def on_vm_def vm_of_def)
qed

theorem process_table_invariant_witness:
  "\<exists>k'. (kernel_step demo_machine demo_config)\<^sup>*\<^sup>* demo_kernel k' \<and> p_state (proc_at 1 k') = RUNNABLE \<and>
     0 < p_pid (proc_at 1 k') \<and> p_pid (proc_at 0 k') \<noteq> p_pid (proc_at 1 k') \<and> alive (p_state (proc_at 0 k'))"
proof -
  let ?k = "yield (upd_p 1 (\<lambda>p. p\<lparr>p_tf := ar_tf timer_interrupt\<rparr>) demo_kernel)"
  have d: "me demo_kernel = 1" "1 < length (ptable demo_kernel)" "curproc demo_kernel = demo_proc 2 RUNNING (Some 0)"
    by (simp_all add: demo_kernel_def)
  have "acts demo_machine demo_config demo_kernel (trap_kernel (TYields ?k))"
    by (rule traps [OF _ demo_yield [OF d]]) (simp add: demo_kernel_def demo_proc_def)
  then have st: "(kernel_step demo_machine demo_config)\<^sup>*\<^sup>* demo_kernel ?k" by (auto intro: kernel_step.process)
  have s: "p_state (proc_at 1 ?k) = RUNNABLE" "p_parent (proc_at 1 ?k) = Some 0" "p_state (proc_at 0 ?k) \<noteq> UNUSED"
    by (simp_all add: yield_def upd_p_def demo_kernel_def demo_proc_def)
  then have "p_state (proc_at 1 ?k) \<noteq> UNUSED" by simp
  from process_table_invariant [OF demo_table st _ this] s show ?thesis
    by (intro exI [of _ ?k]) (use st in \<open>auto simp: NPROC_def\<close>)
qed

section \<open>The scheduler\<close>

lemma acts_star: "(acts mc cf)\<^sup>*\<^sup>* k k' \<Longrightarrow> table_ok k \<Longrightarrow> proceeds k k'"
proof (induction rule: rtranclp_induct)
  case base
  then show ?case by (simp add: proceeds_kcore)
next
  case (step k1 k2)
  then have "proceeds k k1" by simp
  with acts_proceeds [OF step.hyps(2)] show ?case by (auto simp: proceeds_def)
qed

lemma proceeds_runnable:
  assumes "table_ok k" "proceeds k k'" "j < NPROC" "j \<noteq> me k" "p_state (proc_at j k) = RUNNABLE"
  shows "p_state (proc_at j k') = RUNNABLE"
proof -
  have "table_ok k'" using assms(2) by (simp add: proceeds_def)
  then show ?thesis
    using assms kcore_length [of k] kcore_length [of k'] by (auto simp: proceeds_def tab_nth identity_def)
qed

lemma schedule_round_fair:
  assumes run: "\<And>j k k'. run j k = Ret k' \<Longrightarrow> (acts mc cf)\<^sup>*\<^sup>* k k'"
  shows "schedule_round run kpgdir is k = Ret (rs, k') \<Longrightarrow> table_ok k \<Longrightarrow> sorted_wrt (<) is \<Longrightarrow> set is \<subseteq> {..<NPROC} \<Longrightarrow>
    table_ok k' \<and> set rs \<subseteq> set is \<and> sorted_wrt (<) rs \<and> (\<forall>i\<in>set is. p_state (proc_at i k) = RUNNABLE \<longrightarrow> i \<in> set rs)"
proof (induction "is" arbitrary: k rs)
  case Nil
  then show ?case by simp
next
  case (Cons i js)
  show ?case
  proof (cases "p_state (proc_at i k) = RUNNABLE")
    case False
    then show ?thesis using Cons.IH [of k rs] Cons.prems by auto
  next
    case True
    obtain k1 k2 k3 rs' where 1: "dispatch i k = Ret k1" and 2: "run i k1 = Ret k2"
      and 3: "on_vm i (\<lambda>s. Ret (switchkvm kpgdir s)) k2 = Ret k3"
      and 4: "schedule_round run kpgdir js k3 = Ret (rs', k')" and rs: "rs = i # rs'"
      using Cons.prems(1) True by (auto simp: ret_iff)
    have i: "i < NPROC" using Cons.prems(4) by simp
    note D = dispatch_ok [OF Cons.prems(2) i True 1]
    have p2: "proceeds k1 k2" using run [OF 2] D(1) by (rule acts_star)
    have "kcore k3 = kcore k2" using on_vm_kcore [OF 3] by (auto simp: switchkvm_def)
    then have p3: "proceeds k1 k3" using p2 by (rule proceeds_cong [rotated])
    then have ok3: "table_ok k3" by (simp add: proceeds_def)
    have st: "p_state (proc_at j k3) = RUNNABLE" if "j \<in> set js" "p_state (proc_at j k) = RUNNABLE" for j
    proof -
      have "j < NPROC" "j \<noteq> i" using that(1) Cons.prems(3,4) by auto
      then show ?thesis using proceeds_runnable [OF D(1) p3, of j] D(2,4) that(2) by simp
    qed
    have js: "sorted_wrt (<) js" "set js \<subseteq> {..<NPROC}" "\<forall>j \<in> set js. i < j" using Cons.prems(3,4) by auto
    have IH: "table_ok k'" "set rs' \<subseteq> set js" "sorted_wrt (<) rs'" "\<forall>j\<in>set js. p_state (proc_at j k3) = RUNNABLE \<longrightarrow> j \<in> set rs'"
      using Cons.IH [OF 4 ok3 js(1,2)] by simp_all
    have "sorted_wrt (<) rs" "set rs \<subseteq> set (i # js)" using IH(2,3) js(3) by (auto simp: rs)
    moreover have "\<forall>j\<in>set (i # js). p_state (proc_at j k) = RUNNABLE \<longrightarrow> j \<in> set rs" using IH(4) st by (simp add: rs)
    ultimately show ?thesis using IH(1) by blast
  qed
qed


text \<open>The shell is ready; while it has the CPU, the timer interrupt comes and it yields.\<close>

definition demo_run :: "nat \<Rightarrow> console kernel \<Rightarrow> console kernel outcome" where
  "demo_run j k =
     (if p_state (curproc k) = RUNNING
      then bnd (trap demo_machine demo_config timer_interrupt k) (\<lambda>e. Ret (trap_kernel e)) else Hang)"

lemma demo_run_acts: "demo_run j k = Ret k' \<Longrightarrow> (acts demo_machine demo_config)\<^sup>*\<^sup>* k k'"
  by (auto simp: demo_run_def ret_iff split: if_splits intro: traps)

lemma schedule_round_idle:
  "(\<And>i. i \<in> set is \<Longrightarrow> p_state (proc_at i k) \<noteq> RUNNABLE) \<Longrightarrow> schedule_round run kpgdir is k = Ret ([], k)"
  by (induction "is") auto

definition demo_ready :: "console kernel" where
  "demo_ready = upd_p 1 (\<lambda>p. p\<lparr>p_state := RUNNABLE\<rparr>) demo_kernel"

lemma demo_ready_table: "table_ok demo_ready"
  using yield_proceeds [OF demo_table] by (simp add: proceeds_def yield_def demo_ready_def demo_kernel_def demo_proc_def)

lemma demo_round: "\<exists>k'. schedule_round demo_run 0x80402000 [0..<NPROC] demo_ready = Ret ([1], k')"
proof -
  let ?q = "(demo_proc 2 RUNNING (Some 0))\<lparr>p_tf := ar_tf timer_interrupt, p_state := RUNNABLE\<rparr>"
  have "dispatch 1 demo_ready = Ret (demo_kernel\<lparr>k_cr3 := 0x401000\<rparr>)"
    by (simp add: dispatch_def on_vm_def vm_of_def put_vm_def switchuvm_def demo_ready_def demo_kernel_def upd_p_def demo_proc_def
        blank_proc_def lcr3_def V2P_def)
  moreover have "demo_run 1 (demo_kernel\<lparr>k_cr3 := 0x401000\<rparr>) = Ret (demo_kernel\<lparr>k_cr3 := 0x401000, ptable := (ptable demo_kernel)[1 := ?q]\<rparr>)"
    (is "_ = Ret ?k2")
    using demo_yield [of "demo_kernel\<lparr>k_cr3 := 0x401000\<rparr>" "Some 0"]
    by (simp add: demo_run_def demo_kernel_def demo_proc_def yield_def upd_p_def)
  moreover obtain k3 where k3: "on_vm 1 (\<lambda>s. Ret (switchkvm 0x80402000 s)) ?k2 = Ret k3" "ptable k3 = ptable ?k2"
    by (simp add: on_vm_def vm_of_def put_vm_def switchkvm_def demo_kernel_def lcr3_def)
  moreover have "schedule_round demo_run 0x80402000 [2..<NPROC] k3 = Ret ([], k3)"
  proof (rule schedule_round_idle)
    fix i
    assume "i \<in> set [2..<NPROC]"
    then have "ptable k3 ! i = blank_proc" using k3(2)
      by (cases i; cases "i - 1") (auto simp: demo_kernel_def NPROC_def)
    then show "p_state (proc_at i k3) \<noteq> RUNNABLE" by (simp add: blank_proc_def)
  qed
  moreover have "p_state (proc_at 0 demo_ready) \<noteq> RUNNABLE" "p_state (proc_at 1 demo_ready) = RUNNABLE"
    by (simp_all add: demo_ready_def demo_kernel_def upd_p_def demo_proc_def)
  moreover have "[0..<NPROC] = 0 # 1 # [2..<NPROC]" by (simp add: NPROC_def upt_conv_Cons numeral_2_eq_2)
  ultimately show ?thesis by simp
qed


section \<open>Killing a free slot\<close>

definition flags :: "'f kernel \<Rightarrow> bool list" where
  "flags k = map p_killed (ptable k)"

lemma update_same_flag: "p_killed p = p_killed (ps ! i) \<Longrightarrow> map p_killed (ps[i := p]) = map p_killed ps"
  by (cases "i < length ps") (auto simp: map_update list_eq_iff_nth_eq nth_list_update)

lemma on_vm_flags:
  assumes "on_vm i f k = Ret k'" "\<And>s s'. f s = Ret s' \<Longrightarrow> p_killed (cur s') = p_killed (cur s)"
  shows "flags k' = flags k"
proof -
  obtain s where "f (vm_of i k) = Ret s" "k' = put_vm i s k" using assms(1) by (auto simp: on_vm_def ret_iff)
  with assms(2) [of "vm_of i k" s] show ?thesis by (simp add: flags_def put_vm_def vm_of_def update_same_flag)
qed

lemma on_vmr_flags:
  assumes "on_vmr i f k = Ret (r, k')" "\<And>s r s'. f s = Ret (r, s') \<Longrightarrow> p_killed (cur s') = p_killed (cur s)"
  shows "flags k' = flags k"
proof -
  obtain s where "f (vm_of i k) = Ret (r, s)" "k' = put_vm i s k" using assms(1) by (auto simp: on_vmr_def ret_iff)
  with assms(2) [of "vm_of i k" r s] show ?thesis by (simp add: flags_def put_vm_def vm_of_def update_same_flag)
qed

lemma upd_p_flags: "p_killed (f (ptable k ! i)) = p_killed (ptable k ! i) \<Longrightarrow> flags (upd_p i f k) = flags k"
  by (simp add: flags_def upd_p_def update_same_flag)

lemma allocproc_paging_flags: "allocproc_paging cf i k = Ret k' \<Longrightarrow> flags k' = flags k"
  unfolding allocproc_paging_def Let_def ret_iff
  apply clarsimp
  apply (drule on_vm_flags, erule kill_flag.alloc_fresh_fblocklst_part)
  apply (drule on_vmr_flags, erule kill_flag.swap_file_part)
  apply (simp add: upd_p_flags)
  done

lemma allocproc_flags:
  assumes "allocproc cf k = Ret (Some i, k')"
  shows "flags k' = flags k"
proof -
  let ?k1 = "(upd_p i (\<lambda>p. p\<lparr>p_state := EMBRYO, p_pid := nextpid k\<rparr>) k)\<lparr>nextpid := nextpid k + 1\<rparr>"
  have 1: "flags ?k1 = flags k"
    using upd_p_flags [where i = i and k = k and f = "\<lambda>p. p\<lparr>p_state := EMBRYO, p_pid := nextpid k\<rparr>"] by (simp add: flags_def)
  obtain stack k2 where st: "on_vmr i (on_kr kalloc) ?k1 = Ret (stack, k2)"
    and rest: "(let k3 = upd_p i (\<lambda>p. p\<lparr>p_context_eip := cf_forkret cf\<rparr>) (upd_p i (\<lambda>p. p\<lparr>p_kstack := stack\<rparr>) k2) in
        k' = k3 \<or> allocproc_paging cf i k3 = Ret k')"
    using assms by (auto simp: allocproc_def Let_def ret_iff case_Ret_iff split: if_splits)
  have "flags k2 = flags k" using on_vmr_flags [OF st kill_flag.on_kr_part] 1 by simp
  then show ?thesis using rest by (auto simp: Let_def upd_p_flags dest!: allocproc_paging_flags)
qed

text \<open>
  (C30) \<open>kill(0)\<close> succeeds when a slot of the table is free, and marks the slot: a free slot has the pid 0, and \<open>kill\<close>
  does not look at the state. \<open>allocproc\<close> does not clear the mark, so the next process, whoever creates it, is
  killed when it is born.
\<close>

theorem kill_zero_hits_free_slot:
  assumes "first_index (\<lambda>p. p_pid p = 0) (ptable k) = Some i" "p_state (proc_at i k) = UNUSED"
    "kill 0 k = (r, k1)" "allocproc cf k1 = Ret (Some i, k2)"
  shows "r = 0 \<and> p_killed (proc_at i k2) \<and> p_pid (proc_at i k2) = nextpid k \<and> p_state (proc_at i k2) = EMBRYO"
proof -
  have i: "i < length (ptable k)" using first_index_Some [OF assms(1)] by simp
  let ?f = "\<lambda>p. p\<lparr>p_killed := True, p_state := if p_state p = SLEEPING then RUNNABLE else p_state p\<rparr>"
  have k1: "k1 = upd_p i ?f k" and r: "r = 0" using assms(1,3) by (auto simp: kill_def)
  have l1: "length (ptable k1) = length (ptable k)" by (simp add: k1 upd_p_def)
  have fl: "flags k2 = flags k1" using assms(4) by (rule allocproc_flags)
  then have l2: "length (ptable k2) = length (ptable k)" using l1 by (metis flags_def length_map)
  have "flags k1 ! i" using i l1 by (simp add: flags_def k1 upd_p_def)
  then have killed: "p_killed (proc_at i k2)" using fl i l2 by (metis flags_def nth_map)
  have "kcore k2 = new_entry i (fresh_entry (nextpid k1) EMBRYO) k1" using allocproc_kcore [OF assms(4)] by simp
  then have "tab k2 ! i = (nextpid k, EMBRYO, e_parent (tab k1 ! i))"
    using i l1 by (auto simp: kcore_def new_entry_def put_entry_def fresh_entry_def tab_def k1 upd_p_def)
  then show ?thesis using killed r i l2 by (simp add: tab_def identity_def)
qed

theorem kill_zero_hits_free_slot_witness:
  "\<exists>k1 k2. kill 0 demo_kernel = (0, k1) \<and> allocproc (demo_config\<lparr>cf_sel := NONE\<rparr>) k1 = Ret (Some 2, k2) \<and> p_killed (proc_at 2 k2) \<and>
     p_pid (proc_at 2 k2) = 3"
proof -
  have pt: "ptable demo_kernel = demo_proc 1 SLEEPING None # demo_proc 2 RUNNING (Some 0) # blank_proc # replicate 61 blank_proc"
    by (simp add: demo_kernel_def numeral_eq_Suc)
  have f0: "first_index (\<lambda>p. p_pid p = 0) (ptable demo_kernel) = Some 2"
    by (simp add: pt first_index_def demo_proc_def upt_conv_Cons blank_proc_def)
  let ?k1 = "upd_p 2 (\<lambda>p. p\<lparr>p_killed := True, p_state := if p_state p = SLEEPING then RUNNABLE else p_state p\<rparr>) demo_kernel"
  have k: "kill 0 demo_kernel = (0, ?k1)" by (simp add: kill_def f0)
  have f1: "first_index (\<lambda>p. p_state p = UNUSED) (ptable ?k1) = Some 2"
    by (simp add: pt first_index_def demo_proc_def upt_conv_Cons blank_proc_def upd_p_def)
  have vk: "k_vk (upd_p i f k) = k_vk k" for i f and k :: "console kernel" by (simp add: upd_p_def)
  obtain x where ka: "kalloc (k_vk demo_kernel) = Ret (frame_addr 1024, x)"
    using kalloc_unlocked [of two_frames] by (auto simp: two_frames_def demo_kernel_def)
  have fr: "frame_addr 1024 \<noteq> 0" by (rule frame_addr_nonzero) simp
  have np: "nextpid demo_kernel = 3" by (simp add: demo_kernel_def)
  obtain k2 where a: "allocproc (demo_config\<lparr>cf_sel := NONE\<rparr>) ?k1 = Ret (Some 2, k2)"
    by (simp add: allocproc_def f1 np Let_def on_vmr_def on_kr_def vm_of_def vk ka fr)
  have "p_state (proc_at 2 demo_kernel) = UNUSED" by (simp add: pt blank_proc_def)
  from kill_zero_hits_free_slot [OF f0 this k a] k a show ?thesis by (auto simp: demo_kernel_def)
qed

section \<open>The page arrays\<close>



end
