(* ===== verification/Fblocks.thy ===== *)
theory Fblocks
  imports Exec
begin

text \<open>
  The free blocks of a swap file (\<open>struct fblock\<close>): the linked list in memory that \<open>exec\<close> and
  \<open>allocproc\<close> build, that writing a page out takes a block from and reading one in gives a block
  to, is a queue of offsets. It provides the interface of queues of \<^verbatim>\<open>Policy\<close>, as the advancing
  queue does.
\<close>

section \<open>The list in memory\<close>

text \<open>Only the links \<open>next\<close> are ever followed; \<open>prev\<close> of the head is out of date once a block is taken.\<close>

fun nexts_to :: "(addr \<Rightarrow> addr) \<Rightarrow> addr list \<Rightarrow> addr \<Rightarrow> bool" where
  "nexts_to nx [] q \<longleftrightarrow> True"
| "nexts_to nx (x # xs) q \<longleftrightarrow> nx x = (if xs = [] then q else hd xs) \<and> nexts_to nx xs q"

lemma nexts_to_snoc: "nexts_to nx (xs @ [y]) q \<longleftrightarrow> nexts_to nx xs y \<and> nx y = q"
  by (induction xs) (auto simp: hd_append)

lemma nexts_to_cong: "(\<And>x. x \<in> set xs \<Longrightarrow> nx x = nx' x) \<Longrightarrow> nexts_to nx xs q = nexts_to nx' xs q"
  by (induction xs) auto

abbreviation (input) off_of :: "'f vst \<Rightarrow> addr \<Rightarrow> u32" where "off_of s \<equiv> \<lambda>n. ld (fb_off n) s"
abbreviation (input) next_of :: "'f vst \<Rightarrow> addr \<Rightarrow> addr" where "next_of s \<equiv> \<lambda>n. ld (fb_next n) s"

definition block_nodes :: "'f vst \<Rightarrow> addr list \<Rightarrow> addr \<Rightarrow> bool" where
  "block_nodes s xs q \<longleftrightarrow> distinct xs \<and> (\<forall>x\<in>set xs. node x) \<and> kmem_inv (vk s) \<and> set xs \<subseteq> allocated (vk s) \<and>
     nexts_to (next_of s) xs q"

definition free_blocks :: "'f vst \<Rightarrow> addr list \<Rightarrow> u32 list \<Rightarrow> bool" where
  "free_blocks s xs offs \<longleftrightarrow> block_nodes s xs 0 \<and> offs = map (off_of s) xs \<and>
     free_head (cur s) = (if xs = [] then 0 else hd xs) \<and> free_tail (cur s) = (if xs = [] then 0 else last xs)"

text \<open>The fields lie where those of \<open>struct queue_node\<close> lie, under other names.\<close>

lemma fb_fields: "fb_off = qn_next" "fb_next = qn_prev" "fb_prev = qn_page_index"
  by (auto simp: fun_eq_iff fb_off_def fb_next_def fb_prev_def qn_next_def qn_prev_def qn_page_index_def)

lemma ld_fb [simp]:
  assumes "node a" "node b"
  shows "ld (fb_off b) (st (fb_off a) v s) = (if a = b then v else ld (fb_off b) s)"
    "ld (fb_next b) (st (fb_off a) v s) = ld (fb_next b) s"
    "ld (fb_off b) (st (fb_next a) v s) = ld (fb_off b) s"
    "ld (fb_next b) (st (fb_next a) v s) = (if a = b then v else ld (fb_next b) s)"
    "ld (fb_off b) (st (fb_prev a) v s) = ld (fb_off b) s"
    "ld (fb_next b) (st (fb_prev a) v s) = ld (fb_next b) s"
  using assms by (simp_all add: fb_fields)

lemma kmem_st [simp]: "kmem_inv (vk (st a v s)) = kmem_inv (vk s)" "allocated (vk (st a v s)) = allocated (vk s)"
  "free_frames (vk (st a v s)) fs = free_frames (vk s) fs"
  by (auto simp: kmem_inv_def free_frames_def free_frame_def)

lemma kmem_mem [simp]: "allocated (k\<lparr>mem := m\<rparr>) = allocated k" "free_frames (k\<lparr>mem := m\<rparr>) fs = free_frames k fs"
  by (auto simp: allocated_def free_frames_def free_frame_def)

section \<open>New nodes\<close>

lemma node_alloc:
  assumes free: "free_frames (vk s) (f # fs)" and inv: "kmem_inv (vk s)"
  shows "\<exists>k. on_kr kalloc s = Ret (frame_addr f, s\<lparr>vk := k\<rparr>) \<and> mem k = mem (vk s) \<and> kmem_inv k \<and> free_frames k fs \<and>
    frame_addr f \<notin> allocated (vk s) \<and> allocated k = insert (frame_addr f) (allocated (vk s)) \<and> node (frame_addr f)"
proof -
  let ?k = "set_refs f 1 ((vk s)\<lparr>freelist := run_next (runs (vk s) f)\<rparr>)"
  have kf: "free_frames ?k fs" using kalloc_free_frames(2) [OF free] by simp
  then have kinv: "kmem_inv ?k" by (auto simp: kmem_inv_def)
  have f: "f < MAXPAGES" "refcount (runs (vk s) f) = 0" using free by (auto simp: free_frames_def free_frame_def)
  have kal: "frame_addr f \<notin> allocated (vk s)" "allocated ?k = insert (frame_addr f) (allocated (vk s))"
    using f by (auto simp: allocated_iff allocated_set_refs)
  have "on_kr kalloc s = Ret (frame_addr f, s\<lparr>vk := ?k\<rparr>)" using kalloc_free_frames(1) [OF free] by (simp add: on_kr_def)
  moreover have "node (frame_addr f)" using f by (auto simp: node_def)
  ultimately show ?thesis using kf kinv kal by (intro exI [of _ ?k]) simp
qed

text \<open>Writes to a new node, and one to the last node of a list, append the new node to the list.\<close>

lemma block_nodes_append:
  assumes B: "block_nodes s xs q" and n: "node n" "n \<notin> set xs" "n \<in> allocated k" and k: "mem k = mem (vk s)" "kmem_inv k" "allocated (vk s) \<subseteq> allocated k"
    and s': "\<And>x. node x \<Longrightarrow> next_of s' x = (if x = n then 0 else if xs \<noteq> [] \<and> x = last xs then n else next_of s x)"
    and kv: "kmem_inv (vk s')" "allocated (vk s') = allocated k"
  shows "block_nodes s' (xs @ [n]) 0"
proof -
  have N: "\<And>x. x \<in> set xs \<Longrightarrow> node x" and D: "distinct xs" and c: "nexts_to (next_of s) xs q" using B by (auto simp: block_nodes_def)
  have "nexts_to (next_of s') xs n"
  proof (cases xs rule: rev_cases)
    case (snoc ys y)
    then have "nexts_to (next_of s') ys y = nexts_to (next_of s) ys y"
      using D N n(2) by (intro nexts_to_cong) (auto simp: s')
    with c snoc N n(2) show ?thesis by (auto simp: nexts_to_snoc s')
  qed simp
  then show ?thesis using B n k(3) kv s' by (auto simp: block_nodes_def nexts_to_snoc)
qed

lemma give_block_appends:
  assumes F: "free_blocks s xs offs" and free: "free_frames (vk s) (f # fs)"
  shows "\<exists>s'. give_block off s = Ret s' \<and> free_blocks s' (xs @ [frame_addr f]) (offs @ [off]) \<and> free_frames (vk s') fs"
proof -
  let ?n = "frame_addr f"
  have B: "block_nodes s xs 0" and h: "free_head (cur s) = (if xs = [] then 0 else hd xs)" "free_tail (cur s) = (if xs = [] then 0 else last xs)"
    and o': "offs = map (off_of s) xs" using F by (auto simp: free_blocks_def)
  then have inv: "kmem_inv (vk s)" and N: "\<And>x. x \<in> set xs \<Longrightarrow> node x" and al: "set xs \<subseteq> allocated (vk s)" by (auto simp: block_nodes_def)
  obtain k where k: "on_kr kalloc s = Ret (?n, s\<lparr>vk := k\<rparr>)" "mem k = mem (vk s)" "kmem_inv k" "free_frames k fs"
    "?n \<notin> allocated (vk s)" "allocated k = insert ?n (allocated (vk s))" "node ?n"
    using node_alloc [OF free inv] by blast
  have n: "?n \<notin> set xs" using al k(5) by auto
  have l: "xs \<noteq> [] \<Longrightarrow> node (last xs)" "xs \<noteq> [] \<Longrightarrow> last xs \<noteq> ?n" "xs \<noteq> [] \<Longrightarrow> last xs \<noteq> 0" using N n by (metis last_in_set node_def)+
  define t where "t = st (fb_prev ?n) (free_tail (cur s)) (st (fb_next ?n) 0 (st (fb_off ?n) off (s\<lparr>vk := k\<rparr>)))"
  define s' where "s' = upd_proc (\<lambda>p. p\<lparr>free_tail := ?n\<rparr>) (if xs = [] then upd_proc (\<lambda>p. p\<lparr>free_head := ?n\<rparr>) t else st (fb_next (last xs)) ?n t)"
  have ct: "cur t = cur s" by (simp add: t_def)
  have run: "give_block off s = Ret s'" using k(1,7) l h by (simp add: give_block_def t_def s'_def)
  have ld: "ld a (s\<lparr>vk := k\<rparr>) = ld a s" for a by (simp add: ld_def k(2))
  have nx: "next_of s' x = (if x = ?n then 0 else if xs \<noteq> [] \<and> x = last xs then ?n else next_of s x)"
    and ox: "off_of s' x = (if x = ?n then off else off_of s x)" if "node x" for x
    using that k(7) l by (auto simp: s'_def t_def ld)
  have "block_nodes s' (xs @ [?n]) 0"
    by (rule block_nodes_append [OF B k(7) n, where k = k]) (use k nx in \<open>auto simp: s'_def t_def\<close>)
  moreover have "offs @ [off] = map (off_of s') (xs @ [?n])" using N n k(7) o' by (auto simp: ox)
  ultimately have "free_blocks s' (xs @ [?n]) (offs @ [off])"
    using h ct by (auto simp: free_blocks_def s'_def hd_append)
  moreover have "free_frames (vk s') fs" using k(4) by (simp add: s'_def t_def)
  ultimately show ?thesis using run by blast
qed

lemma take_block_removes:
  assumes F: "free_blocks s xs (off # offs)"
  shows "\<exists>s'. take_block s = Ret (off, s') \<and> free_blocks s' (tl xs) offs"
proof -
  obtain x ys where xs: "xs = x # ys" using F by (cases xs) (auto simp: free_blocks_def)
  have n: "node x" "x \<noteq> 0" and h: "free_head (cur s) = x" "off_of s x = off" and nx: "next_of s x = (if ys = [] then 0 else hd ys)"
    using F xs by (auto simp: free_blocks_def block_nodes_def node_def)
  have "ys \<noteq> [] \<Longrightarrow> hd ys \<noteq> 0" using F xs by (cases ys) (auto simp: free_blocks_def block_nodes_def node_def)
  then have "take_block s = Ret (off, if ys = [] then upd_proc (\<lambda>p. p\<lparr>free_tail := 0, free_head := 0\<rparr>) s
      else upd_proc (\<lambda>p. p\<lparr>free_head := hd ys\<rparr>) s)"
    using n h nx by (simp add: take_block_def)
  then show ?thesis using F xs by (auto simp: free_blocks_def block_nodes_def)
qed

section \<open>The interface of queues\<close>

interpretation blocks: fifo_queue give_block take_block
  "\<lambda>s offs. \<exists>xs. free_blocks s xs (rev offs)" "\<lambda>s n. \<exists>fs. free_frames (vk s) fs \<and> n \<le> length fs" "\<lambda>_. True"
proof unfold_locales
  fix s :: "'f vst" and offs and n :: nat and off :: u32
  assume "\<exists>xs. free_blocks s xs (rev offs)" "\<exists>fs. free_frames (vk s) fs \<and> Suc n \<le> length fs"
  then obtain xs f fs where "free_blocks s xs (rev offs)" "free_frames (vk s) (f # fs)" "n \<le> length fs"
    by (metis Suc_le_D Suc_le_mono length_Suc_conv)
  from give_block_appends [OF this(1,2), of off] this(3)
  show "\<exists>s'. give_block off s = Ret s' \<and> (\<exists>xs. free_blocks s' xs (rev (off # offs))) \<and> (\<exists>fs. free_frames (vk s') fs \<and> n \<le> length fs)"
    by auto
next
  fix s :: "'f vst" and offs and off :: u32
  assume "\<exists>xs. free_blocks s xs (rev (offs @ [off]))"
  then show "\<exists>s'. take_block s = Ret (off, s') \<and> (\<exists>xs. free_blocks s' xs (rev offs))"
    using take_block_removes by fastforce
qed

section \<open>A fresh list\<close>

text \<open>The turns of \<open>alloc_fresh_fblocklst\<close>, each of which links one node more; the last link is not yet set.\<close>

lemma fblock_nodes_links:
  assumes "block_nodes s (xs @ [prev]) q" "free_frames (vk s) fs" "length is \<le> length fs"
  shows "\<exists>ys s'. fblock_nodes is prev s = Ret (last (xs @ prev # ys), s') \<and> (\<exists>q. block_nodes s' (xs @ prev # ys) q) \<and>
    map (off_of s') (xs @ prev # ys) = map (off_of s) (xs @ [prev]) @ map (\<lambda>i. of_nat i * PGSIZE) is \<and> cur s' = cur s \<and>
    (\<exists>gs. free_frames (vk s') gs \<and> length fs \<le> length gs + length is)"
  using assms
proof (induction "is" arbitrary: s xs prev q fs)
  case Nil
  then show ?case by (intro exI [of _ "[]"] exI [of _ s]) auto
next
  case (Cons i js)
  obtain f gs where fs: "fs = f # gs" using Cons.prems(3) by (cases fs) auto
  let ?n = "frame_addr f"
  have N: "\<And>x. x \<in> set (xs @ [prev]) \<Longrightarrow> node x" and inv: "kmem_inv (vk s)" and al: "set (xs @ [prev]) \<subseteq> allocated (vk s)"
    using Cons.prems(1) by (auto simp: block_nodes_def)
  obtain k where k: "on_kr kalloc s = Ret (?n, s\<lparr>vk := k\<rparr>)" "mem k = mem (vk s)" "kmem_inv k" "free_frames k gs"
    "?n \<notin> allocated (vk s)" "allocated k = insert ?n (allocated (vk s))" "node ?n"
    using node_alloc [OF _ inv] Cons.prems(2) fs by blast
  have n: "?n \<notin> set (xs @ [prev])" "node prev" "prev \<noteq> ?n" using al k(5) N by auto
  define t where "t = st (fb_next prev) ?n (st (fb_prev ?n) prev (st (fb_off ?n) (of_nat i * PGSIZE) (s\<lparr>vk := k\<rparr>)))"
  have run: "fblock_nodes (i # js) prev s = fblock_nodes js ?n t" using k(1,7) n(2) by (simp add: t_def)
  have ld: "ld a (s\<lparr>vk := k\<rparr>) = ld a s" for a by (simp add: ld_def k(2))
  have ox: "off_of t x = (if x = ?n then of_nat i * PGSIZE else off_of s x)" if "node x" for x
    using that k(7) n by (auto simp: t_def ld)
  have nx: "next_of t x = (if x = prev then ?n else next_of s x)" if "node x" for x
    using that k(7) n by (auto simp: t_def ld)
  have "nexts_to (next_of t) xs prev = nexts_to (next_of s) xs prev"
    using Cons.prems(1) N by (intro nexts_to_cong) (auto simp: nx block_nodes_def)
  then have "nexts_to (next_of t) (xs @ [prev]) ?n" using Cons.prems(1) n by (auto simp: block_nodes_def nexts_to_snoc nx)
  then have "nexts_to (next_of t) ((xs @ [prev]) @ [?n]) (next_of t ?n)" by (subst nexts_to_snoc) simp
  moreover have "kmem_inv (vk t)" "allocated (vk t) = insert ?n (allocated (vk s))" using k by (auto simp: t_def)
  ultimately have "block_nodes t ((xs @ [prev]) @ [?n]) (next_of t ?n)"
    using Cons.prems(1) n k(7) unfolding block_nodes_def by auto
  moreover have "free_frames (vk t) gs" "length js \<le> length gs" using k(4) Cons.prems(3) fs by (auto simp: t_def)
  moreover have "cur t = cur s" by (simp add: t_def)
  moreover have "map (off_of t) ((xs @ [prev]) @ [?n]) = map (off_of s) (xs @ [prev]) @ [of_nat i * PGSIZE]"
    using N k(7) n by (auto simp: ox)
  ultimately obtain ys s' where "fblock_nodes js ?n t = Ret (last ((xs @ [prev]) @ ?n # ys), s')"
    "\<exists>q. block_nodes s' ((xs @ [prev]) @ ?n # ys) q"
    "map (off_of s') ((xs @ [prev]) @ ?n # ys) = (map (off_of s) (xs @ [prev]) @ [of_nat i * PGSIZE]) @ map (\<lambda>i. of_nat i * PGSIZE) js"
    "cur s' = cur s" "\<exists>hs. free_frames (vk s') hs \<and> length gs \<le> length hs + length js"
    using Cons.IH [of t "xs @ [prev]" ?n "next_of t ?n" gs] by metis
  then show ?case using run fs by (intro exI [of _ "?n # ys"] exI [of _ s']) auto
qed

definition all_blocks :: "u32 list" where
  "all_blocks = map (\<lambda>i. of_nat i * PGSIZE) [0..<MAX_PSYC_PAGES]"

lemma alloc_fresh_blocks:
  assumes inv: "kmem_inv (vk s)" and free: "free_frames (vk s) fs" and room: "MAX_PSYC_PAGES + n \<le> length fs"
  shows "\<exists>xs s'. alloc_fresh_fblocklst s = Ret s' \<and> free_blocks s' xs all_blocks \<and>
    (\<exists>gs. free_frames (vk s') gs \<and> n \<le> length gs)"
proof -
  obtain f gs where fs: "fs = f # gs" using room by (cases fs) auto
  let ?n = "frame_addr f"
  obtain k where k: "on_kr kalloc s = Ret (?n, s\<lparr>vk := k\<rparr>)" "mem k = mem (vk s)" "kmem_inv k" "free_frames k gs"
    "allocated k = insert ?n (allocated (vk s))" "node ?n"
    using node_alloc [OF _ inv] free fs by blast
  let ?t = "st (fb_off ?n) 0 (st (fb_prev ?n) 0 (upd_proc (\<lambda>p. p\<lparr>free_head := ?n\<rparr>) (s\<lparr>vk := k\<rparr>)))"
  have "block_nodes ?t ([] @ [?n]) (next_of ?t ?n)" "off_of ?t ?n = 0" "free_frames (vk ?t) gs" "length [1..<MAX_PSYC_PAGES] \<le> length gs"
    using k room fs by (auto simp: block_nodes_def)
  then obtain ys s1 where l: "fblock_nodes [1..<MAX_PSYC_PAGES] ?n ?t = Ret (last (?n # ys), s1)" "\<exists>q. block_nodes s1 (?n # ys) q"
    "map (off_of s1) (?n # ys) = [0] @ map (\<lambda>i. of_nat i * PGSIZE) [1..<MAX_PSYC_PAGES]" "cur s1 = cur ?t"
    and g: "\<exists>hs. free_frames (vk s1) hs \<and> length gs \<le> length hs + length [1..<MAX_PSYC_PAGES]"
    using fblock_nodes_links [of ?t "[]" ?n "next_of ?t ?n" gs "[1..<MAX_PSYC_PAGES]"] by auto
  obtain zs l where zs: "?n # ys = zs @ [l]" by (metis list.distinct(1) rev_exhaust)
  then have lst: "last (?n # ys) = l" by (metis last_snoc)
  let ?s = "st (fb_next l) 0 (upd_proc (\<lambda>p. p\<lparr>free_tail := l\<rparr>) s1)"
  have N: "\<And>x. x \<in> set (zs @ [l]) \<Longrightarrow> node x" and d: "distinct (zs @ [l])" using l(2) unfolding zs by (auto simp: block_nodes_def)
  have nl: "node l" using N by simp
  have nx: "next_of ?s x = (if x = l then 0 else next_of s1 x)" "off_of ?s x = off_of s1 x" if "node x" for x using that nl by auto
  have "nexts_to (next_of ?s) zs l = nexts_to (next_of s1) zs l" using N d by (intro nexts_to_cong) (auto simp: nx)
  then have "nexts_to (next_of ?s) (zs @ [l]) 0" using l(2) nl unfolding zs by (auto simp: block_nodes_def nexts_to_snoc nx)
  then have B: "block_nodes ?s (?n # ys) 0" using l(2) unfolding zs by (auto simp: block_nodes_def)
  have "map (off_of ?s) (?n # ys) = map (off_of s1) (?n # ys)" using N unfolding zs by (auto simp: nx)
  also have "\<dots> = all_blocks" unfolding l(3) by (simp add: all_blocks_def upt_conv_Cons)
  finally have "free_blocks ?s (?n # ys) all_blocks" using B l(4) lst by (simp add: free_blocks_def)
  moreover have "alloc_fresh_fblocklst s = Ret ?s"
    using k(1,6) l(1) nl lst by (simp add: alloc_fresh_fblocklst_def)
  moreover have "\<exists>hs. free_frames (vk ?s) hs \<and> n \<le> length hs" using g room fs by auto
  ultimately show ?thesis by blast
qed

text \<open>
  (C27) The free blocks of a swap file are a queue. A fresh list has the offsets of all sixteen pages in
  order; blocks given back go behind them; and blocks are taken in the order they were put in,
  until the list is empty.
\<close>

theorem swap_blocks_queue:
  assumes "kmem_inv (vk s)" "free_frames (vk s) fs" "MAX_PSYC_PAGES + length offs \<le> length fs"
  shows "\<exists>s1 s2 s3. alloc_fresh_fblocklst s = Ret s1 \<and> for_each give_block offs s1 = Ret s2 \<and>
    take_out take_block (MAX_PSYC_PAGES + length offs) s2 = Ret (all_blocks @ offs, s3) \<and>
    free_head (cur s3) = 0 \<and> free_tail (cur s3) = 0"
proof -
  obtain xs s1 where s1: "alloc_fresh_fblocklst s = Ret s1" "free_blocks s1 xs all_blocks" "\<exists>gs. free_frames (vk s1) gs \<and> length offs \<le> length gs"
    using alloc_fresh_blocks [OF assms] by blast
  obtain s2 where s2: "for_each give_block offs s1 = Ret s2" "\<exists>ys. free_blocks s2 ys (rev (rev offs @ rev all_blocks))"
    using blocks.enq_all [of s1 "rev all_blocks" offs] s1(2,3) by auto
  have len: "length (all_blocks @ offs) = MAX_PSYC_PAGES + length offs" by (simp add: all_blocks_def)
  obtain s3 ys where "take_out take_block (MAX_PSYC_PAGES + length offs) s2 = Ret (all_blocks @ offs, s3)" "free_blocks s3 ys []"
    using blocks.deq_all [of s2 "[]" "all_blocks @ offs"] s2(2) unfolding len by auto
  then show ?thesis using s1(1) s2(1) by (auto simp: free_blocks_def)
qed

text \<open>Seventeen free pages, linked in order.\<close>

definition blocks_demo :: "unit vst" where
  "blocks_demo = \<lparr>vk = \<lparr>mem = (\<lambda>_. 0), kend = 0x80400000, kmem_locked = False, use_lock = True, freelist = Some 1024,
     runs = (\<lambda>i. \<lparr>run_next = if i < 1040 then Some (i + 1) else None, refcount = 0\<rparr>)\<rparr>,
     cur = blank_proc, cr3 = 0, sw = ()\<rparr>"

lemma blocks_demo_free: "free_frames (vk blocks_demo) [1024..<1041]"
  by (simp add: blocks_demo_def free_frames_def free_frame_def frame_addr_def P2V_def upt_conv_Cons)

theorem swap_blocks_queue_witness:
  "\<exists>s1 s2 s3. alloc_fresh_fblocklst blocks_demo = Ret s1 \<and> for_each give_block [77] s1 = Ret s2 \<and>
    take_out take_block 17 s2 = Ret (all_blocks @ [77], s3) \<and> free_head (cur s3) = 0"
proof -
  have "kmem_inv (vk blocks_demo)" using blocks_demo_free by (auto simp: kmem_inv_def)
  from swap_blocks_queue [OF this blocks_demo_free, of "[77]"] show ?thesis by auto
qed

end
